(* ===== verification/Nexus_Prelude.thy ===== *)
theory Nexus_Prelude
  imports Complex_Main "HOL-Library.Word" "HOL-Library.Multiset"
begin

text \<open>
  Shared vocabulary of the Nexus-Match development: Go's machine integers and instants, panics as
  values, slices with a capacity, \<open>copy\<close>, \<open>sort.Search\<close>, iteration over a Go map, and the
  generic lemmas about them. It also holds the two interfaces that are not about one component:
  what \<open>sort.Slice\<close> promises, and an invariant of a transition system.
\<close>

section \<open>Integers and instants\<close>

type_synonym i32 = "32 word"
type_synonym i64 = "64 word"

lemma sint_of_nat_i32: "n < 2 ^ 31 \<Longrightarrow> sint (word_of_nat n :: i32) = int n"
  by (simp add: signed_of_nat signed_take_bit_int_eq_self)

text \<open>
  A Go \<open>time.Time\<close> is an instant in nanoseconds since the Unix epoch; \<open>time.Time{}\<close> is the
  first instant of the year 1.
\<close>

type_synonym gtime = int

definition zero_time :: gtime where
  "zero_time = - 62135596800 * 10 ^ 9"

text \<open>\<open>Time.UnixMilli\<close>: the nanosecond part is never negative, so the quotient rounds down.\<close>

definition UnixMilli :: "gtime \<Rightarrow> i64" where
  "UnixMilli t = word_of_int (t div 1000000)"

text \<open>\<open>Time.Sub\<close> saturates at the ends of \<open>time.Duration\<close>, an int64 of nanoseconds.\<close>

definition time_Sub :: "gtime \<Rightarrow> gtime \<Rightarrow> int" where
  "time_Sub t u = max (- (2 ^ 63)) (min (2 ^ 63 - 1) (t - u))"

lemma time_Sub_nonneg: "u \<le> t \<Longrightarrow> 0 \<le> time_Sub t u"
  by (simp add: time_Sub_def)

lemma time_Sub_mono: "u \<le> v \<Longrightarrow> time_Sub t v \<le> time_Sub t u"
  by (auto simp: time_Sub_def)

section \<open>Calls that may panic\<close>

text \<open>A Go call either returns a value or panics; \<open>defer\<close>red code runs in both cases.\<close>

datatype 'a outcome = Ret 'a | Panic

fun ret_bind :: "'a outcome \<Rightarrow> ('a \<Rightarrow> 'b outcome) \<Rightarrow> 'b outcome" where
  "ret_bind Panic f = Panic"
| "ret_bind (Ret x) f = f x"

lemma ret_bind_Ret [simp]: "ret_bind m f = Ret y \<longleftrightarrow> (\<exists>x. m = Ret x \<and> f x = Ret y)"
  by (cases m) auto

text \<open>
  gRPC status codes, in the order of their wire values; a handler's error is a status code with a
  message. Messages are kept only as far as the code branches on them.
\<close>

datatype code =
    OK | Canceled | Unknown | InvalidArgument | DeadlineExceeded | NotFound | AlreadyExists
  | PermissionDenied | ResourceExhausted | FailedPrecondition | Aborted | OutOfRange
  | Unimplemented | Internal | Unavailable | DataLoss | Unauthenticated

text \<open>
  What a handler returns: an \<open>error\<close> (\<open>None\<close> is nil) or a response with an \<open>error\<close>. \<open>status.Code\<close>
  reads nil as \<open>OK\<close>.
\<close>

type_synonym grpc_error = "code option"
type_synonym 'a reply = "'a option \<times> grpc_error"

definition status_Code :: "grpc_error \<Rightarrow> code" where
  "status_Code err = (case err of None \<Rightarrow> OK | Some c \<Rightarrow> c)"

definition reply_ok :: "'a \<Rightarrow> 'a reply" where
  "reply_ok resp = (Some resp, None)"

definition reply_error :: "code \<Rightarrow> 'a reply" where
  "reply_error c = (None, Some c)"

section \<open>Slices\<close>

text \<open>
  A Go slice: its elements and the capacity of its backing array. The zero value \<open>nil\<close> has
  neither.
\<close>

record 'a slice =
  elems :: "'a list"
  scap :: nat

definition nil_slice :: "'a slice" where
  "nil_slice = \<lparr>elems = [], scap = 0\<rparr>"

lemma elems_nil_slice [simp]: "elems nil_slice = []"
  by (simp add: nil_slice_def)

lemma scap_nil_slice [simp]: "scap nil_slice = 0"
  by (simp add: nil_slice_def)

text \<open>
  \<open>copy(s[i:], s[j:])\<close> on one backing array: as many elements as both ranges hold, read before
  they are overwritten, as Go's \<open>copy\<close> does for overlapping ranges.
\<close>

definition slice_copy :: "nat \<Rightarrow> nat \<Rightarrow> 'a list \<Rightarrow> 'a list" where
  "slice_copy i j xs =
     (let n = min (length xs - i) (length xs - j)
      in take i xs @ take n (drop j xs) @ drop (i + n) xs)"

text \<open>
  Capacity after \<open>append\<close> of one element: unchanged while it fits; otherwise the runtime's
  \<open>growslice\<close> chooses (a parameter \<open>grow\<close> of the old capacity and the needed length).
\<close>

definition append_cap :: "(nat \<Rightarrow> nat \<Rightarrow> nat) \<Rightarrow> 'a slice \<Rightarrow> nat" where
  "append_cap grow s =
     (let need = Suc (length (elems s)) in if need \<le> scap s then scap s else grow (scap s) need)"

section \<open>Binary search\<close>

text \<open>The loop of \<open>sort.Search\<close>: \<open>i\<close> and \<open>j\<close> close in on the first index where \<open>f\<close> holds.\<close>

function search_loop :: "(nat \<Rightarrow> bool) \<Rightarrow> nat \<Rightarrow> nat \<Rightarrow> nat" where
  "search_loop f i j =
     (if i < j then let h = (i + j) div 2 in if \<not> f h then search_loop f (Suc h) j else search_loop f i h
      else i)"
  by pat_completeness auto
termination
  by (relation "measure (\<lambda>(f, i, j). j - i)") auto

declare search_loop.simps [simp del]

definition sort_Search :: "nat \<Rightarrow> (nat \<Rightarrow> bool) \<Rightarrow> nat" where
  "sort_Search n f = search_loop f 0 n"

lemma search_loop_stop: "\<not> i < j \<Longrightarrow> search_loop f i j = i"
  by (simp add: search_loop.simps)

lemma search_loop_step:
  "i < j \<Longrightarrow> search_loop f i j =
     (if f ((i + j) div 2) then search_loop f i ((i + j) div 2) else search_loop f (Suc ((i + j) div 2)) j)"
  by (simp add: search_loop.simps [of f i j] Let_def)

definition upward :: "nat \<Rightarrow> (nat \<Rightarrow> bool) \<Rightarrow> bool" where
  "upward n f \<longleftrightarrow> (\<forall>a b. a \<le> b \<and> b < n \<and> f a \<longrightarrow> f b)"

lemma search_loop_spec:
  assumes "upward n f" "i \<le> j" "j \<le> n" "\<forall>k<i. \<not> f k" "\<forall>k. j \<le> k \<and> k < n \<longrightarrow> f k"
  shows "search_loop f i j \<le> n \<and> (\<forall>k < search_loop f i j. \<not> f k)
       \<and> (\<forall>k. search_loop f i j \<le> k \<and> k < n \<longrightarrow> f k)"
  using assms
proof (induction f i j rule: search_loop.induct)
  case (1 f i j)
  let ?h = "(i + j) div 2"
  show ?case
  proof (cases "i < j")
    case False
    with "1.prems" show ?thesis by (simp add: search_loop_stop)
  next
    case True
    then have h: "i \<le> ?h" "?h < j" by auto
    show ?thesis
    proof (cases "f ?h")
      case True
      with "1.prems"(1) have "\<forall>k. ?h \<le> k \<and> k < n \<longrightarrow> f k"
        unfolding upward_def by blast
      with "1.IH"(2) [OF \<open>i < j\<close> refl] True h "1.prems" show ?thesis
        by (simp add: search_loop_step [OF \<open>i < j\<close>])
    next
      case False
      have "?h < n" using h "1.prems"(3) by simp
      then have "\<forall>k < Suc ?h. \<not> f k"
        using False "1.prems"(1) unfolding upward_def by (meson less_Suc_eq_le)
      with "1.IH"(1) [OF \<open>i < j\<close> refl] False h "1.prems" show ?thesis
        by (simp add: search_loop_step [OF \<open>i < j\<close>])
    qed
  qed
qed

lemma sort_Search_spec:
  assumes "upward n f"
  shows "sort_Search n f \<le> n \<and> (\<forall>k < sort_Search n f. \<not> f k)
       \<and> (\<forall>k. sort_Search n f \<le> k \<and> k < n \<longrightarrow> f k)"
  unfolding sort_Search_def by (rule search_loop_spec) (use assms in auto)

section \<open>Sorting\<close>

text \<open>
  What \<open>sort.Slice\<close> promises for a comparison of keys: a permutation of the input in key order.
  It promises nothing about the order of equal keys, so the model takes the sorter as a parameter
  and its clients are proved for every sorter that keeps this contract.
\<close>

locale go_sort =
  fixes srt :: "('a \<Rightarrow> 'a \<Rightarrow> bool) \<Rightarrow> 'a list \<Rightarrow> 'a list"
  assumes mset_srt: "mset (srt lt xs) = mset xs"
    and sorted_srt: "\<And>rank :: 'a \<Rightarrow> int. sorted (map rank (srt (\<lambda>a b. rank a < rank b) xs))"
begin

lemma set_srt [simp]: "set (srt lt xs) = set xs"
  using mset_srt mset_eq_setD by blast

lemma length_srt [simp]: "length (srt lt xs) = length xs"
  using mset_srt mset_eq_length by blast

lemma distinct_map_srt: "distinct (map g (srt lt xs)) \<longleftrightarrow> distinct (map g xs)"
  using mset_srt [of lt xs] by (metis mset_eq_imp_distinct_iff mset_map)

end

text \<open>
  The library's own \<open>insertionSort\<close>, which \<open>sort.Slice\<close> runs on up to twelve elements: each
  element moves left past the strictly greater ones. The accumulator holds the sorted prefix
  reversed.
\<close>

fun sift :: "('a \<Rightarrow> 'a \<Rightarrow> bool) \<Rightarrow> 'a \<Rightarrow> 'a list \<Rightarrow> 'a list" where
  "sift lt x [] = [x]"
| "sift lt x (y # ys) = (if lt x y then y # sift lt x ys else x # y # ys)"

definition insertionSort :: "('a \<Rightarrow> 'a \<Rightarrow> bool) \<Rightarrow> 'a list \<Rightarrow> 'a list" where
  "insertionSort lt xs = rev (fold (sift lt) xs [])"

lemma mset_sift: "mset (sift lt x ys) = add_mset x (mset ys)"
  by (induction ys) auto

lemma mset_fold_sift: "mset (fold (sift lt) xs acc) = mset xs + mset acc"
  by (induction xs arbitrary: acc) (auto simp: mset_sift)

lemma sorted_sift:
  fixes rank :: "'a \<Rightarrow> int"
  assumes "sorted_wrt (\<ge>) (map rank ys)"
  shows "sorted_wrt (\<ge>) (map rank (sift (\<lambda>a b. rank a < rank b) x ys))"
  using assms
proof (induction ys)
  case (Cons y ys)
  have "set (sift (\<lambda>a b. rank a < rank b) x ys) = insert x (set ys)"
    using mset_sift [of _ x ys] by (metis set_mset_add_mset_insert set_mset_mset)
  with Cons show ?case by fastforce
qed simp

lemma sorted_fold_sift:
  fixes rank :: "'a \<Rightarrow> int"
  shows "sorted_wrt (\<ge>) (map rank acc) \<Longrightarrow>
    sorted_wrt (\<ge>) (map rank (fold (sift (\<lambda>a b. rank a < rank b)) xs acc))"
  by (induction xs arbitrary: acc) (auto simp: sorted_sift)

interpretation insertion: go_sort insertionSort
proof unfold_locales
  fix lt :: "'a \<Rightarrow> 'a \<Rightarrow> bool" and rank :: "'a \<Rightarrow> int" and xs :: "'a list"
  show "mset (insertionSort lt xs) = mset xs"
    by (simp add: insertionSort_def mset_fold_sift)
  show "sorted (map rank (insertionSort (\<lambda>a b. rank a < rank b) xs))"
    using sorted_fold_sift [of rank "[]" xs]
    by (simp add: insertionSort_def rev_map [symmetric] sorted_wrt_rev)
qed

text \<open>A loop whose body sees the same value in every turn.\<close>

lemma fold_same:
  "(\<And>j. j \<in> set js \<Longrightarrow> f j = c) \<Longrightarrow> fold (\<lambda>j acc. g acc (f j)) js a = ((\<lambda>acc. g acc c) ^^ length js) a"
  by (induction js arbitrary: a) (simp_all add: funpow_Suc_right del: funpow.simps(2))

section \<open>Iterating over a Go map\<close>

text \<open>
  \<open>for k, v := range m\<close> visits every key once, in an order Go leaves open. A model of such a loop
  takes a list of keys \<open>ks\<close> and visits those of them that \<open>m\<close> holds; every order of the keys of
  \<open>m\<close> is such a list.
\<close>

definition range_keys :: "'k list \<Rightarrow> ('k \<rightharpoonup> 'v) \<Rightarrow> 'k list" where
  "range_keys ks m = filter (\<lambda>k. m k \<noteq> None) ks"

definition covers :: "'k list \<Rightarrow> ('k \<rightharpoonup> 'v) \<Rightarrow> bool" where
  "covers ks m \<longleftrightarrow> distinct ks \<and> dom m \<subseteq> set ks"

lemma set_range_keys: "covers ks m \<Longrightarrow> set (range_keys ks m) = dom m"
  by (auto simp: covers_def range_keys_def)

lemma distinct_range_keys: "covers ks m \<Longrightarrow> distinct (range_keys ks m)"
  by (simp add: covers_def range_keys_def)

text \<open>\<open>m[k]\<close> of a map of slices: the nil slice where the key is missing.\<close>

definition slice_at :: "('k \<rightharpoonup> 'a slice) \<Rightarrow> 'k \<Rightarrow> 'a slice" where
  "slice_at m k = (case m k of None \<Rightarrow> nil_slice | Some s \<Rightarrow> s)"

lemma slice_at_Some [simp]: "m k = Some s \<Longrightarrow> slice_at m k = s"
  by (simp add: slice_at_def)

lemma slice_at_None [simp]: "m k = None \<Longrightarrow> slice_at m k = nil_slice"
  by (simp add: slice_at_def)

section \<open>Transition systems\<close>

text \<open>The states a machine can be in, and the interface of an inductive invariant.\<close>

inductive reachable :: "('s \<Rightarrow> bool) \<Rightarrow> ('s \<Rightarrow> 's \<Rightarrow> bool) \<Rightarrow> 's \<Rightarrow> bool"
  for init :: "'s \<Rightarrow> bool" and step :: "'s \<Rightarrow> 's \<Rightarrow> bool" where
  start: "init s \<Longrightarrow> reachable init step s"
| move: "reachable init step s \<Longrightarrow> step s t \<Longrightarrow> reachable init step t"

locale inductive_invariant =
  fixes init :: "'s \<Rightarrow> bool" and step :: "'s \<Rightarrow> 's \<Rightarrow> bool" and inv :: "'s \<Rightarrow> bool"
  assumes inv_init: "init s \<Longrightarrow> inv s"
    and inv_step: "inv s \<Longrightarrow> step s t \<Longrightarrow> inv t"
begin

lemma reachable_inv: "reachable init step s \<Longrightarrow> inv s"
  by (induction rule: reachable.induct) (auto intro: inv_init inv_step)

end

lemma reachable_steps: "step\<^sup>*\<^sup>* s t \<Longrightarrow> reachable init step s \<Longrightarrow> reachable init step t"
  by (induction rule: rtranclp_induct) (auto intro: reachable.move)

text \<open>
  A machine that carries another one along: \<open>abs\<close> reads the state of the inner machine off the outer
  one, and every outer step is a run of the inner machine, possibly an empty one.
\<close>

locale forward_simulation = inductive_invariant init step inv
  for init :: "'c \<Rightarrow> bool" and step :: "'c \<Rightarrow> 'c \<Rightarrow> bool" and inv :: "'c \<Rightarrow> bool" +
  fixes abs_init :: "'a \<Rightarrow> bool" and abs_step :: "'a \<Rightarrow> 'a \<Rightarrow> bool" and abs :: "'c \<Rightarrow> 'a"
  assumes sim_init: "init s \<Longrightarrow> abs_init (abs s)"
    and sim_step: "inv s \<Longrightarrow> step s t \<Longrightarrow> abs_step\<^sup>*\<^sup>* (abs s) (abs t)"
begin

lemma reachable_abs: "reachable init step s \<Longrightarrow> reachable abs_init abs_step (abs s)"
proof (induction rule: reachable.induct)
  case (start s)
  then show ?case by (intro reachable.start sim_init)
next
  case (move s t)
  then show ?case using reachable_steps [OF sim_step [OF reachable_inv]] by blast
qed

lemma steps_abs: "step\<^sup>*\<^sup>* s t \<Longrightarrow> reachable init step s \<Longrightarrow> abs_step\<^sup>*\<^sup>* (abs s) (abs t)"
proof (induction rule: rtranclp_induct)
  case (step t u)
  have "inv t" by (rule reachable_inv [OF reachable_steps [OF step(1,4)]])
  then show ?case using step sim_step [of t u] by (meson rtranclp_trans)
qed simp

text \<open>What every reachable state of the inner machine satisfies, the outer one carries along.\<close>

lemma abs_inv:
  assumes "inductive_invariant abs_init abs_step I" "reachable init step s"
  shows "I (abs s)"
  by (rule inductive_invariant.reachable_inv [OF assms(1) reachable_abs [OF assms(2)]])

end

section \<open>Leaving a queue\<close>

text \<open>
  What a stream relies on when it takes its player out of the queue: the call returns whether the
  id was waiting, and afterwards exactly that id is not.
\<close>

locale player_queue =
  fixes leave :: "string \<Rightarrow> 'p \<Rightarrow> 'p \<times> bool outcome" and waiting :: "string \<Rightarrow> 'p \<Rightarrow> bool" and ok :: "'p \<Rightarrow> bool"
  assumes leave_returns: "ok p \<Longrightarrow> snd (leave i p) = Ret (waiting i p)"
    and leave_ok: "ok p \<Longrightarrow> ok (fst (leave i p))"
    and leave_only: "ok p \<Longrightarrow> waiting j (fst (leave i p)) \<longleftrightarrow> waiting j p \<and> j \<noteq> i"
begin

lemma leave_total: "ok p \<Longrightarrow> \<exists>p' b. leave i p = (p', Ret b) \<and> ok p' \<and> \<not> waiting i p'"
  using leave_returns leave_ok leave_only by (metis prod.collapse)

text \<open>Leaving twice, as a cancelled stream does, is harmless.\<close>

lemma leave_twice:
  assumes "ok p"
  shows "snd (leave i (fst (leave i p))) = Ret False"
    and "waiting j (fst (leave i (fst (leave i p)))) \<longleftrightarrow> waiting j (fst (leave i p))"
  using leave_returns leave_ok leave_only assms by auto

end

end
