(* ===== verification/Nexus_Session.thy ===== *)
theory Nexus_Session
  imports Nexus_Prelude
begin

text \<open>
  \<open>internal/state/session.go\<close>: the registry of sessions. Every method holds the store's mutex for its
  whole body, so each is one atomic function on the store. The store maps ids to \<open>*Session\<close>; the
  sessions are only written under the lock, through the map, so the model keeps them by value. The one
  reader without the lock, the tracker's \<open>GetSession\<close>, is the subject of \<open>Nexus_Snapshot\<close>.
\<close>

section \<open>Types\<close>

definition MMRWinDelta :: i32 where "MMRWinDelta = 25"
definition MMRLossDelta :: i32 where "MMRLossDelta = - 25"
definition MMRDrawDelta :: i32 where "MMRDrawDelta = 0"

lemmas mmr_deltas = MMRWinDelta_def MMRLossDelta_def MMRDrawDelta_def

record ResultEntry =
  re_PlayerID :: string
  re_Result :: i32
  re_Score :: i32
  MMRDelta :: i32

record Session =
  SessionID :: string
  PlayerIDs :: "string list"
  Results :: "string \<rightharpoonup> ResultEntry"
  StartedAt :: gtime
  EndedAt :: gtime
  Finalized :: bool

record SessionStore =
  sessions :: "string \<rightharpoonup> Session"

definition NewSessionStore :: SessionStore where
  "NewSessionStore = \<lparr>sessions = Map.empty\<rparr>"

text \<open>The sentinel errors with what the wrapped error adds, and the error of the \<open>default\<close> branch.\<close>

datatype session_error =
    ErrSessionNotFound string
  | ErrPlayerNotInSession string string
  | ErrDuplicateSubmission string string
  | InvalidResult i32

section \<open>Operations\<close>

definition CreateSession :: "gtime \<Rightarrow> string \<Rightarrow> string list \<Rightarrow> SessionStore \<Rightarrow> SessionStore" where
  "CreateSession now sid pids ss =
     ss\<lparr>sessions := (sessions ss)(sid \<mapsto>
        \<lparr>SessionID = sid, PlayerIDs = pids, Results = Map.empty, StartedAt = now,
         EndedAt = zero_time, Finalized = False\<rparr>)\<rparr>"

text \<open>The \<open>switch\<close> on the result value.\<close>

definition result_delta :: "i32 \<Rightarrow> session_error + i32" where
  "result_delta result =
     (if result = 1 then Inr MMRWinDelta
      else if result = 2 then Inr MMRLossDelta
      else if result = 3 then Inr MMRDrawDelta
      else Inl (InvalidResult result))"

definition RecordResult ::
  "gtime \<Rightarrow> string \<Rightarrow> string \<Rightarrow> i32 \<Rightarrow> i32 \<Rightarrow> SessionStore \<Rightarrow> SessionStore \<times> (session_error + i32)" where
  "RecordResult now sid pid result score ss = (case sessions ss sid of
       None \<Rightarrow> (ss, Inl (ErrSessionNotFound sid))
     | Some session \<Rightarrow>
         if pid \<notin> set (PlayerIDs session) then (ss, Inl (ErrPlayerNotInSession pid sid))
         else if Results session pid \<noteq> None then (ss, Inl (ErrDuplicateSubmission pid sid))
         else (case result_delta result of
             Inl e \<Rightarrow> (ss, Inl e)
           | Inr delta \<Rightarrow>
               (let entry = \<lparr>re_PlayerID = pid, re_Result = result, re_Score = score, MMRDelta = delta\<rparr>;
                    s1 = session\<lparr>Results := (Results session)(pid \<mapsto> entry)\<rparr>;
                    s2 = (if card (dom (Results s1)) = length (PlayerIDs s1)
                          then s1\<lparr>Finalized := True, EndedAt := now\<rparr> else s1)
                in (ss\<lparr>sessions := (sessions ss)(sid \<mapsto> s2)\<rparr>, Inr delta))))"

definition GetSession :: "string \<Rightarrow> SessionStore \<Rightarrow> Session option" where
  "GetSession sid ss = sessions ss sid"

text \<open>The counting loop over the map, in the order of \<open>ks\<close>.\<close>

definition ActiveCount :: "string list \<Rightarrow> SessionStore \<Rightarrow> nat" where
  "ActiveCount ks ss =
     fold (\<lambda>sid count. case sessions ss sid of
             Some s \<Rightarrow> if \<not> Finalized s then Suc count else count
           | None \<Rightarrow> count)
       (range_keys ks (sessions ss)) 0"

section \<open>Invariant\<close>

text \<open>
  A session holds results of its own players only, each entry under its player with the delta of its
  result; and it is final exactly when every player has submitted (a session of no players, which
  the matchmaker never creates, is never finalized).
\<close>

definition entry_ok :: "string \<Rightarrow> ResultEntry \<Rightarrow> bool" where
  "entry_ok pid e \<longleftrightarrow> re_PlayerID e = pid \<and> result_delta (re_Result e) = Inr (MMRDelta e)"

definition session_inv :: "string \<Rightarrow> Session \<Rightarrow> bool" where
  "session_inv sid s \<longleftrightarrow> SessionID s = sid \<and> dom (Results s) \<subseteq> set (PlayerIDs s)
     \<and> (\<forall>pid e. Results s pid = Some e \<longrightarrow> entry_ok pid e)
     \<and> (Finalized s \<longleftrightarrow> PlayerIDs s \<noteq> [] \<and> card (dom (Results s)) = length (PlayerIDs s))
     \<and> (\<not> Finalized s \<longrightarrow> EndedAt s = zero_time)"

definition store_inv :: "SessionStore \<Rightarrow> bool" where
  "store_inv ss \<longleftrightarrow> (\<forall>sid s. sessions ss sid = Some s \<longrightarrow> session_inv sid s)"

lemma store_inv_New: "store_inv NewSessionStore"
  by (simp add: store_inv_def NewSessionStore_def)

lemma CreateSession_inv: "store_inv ss \<Longrightarrow> store_inv (CreateSession now sid pids ss)"
  by (auto simp: store_inv_def CreateSession_def session_inv_def)

lemma session_finite: "session_inv sid s \<Longrightarrow> finite (dom (Results s))"
  unfolding session_inv_def using finite_subset [OF _ finite_set] by blast

text \<open>The branches of \<open>RecordResult\<close>, as one rule.\<close>

lemma RecordResult_cases:
  obtains (NotFound) "sessions ss sid = None"
      "RecordResult now sid pid result score ss = (ss, Inl (ErrSessionNotFound sid))"
  | (NotMember) s where "sessions ss sid = Some s" "pid \<notin> set (PlayerIDs s)"
      "RecordResult now sid pid result score ss = (ss, Inl (ErrPlayerNotInSession pid sid))"
  | (Duplicate) s where "sessions ss sid = Some s" "pid \<in> set (PlayerIDs s)" "pid \<in> dom (Results s)"
      "RecordResult now sid pid result score ss = (ss, Inl (ErrDuplicateSubmission pid sid))"
  | (Invalid) s where "sessions ss sid = Some s" "pid \<in> set (PlayerIDs s)" "pid \<notin> dom (Results s)"
      "result_delta result = Inl (InvalidResult result)"
      "RecordResult now sid pid result score ss = (ss, Inl (InvalidResult result))"
  | (Recorded) s s2 delta where "sessions ss sid = Some s" "pid \<in> set (PlayerIDs s)" "pid \<notin> dom (Results s)"
      "result_delta result = Inr delta"
      "s2 = (let s1 = s\<lparr>Results := (Results s)(pid \<mapsto>
               \<lparr>re_PlayerID = pid, re_Result = result, re_Score = score, MMRDelta = delta\<rparr>)\<rparr>
             in if card (dom (Results s1)) = length (PlayerIDs s1) then s1\<lparr>Finalized := True, EndedAt := now\<rparr> else s1)"
      "RecordResult now sid pid result score ss = (ss\<lparr>sessions := (sessions ss)(sid \<mapsto> s2)\<rparr>, Inr delta)"
proof (cases "sessions ss sid")
  case None
  then show thesis by (intro NotFound) (simp_all add: RecordResult_def)
next
  case (Some s)
  consider "pid \<notin> set (PlayerIDs s)" | "pid \<in> set (PlayerIDs s)" "pid \<in> dom (Results s)"
    | "pid \<in> set (PlayerIDs s)" "pid \<notin> dom (Results s)" by blast
  then show thesis
  proof cases
    case 1
    with Some show thesis by (intro NotMember) (simp_all add: RecordResult_def)
  next
    case 2
    with Some show thesis by (intro Duplicate) (auto simp: RecordResult_def)
  next
    case 3
    show thesis
    proof (cases "result_delta result")
      case (Inl e)
      then have "e = InvalidResult result" by (auto simp: result_delta_def split: if_splits)
      with Inl 3 Some show thesis by (intro Invalid) (auto simp: RecordResult_def)
    next
      case (Inr delta)
      with 3 Some show thesis by (intro Recorded) (auto simp: RecordResult_def Let_def)
    qed
  qed
qed

lemma open_session:
  assumes "session_inv sid s" "pid \<in> set (PlayerIDs s)" "pid \<notin> dom (Results s)"
  shows "\<not> Finalized s \<and> EndedAt s = zero_time"
proof -
  have "dom (Results s) \<subset> set (PlayerIDs s)" using assms by (auto simp: session_inv_def)
  then have "card (dom (Results s)) < card (set (PlayerIDs s))" by (intro psubset_card_mono) auto
  also have "\<dots> \<le> length (PlayerIDs s)" by (rule card_length)
  finally show ?thesis using assms(1) by (auto simp: session_inv_def)
qed

lemma result_delta_entry: "result_delta r = Inr d \<Longrightarrow>
    entry_ok pid \<lparr>re_PlayerID = pid, re_Result = r, re_Score = sc, MMRDelta = d\<rparr>"
  by (simp add: entry_ok_def)

lemma RecordResult_inv:
  assumes inv: "store_inv ss"
  shows "store_inv (fst (RecordResult now sid pid result score ss))"
proof (cases rule: RecordResult_cases [of ss sid now pid result score])
  case (Recorded s s2 delta)
  have si: "session_inv sid s" using inv Recorded(1) by (simp add: store_inv_def)
  note o = open_session [OF si Recorded(2,3)]
  have "session_inv sid s2"
    using si o Recorded(2) result_delta_entry [OF Recorded(4)]
    unfolding Recorded(5) by (auto simp: session_inv_def Let_def)
  with inv Recorded(6) show ?thesis by (simp add: store_inv_def)
qed (use inv in simp_all)

text \<open>Recording touches one session, adds to it, and leaves a finalized one alone.\<close>

lemma RecordResult_keeps:
  assumes inv: "store_inv ss" and at: "sessions ss i = Some s"
  obtains s' where "sessions (fst (RecordResult now sid pid result score ss)) i = Some s'"
    and "Results s \<subseteq>\<^sub>m Results s'" "PlayerIDs s' = PlayerIDs s" "Finalized s \<Longrightarrow> s' = s"
    and "i \<noteq> sid \<Longrightarrow> s' = s"
proof (cases rule: RecordResult_cases [of ss sid now pid result score])
  case (Recorded t s2 delta)
  show thesis
  proof (cases "i = sid")
    case True
    then have [simp]: "t = s" using at Recorded(1) by simp
    have "session_inv sid s" using inv at True by (simp add: store_inv_def)
    note o = open_session [OF this] Recorded(2,3,5,6)
    show thesis
      by (rule that [of s2]) (use True o in \<open>auto simp: Let_def map_le_def\<close>)
  next
    case False
    with at Recorded(6) show thesis by (intro that [of s]) auto
  qed
qed (use at that [of s] in simp_all)

section \<open>Submitting the results of a whole match\<close>

fun submit_all :: "gtime \<Rightarrow> string \<Rightarrow> (string \<times> i32 \<times> i32) list \<Rightarrow> SessionStore
    \<Rightarrow> SessionStore \<times> (session_error + i32) list" where
  "submit_all now sid [] ss = (ss, [])"
| "submit_all now sid ((pid, result, score) # subs) ss =
     (let (ss1, r) = RecordResult now sid pid result score ss;
          (ss2, rs) = submit_all now sid subs ss1
      in (ss2, r # rs))"

lemma submit_all_accepts:
  assumes "store_inv ss" "sessions ss sid = Some s" "distinct (map fst subs)"
    and "set (map fst subs) \<subseteq> set (PlayerIDs s) - dom (Results s)"
    and "\<forall>(pid, result, score) \<in> set subs. result \<in> {1, 2, 3}"
    and "submit_all now sid subs ss = (ss', rs)"
  shows "store_inv ss' \<and> (\<forall>r \<in> set rs. \<exists>d. r = Inr d)
    \<and> (\<exists>s'. sessions ss' sid = Some s' \<and> PlayerIDs s' = PlayerIDs s
           \<and> dom (Results s') = dom (Results s) \<union> set (map fst subs))"
  using assms
proof (induction subs arbitrary: ss s ss' rs)
  case Nil
  then show ?case by simp
next
  case (Cons sub subs)
  obtain pid result score where sub: "sub = (pid, result, score)" by (cases sub)
  obtain ss1 r where rec: "RecordResult now sid pid result score ss = (ss1, r)" by fastforce
  obtain rs' where rest: "submit_all now sid subs ss1 = (ss', rs')" "rs = r # rs'"
    using Cons.prems(6) by (auto simp: sub rec Let_def split: prod.splits)
  obtain d where d: "result_delta result = Inr d"
    using Cons.prems(5) sub by (auto simp: result_delta_def)
  show ?case
  proof (cases rule: RecordResult_cases [of ss sid now pid result score])
    case (Recorded t s2 delta)
    have [simp]: "t = s" using Recorded(1) Cons.prems(2) by simp
    have at: "sessions ss1 sid = Some s2" and r: "r = Inr delta" using Recorded(6) rec by auto
    have s2: "PlayerIDs s2 = PlayerIDs s" "dom (Results s2) = insert pid (dom (Results s))"
      unfolding Recorded(5) by (simp_all add: Let_def)
    have inv: "store_inv ss1" using RecordResult_inv [OF Cons.prems(1)] rec by (metis fst_conv)
    have "set (map fst subs) \<subseteq> set (PlayerIDs s2) - dom (Results s2)"
      using Cons.prems(3,4) s2 sub by auto
    from Cons.IH [OF inv at _ this _ rest(1)] Cons.prems(3,5) s2 r rest(2) sub
    show ?thesis by simp
  qed (use Cons.prems(2,4) sub d in auto)
qed

lemma finalized_iff:
  assumes "session_inv sid s" "distinct (PlayerIDs s)" "PlayerIDs s \<noteq> []"
  shows "Finalized s \<longleftrightarrow> dom (Results s) = set (PlayerIDs s)"
proof
  assume "Finalized s"
  then have "card (dom (Results s)) = card (set (PlayerIDs s))"
    using assms(1,2) by (simp add: session_inv_def distinct_card)
  moreover have "dom (Results s) \<subseteq> set (PlayerIDs s)" using assms(1) by (simp add: session_inv_def)
  ultimately show "dom (Results s) = set (PlayerIDs s)" by (intro card_subset_eq) auto
next
  assume "dom (Results s) = set (PlayerIDs s)"
  then show "Finalized s" using assms by (simp add: session_inv_def distinct_card)
qed

section \<open>Counting\<close>

lemma ActiveCount_card:
  assumes "covers ks (sessions ss)"
  shows "ActiveCount ks ss = card {sid. \<exists>s. GetSession sid ss = Some s \<and> \<not> Finalized s}"
proof -
  let ?active = "\<lambda>sid. \<exists>s. sessions ss sid = Some s \<and> \<not> Finalized s"
  have count: "fold (\<lambda>sid count. case sessions ss sid of
             Some s \<Rightarrow> if \<not> Finalized s then Suc count else count | None \<Rightarrow> count) xs n
      = n + length (filter ?active xs)" for xs n
    by (induction xs arbitrary: n) (auto split: option.splits)
  have "distinct (filter ?active (range_keys ks (sessions ss)))"
    using distinct_range_keys [OF assms] by simp
  moreover have "set (filter ?active (range_keys ks (sessions ss))) = {sid. ?active sid}"
    using set_range_keys [OF assms] by auto
  ultimately show ?thesis
    by (simp add: ActiveCount_def count GetSession_def flip: distinct_card)
qed

section \<open>The store as a machine\<close>

inductive store_step :: "SessionStore \<Rightarrow> SessionStore \<Rightarrow> bool" where
  created: "store_step ss (CreateSession now sid pids ss)"
| recorded: "store_step ss (fst (RecordResult now sid pid result score ss))"

inductive_cases store_stepE: "store_step ss ss'"

interpretation store_machine: inductive_invariant "\<lambda>ss. ss = NewSessionStore" store_step store_inv
  by unfold_locales (auto simp: store_inv_New CreateSession_inv RecordResult_inv elim: store_stepE)

section \<open>Properties\<close>

text \<open>In every state the store can reach, a session holds entries of its own players only, each with
  the delta its result earns; it is finalized exactly when all of its (distinct) players have
  submitted, and its end is the zero instant until then.\<close>

theorem reachable_session:
  assumes "reachable (\<lambda>ss. ss = NewSessionStore) store_step ss" "GetSession sid ss = Some s"
  shows "SessionID s = sid \<and> dom (Results s) \<subseteq> set (PlayerIDs s)
    \<and> (\<forall>pid e. Results s pid = Some e \<longrightarrow> re_PlayerID e = pid
          \<and> (re_Result e, MMRDelta e) \<in> {(1, 25), (2, - 25), (3, 0)})
    \<and> (distinct (PlayerIDs s) \<and> PlayerIDs s \<noteq> [] \<longrightarrow>
          (Finalized s \<longleftrightarrow> dom (Results s) = set (PlayerIDs s)))
    \<and> (\<not> Finalized s \<longrightarrow> EndedAt s = zero_time)"
proof -
  have inv: "session_inv sid s"
    using store_machine.reachable_inv [OF assms(1)] assms(2) by (simp add: store_inv_def GetSession_def)
  then have "re_PlayerID e = pid \<and> (re_Result e, MMRDelta e) \<in> {(1, 25), (2, - 25), (3, 0)}"
    if "Results s pid = Some e" for pid e
    using that by (auto simp: session_inv_def entry_ok_def result_delta_def mmr_deltas split: if_splits)
  with inv finalized_iff [OF inv] show ?thesis by (auto simp: session_inv_def)
qed

definition duel :: SessionStore where
  "duel = CreateSession 7 ''s1'' [''ann'', ''bob''] NewSessionStore"

lemma duel_reachable: "reachable (\<lambda>ss. ss = NewSessionStore) store_step duel"
proof -
  have "reachable (\<lambda>ss. ss = NewSessionStore) store_step NewSessionStore"
    by (rule reachable.start) simp
  then show ?thesis unfolding duel_def by (rule reachable.move) (rule store_step.created)
qed

lemma duel_inv: "store_inv duel"
  by (rule store_machine.reachable_inv [OF duel_reachable])

lemma duel_session: "sessions duel ''s1'' = Some \<lparr>SessionID = ''s1'', PlayerIDs = [''ann'', ''bob''],
    Results = Map.empty, StartedAt = 7, EndedAt = zero_time, Finalized = False\<rparr>"
  by (simp add: duel_def CreateSession_def)

theorem reachable_session_witness:
  "\<exists>s. GetSession ''s1'' duel = Some s \<and> SessionID s = ''s1'' \<and> EndedAt s = zero_time"
  using reachable_session [OF duel_reachable, of "''s1''"] duel_session by (simp add: GetSession_def)

text \<open>C27: \<open>RecordResult\<close> on every branch: the checks come in the order session, membership, duplicate,
  result value; a rejected call changes nothing; an accepted one adds exactly the entry, returns its
  delta, and finalizes the session exactly when it was the last one missing.\<close>

theorem RecordResult_correct:
  assumes "store_inv ss"
  shows "(case RecordResult now sid pid result score ss of
      (ss', Inl e) \<Rightarrow> ss' = ss \<and>
        (case sessions ss sid of
           None \<Rightarrow> e = ErrSessionNotFound sid
         | Some s \<Rightarrow> if pid \<notin> set (PlayerIDs s) then e = ErrPlayerNotInSession pid sid
                     else if pid \<in> dom (Results s) then e = ErrDuplicateSubmission pid sid
                     else e = InvalidResult result \<and> result \<notin> {1, 2, 3})
    | (ss', Inr delta) \<Rightarrow> \<exists>s s'. sessions ss sid = Some s \<and> sessions ss' = (sessions ss)(sid \<mapsto> s')
        \<and> pid \<in> set (PlayerIDs s) - dom (Results s) \<and> (result, delta) \<in> {(1, 25), (2, - 25), (3, 0)}
        \<and> Results s' = (Results s)(pid \<mapsto> \<lparr>re_PlayerID = pid, re_Result = result, re_Score = score, MMRDelta = delta\<rparr>)
        \<and> PlayerIDs s' = PlayerIDs s \<and> StartedAt s' = StartedAt s
        \<and> (Finalized s' \<longleftrightarrow> Suc (card (dom (Results s))) = length (PlayerIDs s))
        \<and> EndedAt s' = (if Finalized s' then now else zero_time))"
proof (cases rule: RecordResult_cases [of ss sid now pid result score])
  case (Invalid s)
  then show ?thesis by (auto simp: result_delta_def split: if_splits)
next
  case (Recorded s s2 delta)
  have si: "session_inv sid s" using assms Recorded(1) by (simp add: store_inv_def)
  have d: "(result, delta) \<in> {(1, 25), (2, - 25), (3, 0)}"
    using Recorded(4) by (auto simp: result_delta_def mmr_deltas split: if_splits)
  have c: "card (insert pid (dom (Results s))) = Suc (card (dom (Results s)))"
    using session_finite [OF si] Recorded(3) by (rule card_insert_disjoint)
  show ?thesis
    using open_session [OF si Recorded(2,3)] Recorded(1-3) d
    by (simp only: Recorded(6) prod.case sum.case)
      (intro exI [of _ s] exI [of _ s2], simp add: Recorded(5) Let_def c domIff)
qed simp_all

theorem RecordResult_correct_witness:
  "snd (RecordResult 9 ''s1'' ''ann'' 1 30 duel) = Inr 25
   \<and> fst (RecordResult 9 ''s1'' ''eve'' 1 30 duel) = duel"
  using RecordResult_correct [OF duel_inv, where now = 9 and sid = "''s1''" and pid = "''ann''" and result = 1 and score = 30]
    RecordResult_correct [OF duel_inv, where now = 9 and sid = "''s1''" and pid = "''eve''" and result = 1 and score = 30] duel_session
  by (auto split: prod.splits sum.splits)

text \<open>C35: a match can always be completed: when its distinct players submit in any order, each once with
  WIN, LOSS or DRAW, every call is accepted and the session is finalized after the last call and
  not while a player is missing.\<close>

theorem submit_all_finalizes:
  assumes "store_inv ss" "sessions ss sid = Some s" "Results s = Map.empty"
    and "distinct (PlayerIDs s)" "PlayerIDs s \<noteq> []"
    and "distinct (map fst subs)" "set (map fst subs) \<subseteq> set (PlayerIDs s)"
    and "\<forall>(pid, result, score) \<in> set subs. result \<in> {1, 2, 3}"
    and "submit_all now sid subs ss = (ss', rs)"
  shows "(\<forall>r \<in> set rs. \<exists>d. r = Inr d)
    \<and> (\<exists>s'. GetSession sid ss' = Some s' \<and> dom (Results s') = set (map fst subs)
           \<and> (Finalized s' \<longleftrightarrow> set (map fst subs) = set (PlayerIDs s)))"
proof -
  have "set (map fst subs) \<subseteq> set (PlayerIDs s) - dom (Results s)" using assms(3,7) by simp
  note all = submit_all_accepts [OF assms(1,2,6) this assms(8,9)]
  then obtain s' where s': "sessions ss' sid = Some s'" "PlayerIDs s' = PlayerIDs s"
    "dom (Results s') = set (map fst subs)" using assms(3) by auto
  then have "session_inv sid s'" using all by (simp add: store_inv_def)
  from finalized_iff [OF this] s' assms(4,5) all show ?thesis by (auto simp: GetSession_def)
qed

theorem submit_all_finalizes_witness:
  "\<exists>s'. GetSession ''s1'' (fst (submit_all 9 ''s1'' [(''bob'', 2, 0), (''ann'', 1, 30)] duel)) = Some s' \<and> Finalized s'"
proof -
  obtain ss' rs where run: "submit_all 9 ''s1'' [(''bob'', 2, 0), (''ann'', 1, 30)] duel = (ss', rs)" by fastforce
  from submit_all_finalizes [OF duel_inv duel_session _ _ _ _ _ _ run] run show ?thesis by auto
qed

text \<open>What is recorded stays: no later submission of anyone changes or removes an entry, nor anything
  of a finalized session, and a second submission of the same player is refused.\<close>

theorem recorded_results_stay:
  assumes "store_inv ss" "sessions ss sid = Some s" "Results s pid = Some e"
  shows "\<exists>s'. sessions (fst (RecordResult now i q result score ss)) sid = Some s'
      \<and> Results s' pid = Some e \<and> (Finalized s \<longrightarrow> s' = s)
      \<and> (pid \<in> set (PlayerIDs s') \<and>
         RecordResult now2 sid pid result2 score2 (fst (RecordResult now i q result score ss))
         = (fst (RecordResult now i q result score ss), Inl (ErrDuplicateSubmission pid sid)))"
proof -
  obtain s' where s': "sessions (fst (RecordResult now i q result score ss)) sid = Some s'"
    "Results s \<subseteq>\<^sub>m Results s'" "PlayerIDs s' = PlayerIDs s" "Finalized s \<Longrightarrow> s' = s"
    using RecordResult_keeps [OF assms(1,2)] by metis
  have "Results s' pid = Some e" using s'(2) assms(3) by (force simp: map_le_def)
  moreover have "pid \<in> set (PlayerIDs s)"
    using assms unfolding store_inv_def session_inv_def by blast
  ultimately show ?thesis using s' by (intro exI [of _ s']) (simp add: RecordResult_def)
qed

theorem recorded_results_stay_witness:
  "\<exists>s'. sessions (fst (RecordResult 11 ''s1'' ''bob'' 3 1 (fst (RecordResult 9 ''s1'' ''ann'' 1 30 duel)))) ''s1'' = Some s'
     \<and> Results s' ''ann'' = Some \<lparr>re_PlayerID = ''ann'', re_Result = 1, re_Score = 30, MMRDelta = 25\<rparr>"
proof -
  let ?ss = "fst (RecordResult 9 ''s1'' ''ann'' 1 30 duel)"
  obtain s where "sessions ?ss ''s1'' = Some s"
    "Results s ''ann'' = Some \<lparr>re_PlayerID = ''ann'', re_Result = 1, re_Score = 30, MMRDelta = 25\<rparr>"
    using duel_session by (simp add: RecordResult_def result_delta_def mmr_deltas Let_def)
  from recorded_results_stay [OF RecordResult_inv [OF duel_inv] this, of 11 "''s1''" "''bob''" 3 1] show ?thesis
    by blast
qed

end
