(* ===== verification/Nexus_Pb.thy ===== *)
theory Nexus_Pb
  imports Nexus_Prelude
begin

text \<open>
  The messages of \<open>proto/nexus.proto\<close> as the generated \<open>pkg/pb/nexus.pb.go\<close> declares them: one record
  per message with its declared fields, the oneof as a datatype, the enums as the int32 values Go
  makes them (proto3 enums are open: any int32 can arrive), and the generated getters, which a nil
  receiver answers with the zero value. A pointer to a message is an \<open>option\<close>. The bookkeeping fields
  of the protobuf runtime (\<open>state\<close>, \<open>unknownFields\<close>, \<open>sizeCache\<close>), reflection and the wire format
  belong to that library and are not modelled.
\<close>

section \<open>Enums\<close>

type_synonym QueueStatus = i32
type_synonym MatchResult = i32

definition QUEUE_STATUS_UNSPECIFIED :: QueueStatus where "QUEUE_STATUS_UNSPECIFIED = 0"
definition QUEUE_STATUS_WAITING :: QueueStatus where "QUEUE_STATUS_WAITING = 1"
definition QUEUE_STATUS_MATCHED :: QueueStatus where "QUEUE_STATUS_MATCHED = 2"
definition QUEUE_STATUS_IN_GAME :: QueueStatus where "QUEUE_STATUS_IN_GAME = 3"
definition QUEUE_STATUS_COMPLETED :: QueueStatus where "QUEUE_STATUS_COMPLETED = 4"
definition QUEUE_STATUS_CANCELLED :: QueueStatus where "QUEUE_STATUS_CANCELLED = 5"
definition QUEUE_STATUS_ERROR :: QueueStatus where "QUEUE_STATUS_ERROR = 6"
definition QUEUE_STATUS_READY_CHECK :: QueueStatus where "QUEUE_STATUS_READY_CHECK = 7"

lemmas queue_status_defs =
  QUEUE_STATUS_UNSPECIFIED_def QUEUE_STATUS_WAITING_def QUEUE_STATUS_MATCHED_def
  QUEUE_STATUS_IN_GAME_def QUEUE_STATUS_COMPLETED_def QUEUE_STATUS_CANCELLED_def
  QUEUE_STATUS_ERROR_def QUEUE_STATUS_READY_CHECK_def

definition QueueStatus_name :: "i32 \<rightharpoonup> string" where
  "QueueStatus_name = map_of
     [(0, ''QUEUE_STATUS_UNSPECIFIED''), (1, ''QUEUE_STATUS_WAITING''), (2, ''QUEUE_STATUS_MATCHED''),
      (3, ''QUEUE_STATUS_IN_GAME''), (4, ''QUEUE_STATUS_COMPLETED''), (5, ''QUEUE_STATUS_CANCELLED''),
      (6, ''QUEUE_STATUS_ERROR''), (7, ''QUEUE_STATUS_READY_CHECK'')]"

definition QueueStatus_value :: "string \<rightharpoonup> i32" where
  "QueueStatus_value = map_of
     [(''QUEUE_STATUS_UNSPECIFIED'', 0), (''QUEUE_STATUS_WAITING'', 1), (''QUEUE_STATUS_MATCHED'', 2),
      (''QUEUE_STATUS_IN_GAME'', 3), (''QUEUE_STATUS_COMPLETED'', 4), (''QUEUE_STATUS_CANCELLED'', 5),
      (''QUEUE_STATUS_ERROR'', 6), (''QUEUE_STATUS_READY_CHECK'', 7)]"

definition MATCH_RESULT_UNSPECIFIED :: MatchResult where "MATCH_RESULT_UNSPECIFIED = 0"
definition MATCH_RESULT_WIN :: MatchResult where "MATCH_RESULT_WIN = 1"
definition MATCH_RESULT_LOSS :: MatchResult where "MATCH_RESULT_LOSS = 2"
definition MATCH_RESULT_DRAW :: MatchResult where "MATCH_RESULT_DRAW = 3"

lemmas match_result_defs =
  MATCH_RESULT_UNSPECIFIED_def MATCH_RESULT_WIN_def MATCH_RESULT_LOSS_def MATCH_RESULT_DRAW_def

definition MatchResult_name :: "i32 \<rightharpoonup> string" where
  "MatchResult_name = map_of
     [(0, ''MATCH_RESULT_UNSPECIFIED''), (1, ''MATCH_RESULT_WIN''), (2, ''MATCH_RESULT_LOSS''),
      (3, ''MATCH_RESULT_DRAW'')]"

definition MatchResult_value :: "string \<rightharpoonup> i32" where
  "MatchResult_value = map_of
     [(''MATCH_RESULT_UNSPECIFIED'', 0), (''MATCH_RESULT_WIN'', 1), (''MATCH_RESULT_LOSS'', 2),
      (''MATCH_RESULT_DRAW'', 3)]"

section \<open>Messages\<close>

record PlayerInfo =
  pi_PlayerId :: string
  pi_DisplayName :: string
  pi_Mmr :: i32

record JoinQueueAction =
  jq_Player :: "PlayerInfo option"

record HeartbeatAction =
  hb_ClientTimestampMs :: i64

record CancelQueueAction =
  cq_PlayerId :: string
  cq_Reason :: string

record AcceptMatchAction =
  am_PlayerId :: string

datatype isGatewayRequest_Action =
    GatewayRequest_JoinQueue "JoinQueueAction option"
  | GatewayRequest_Heartbeat "HeartbeatAction option"
  | GatewayRequest_CancelQueue "CancelQueueAction option"
  | GatewayRequest_AcceptMatch "AcceptMatchAction option"

record GatewayRequest =
  Action :: "isGatewayRequest_Action option"

record MatchAssignment =
  ma_SessionId :: string
  ma_PlayerIds :: "string list"
  ma_CreatedAtMs :: i64

record GatewayResponse =
  gr_Status :: QueueStatus
  gr_Message :: string
  gr_QueuePosition :: i32
  gr_ServerTimestampMs :: i64
  gr_Match :: "MatchAssignment option"

record QueueStatsResponse =
  qs_TotalWaiting :: i32
  qs_TotalMatched :: i32
  qs_ActiveSessions :: i32

record ForceMatchResponse =
  fm_MatchesCreated :: i32

record SubmitResultRequest =
  sr_SessionId :: string
  sr_PlayerId :: string
  sr_Result :: MatchResult
  sr_Score :: i32
  sr_DurationS :: i32

record SubmitResultResponse =
  sp_Accepted :: bool
  sp_Message :: string
  sp_NewMmr :: i32

record GetSessionRequest =
  gs_SessionId :: string

record PlayerResult =
  pr_PlayerId :: string
  pr_Result :: MatchResult
  pr_Score :: i32
  pr_MmrDelta :: i32

record SessionSummary =
  ss_SessionId :: string
  ss_Results :: "PlayerResult list"
  ss_StartedAtMs :: i64
  ss_EndedAtMs :: i64
  ss_Finalized :: bool

section \<open>Getters\<close>

definition GetPlayerId :: "PlayerInfo option \<Rightarrow> string" where
  "GetPlayerId x = (case x of Some m \<Rightarrow> pi_PlayerId m | None \<Rightarrow> [])"

definition GetDisplayName :: "PlayerInfo option \<Rightarrow> string" where
  "GetDisplayName x = (case x of Some m \<Rightarrow> pi_DisplayName m | None \<Rightarrow> [])"

definition GetMmr :: "PlayerInfo option \<Rightarrow> i32" where
  "GetMmr x = (case x of Some m \<Rightarrow> pi_Mmr m | None \<Rightarrow> 0)"

definition GetAction :: "GatewayRequest option \<Rightarrow> isGatewayRequest_Action option" where
  "GetAction x = (case x of Some m \<Rightarrow> Action m | None \<Rightarrow> None)"

text \<open>The four oneof getters: a type assertion on \<open>Action\<close>, nil where it fails.\<close>

definition GetJoinQueue :: "GatewayRequest option \<Rightarrow> JoinQueueAction option" where
  "GetJoinQueue x = (case x of None \<Rightarrow> None
     | Some m \<Rightarrow> (case Action m of Some (GatewayRequest_JoinQueue a) \<Rightarrow> a | _ \<Rightarrow> None))"

definition GetHeartbeat :: "GatewayRequest option \<Rightarrow> HeartbeatAction option" where
  "GetHeartbeat x = (case x of None \<Rightarrow> None
     | Some m \<Rightarrow> (case Action m of Some (GatewayRequest_Heartbeat a) \<Rightarrow> a | _ \<Rightarrow> None))"

definition GetCancelQueue :: "GatewayRequest option \<Rightarrow> CancelQueueAction option" where
  "GetCancelQueue x = (case x of None \<Rightarrow> None
     | Some m \<Rightarrow> (case Action m of Some (GatewayRequest_CancelQueue a) \<Rightarrow> a | _ \<Rightarrow> None))"

definition GetAcceptMatch :: "GatewayRequest option \<Rightarrow> AcceptMatchAction option" where
  "GetAcceptMatch x = (case x of None \<Rightarrow> None
     | Some m \<Rightarrow> (case Action m of Some (GatewayRequest_AcceptMatch a) \<Rightarrow> a | _ \<Rightarrow> None))"

definition GetPlayer :: "JoinQueueAction option \<Rightarrow> PlayerInfo option" where
  "GetPlayer x = (case x of Some m \<Rightarrow> jq_Player m | None \<Rightarrow> None)"

definition GetClientTimestampMs :: "HeartbeatAction option \<Rightarrow> i64" where
  "GetClientTimestampMs x = (case x of Some m \<Rightarrow> hb_ClientTimestampMs m | None \<Rightarrow> 0)"

definition GetReason :: "CancelQueueAction option \<Rightarrow> string" where
  "GetReason x = (case x of Some m \<Rightarrow> cq_Reason m | None \<Rightarrow> [])"

definition GetStatus :: "GatewayResponse option \<Rightarrow> QueueStatus" where
  "GetStatus x = (case x of Some m \<Rightarrow> gr_Status m | None \<Rightarrow> QUEUE_STATUS_UNSPECIFIED)"

definition GetQueuePosition :: "GatewayResponse option \<Rightarrow> i32" where
  "GetQueuePosition x = (case x of Some m \<Rightarrow> gr_QueuePosition m | None \<Rightarrow> 0)"

definition GetMatch :: "GatewayResponse option \<Rightarrow> MatchAssignment option" where
  "GetMatch x = (case x of Some m \<Rightarrow> gr_Match m | None \<Rightarrow> None)"

definition GetPlayerIds :: "MatchAssignment option \<Rightarrow> string list" where
  "GetPlayerIds x = (case x of Some m \<Rightarrow> ma_PlayerIds m | None \<Rightarrow> [])"

definition GetResult :: "SubmitResultRequest option \<Rightarrow> MatchResult" where
  "GetResult x = (case x of Some m \<Rightarrow> sr_Result m | None \<Rightarrow> MATCH_RESULT_UNSPECIFIED)"

definition GetResults :: "SessionSummary option \<Rightarrow> PlayerResult list" where
  "GetResults x = (case x of Some m \<Rightarrow> ss_Results m | None \<Rightarrow> [])"

definition GetFinalized :: "SessionSummary option \<Rightarrow> bool" where
  "GetFinalized x = (case x of Some m \<Rightarrow> ss_Finalized m | None \<Rightarrow> False)"

lemmas oneof_getters = GetJoinQueue_def GetHeartbeat_def GetCancelQueue_def GetAcceptMatch_def GetAction_def

section \<open>Facts about the generated code\<close>

text \<open>The oneof is exclusive: of the four action getters at most one is not nil, so the order in
  which the gateway's reader tries them does not matter.\<close>

lemma oneof_exclusive:
  "length (filter id [GetJoinQueue r \<noteq> None, GetHeartbeat r \<noteq> None, GetCancelQueue r \<noteq> None,
                      GetAcceptMatch r \<noteq> None]) \<le> 1"
  by (cases r; cases "GetAction r")
    (auto simp: oneof_getters split: option.splits isGatewayRequest_Action.splits)

text \<open>The generated name and value tables of both enums are inverse to each other.\<close>

lemma enum_tables_roundtrip:
  "(QueueStatus_name n = Some s \<longleftrightarrow> QueueStatus_value s = Some n)
   \<and> (MatchResult_name n = Some s \<longleftrightarrow> MatchResult_value s = Some n)"
proof
  show "QueueStatus_name n = Some s \<longleftrightarrow> QueueStatus_value s = Some n"
    unfolding QueueStatus_name_def QueueStatus_value_def
    by (subst (1 2) map_of_eq_Some_iff) auto
  show "MatchResult_name n = Some s \<longleftrightarrow> MatchResult_value s = Some n"
    unfolding MatchResult_name_def MatchResult_value_def
    by (subst (1 2) map_of_eq_Some_iff) auto
qed

end
