(* ===== verification/Nexus_Tracker.thy ===== *)
theory Nexus_Tracker
  imports Nexus_Session Nexus_Pb
begin

text \<open>
  \<open>internal/services/tracker.go\<close>: the two unary RPCs on the session store. The handler of
  \<open>SubmitResult\<close> takes the store's operation as an argument, as the server holds the store as a
  field; \<open>result_registry\<close> states what it relies on, and the session store provides it. The state of
  the request's context is an argument; the texts of error messages are not modelled.
\<close>

section \<open>Handlers\<close>

text \<open>The \<open>switch\<close> that maps domain errors to gRPC codes.\<close>

fun error_code :: "session_error \<Rightarrow> code" where
  "error_code (ErrSessionNotFound _) = NotFound"
| "error_code (ErrPlayerNotInSession _ _) = PermissionDenied"
| "error_code (ErrDuplicateSubmission _ _) = AlreadyExists"
| "error_code (InvalidResult _) = Internal"

type_synonym 's record_op =
  "gtime \<Rightarrow> string \<Rightarrow> string \<Rightarrow> i32 \<Rightarrow> i32 \<Rightarrow> 's \<Rightarrow> 's \<times> (session_error + i32)"

definition SubmitResult ::
  "'s record_op \<Rightarrow> bool \<Rightarrow> gtime \<Rightarrow> SubmitResultRequest \<Rightarrow> 's \<Rightarrow> 's \<times> SubmitResultResponse reply" where
  "SubmitResult recordResult ctx_done now req ss =
     (if sr_SessionId req = [] then (ss, reply_error InvalidArgument)
      else if sr_PlayerId req = [] then (ss, reply_error InvalidArgument)
      else if sr_Result req = MATCH_RESULT_UNSPECIFIED then (ss, reply_error InvalidArgument)
      else if sint (sr_DurationS req) < 0 then (ss, reply_error InvalidArgument)
      else if ctx_done then (ss, reply_error DeadlineExceeded)
      else (case recordResult now (sr_SessionId req) (sr_PlayerId req) (sr_Result req) (sr_Score req) ss of
          (ss', Inl err) \<Rightarrow> (ss', reply_error (error_code err))
        | (ss', Inr delta) \<Rightarrow>
            (ss', reply_ok \<lparr>sp_Accepted = True, sp_Message = ''Result recorded successfully.'', sp_NewMmr = delta\<rparr>)))"

definition player_result :: "ResultEntry \<Rightarrow> PlayerResult" where
  "player_result r = \<lparr>pr_PlayerId = re_PlayerID r, pr_Result = re_Result r, pr_Score = re_Score r,
                     pr_MmrDelta = MMRDelta r\<rparr>"

text \<open>\<open>ks\<close> is the order in which the loop visits the result map.\<close>

definition TrackerGetSession :: "string list \<Rightarrow> GetSessionRequest \<Rightarrow> SessionStore \<Rightarrow> SessionSummary reply" where
  "TrackerGetSession ks req ss =
     (if gs_SessionId req = [] then reply_error InvalidArgument
      else (case GetSession (gs_SessionId req) ss of
          None \<Rightarrow> reply_error NotFound
        | Some session \<Rightarrow>
            reply_ok \<lparr>ss_SessionId = SessionID session,
              ss_Results = map (\<lambda>k. player_result (the (Results session k))) (range_keys ks (Results session)),
              ss_StartedAtMs = UnixMilli (StartedAt session),
              ss_EndedAtMs = UnixMilli (EndedAt session),
              ss_Finalized = Finalized session\<rparr>))"

section \<open>What the tracker relies on\<close>

text \<open>
  The registry's contract: an invariant, a rejected recording changes nothing, only the three results
  are recorded, and their deltas.
\<close>

locale result_registry =
  fixes recordResult :: "'s record_op" and ok :: "'s \<Rightarrow> bool"
  assumes record_ok: "ok ss \<Longrightarrow> ok (fst (recordResult now sid pid result score ss))"
    and record_rejects: "recordResult now sid pid result score ss = (ss', Inl e) \<Longrightarrow> ss' = ss"
    and record_result: "recordResult now sid pid result score ss = (ss', Inr d) \<Longrightarrow>
          (result, d) \<in> {(1, 25), (2, - 25), (3, 0)}"
begin

lemma submit_ok: "ok ss \<Longrightarrow> ok (fst (SubmitResult recordResult ctx_done now req ss))"
  using record_ok [of ss now "sr_SessionId req" "sr_PlayerId req" "sr_Result req" "sr_Score req"]
  by (auto simp: SubmitResult_def split: prod.splits sum.splits)

lemma submit_error_unchanged:
  assumes "SubmitResult recordResult ctx_done now req ss = (ss', r)" "snd r \<noteq> None"
  shows "ss' = ss \<and> fst r = None"
  using assms record_rejects
  by (auto simp: SubmitResult_def reply_error_def reply_ok_def split: if_splits prod.splits sum.splits)

lemma submit_accepted:
  assumes "SubmitResult recordResult ctx_done now req ss = (ss', (resp, None))"
  obtains d where "resp = Some \<lparr>sp_Accepted = True, sp_Message = ''Result recorded successfully.'', sp_NewMmr = d\<rparr>"
    and "recordResult now (sr_SessionId req) (sr_PlayerId req) (sr_Result req) (sr_Score req) ss = (ss', Inr d)"
    and "(sr_Result req, d) \<in> {(1, 25), (2, - 25), (3, 0)}" "\<not> ctx_done"
    and "sr_SessionId req \<noteq> []" "sr_PlayerId req \<noteq> []" "0 \<le> sint (sr_DurationS req)"
proof -
  obtain d where rec: "recordResult now (sr_SessionId req) (sr_PlayerId req) (sr_Result req) (sr_Score req) ss = (ss', Inr d)"
    and resp: "resp = Some \<lparr>sp_Accepted = True, sp_Message = ''Result recorded successfully.'', sp_NewMmr = d\<rparr>"
    and "\<not> ctx_done" "sr_SessionId req \<noteq> []" "sr_PlayerId req \<noteq> []" "0 \<le> sint (sr_DurationS req)"
    using assms by (auto simp: SubmitResult_def reply_error_def reply_ok_def split: if_splits prod.splits sum.splits)
  with record_result [OF rec] show thesis by (intro that)
qed

end

interpretation session_registry: result_registry RecordResult store_inv
proof unfold_locales
  fix ss ss' :: SessionStore and now sid pid result score d e
  show "store_inv ss \<Longrightarrow> store_inv (fst (RecordResult now sid pid result score ss))"
    by (rule RecordResult_inv)
  show "ss' = ss" if "RecordResult now sid pid result score ss = (ss', Inl e)"
    using that by (cases rule: RecordResult_cases [of ss sid now pid result score]) auto
  show "(result, d) \<in> {(1, 25), (2, - 25), (3, 0)}"
    if "RecordResult now sid pid result score ss = (ss', Inr d)"
    using that by (cases rule: RecordResult_cases [of ss sid now pid result score])
      (auto simp: result_delta_def mmr_deltas split: if_splits)
qed

section \<open>Properties\<close>

text \<open>C36: \<open>SubmitResult\<close> on the session store: an error reply carries no response and leaves every session
  as it was; a reply without error says accepted, has recorded exactly the submitted entry, and its
  \<open>new_mmr\<close> is the delta of the result (25, -25 or 0), not a rating.\<close>

theorem SubmitResult_correct:
  assumes "SubmitResult RecordResult ctx_done now req ss = (ss', (resp, err))"
  shows "(case err of
      Some c \<Rightarrow> ss' = ss \<and> resp = None
    | None \<Rightarrow> \<exists>d s'. resp = Some \<lparr>sp_Accepted = True, sp_Message = ''Result recorded successfully.'', sp_NewMmr = d\<rparr>
        \<and> (sr_Result req, d) \<in> {(1, 25), (2, - 25), (3, 0)}
        \<and> GetSession (sr_SessionId req) ss' = Some s'
        \<and> Results s' (sr_PlayerId req) = Some \<lparr>re_PlayerID = sr_PlayerId req, re_Result = sr_Result req,
             re_Score = sr_Score req, MMRDelta = d\<rparr>)"
proof (cases err)
  case (Some c)
  then show ?thesis using session_registry.submit_error_unchanged [OF assms] by simp
next
  case None
  with assms obtain d where d: "resp = Some \<lparr>sp_Accepted = True, sp_Message = ''Result recorded successfully.'', sp_NewMmr = d\<rparr>"
    "RecordResult now (sr_SessionId req) (sr_PlayerId req) (sr_Result req) (sr_Score req) ss = (ss', Inr d)"
    "(sr_Result req, d) \<in> {(1, 25), (2, - 25), (3, 0)}"
    using session_registry.submit_accepted by metis
  have "\<exists>s'. sessions ss' (sr_SessionId req) = Some s' \<and> Results s' (sr_PlayerId req) =
      Some \<lparr>re_PlayerID = sr_PlayerId req, re_Result = sr_Result req, re_Score = sr_Score req, MMRDelta = d\<rparr>"
    using d(2)
    by (cases rule: RecordResult_cases [of ss "sr_SessionId req" now "sr_PlayerId req" "sr_Result req" "sr_Score req"])
      (auto simp: Let_def)
  with None d show ?thesis by (auto simp: GetSession_def)
qed

definition ann_wins :: SubmitResultRequest where
  "ann_wins = \<lparr>sr_SessionId = ''s1'', sr_PlayerId = ''ann'', sr_Result = 1, sr_Score = 30, sr_DurationS = 60\<rparr>"

theorem SubmitResult_correct_witness:
  "\<exists>ss' resp. SubmitResult RecordResult False 9 ann_wins duel = (ss', (Some resp, None)) \<and> sp_NewMmr resp = 25"
proof -
  obtain ss' resp err where run: "SubmitResult RecordResult False 9 ann_wins duel = (ss', (resp, err))"
    by (metis prod.exhaust)
  have "err = None"
    using run duel_session
    by (simp add: SubmitResult_def ann_wins_def RecordResult_def result_delta_def match_result_defs Let_def reply_ok_def)
  with SubmitResult_correct [OF run] run show ?thesis by (auto simp: ann_wins_def)
qed

text \<open>The codes of \<open>SubmitResult\<close>, in the order of its checks: malformed requests get
  \<open>InvalidArgument\<close>, an expired context \<open>DeadlineExceeded\<close>, then unknown session, foreign player and
  second submission. A result value outside the enum is not malformed by these checks: with a known
  session and player it ends in \<open>Internal\<close>.\<close>

theorem SubmitResult_codes:
  "status_Code (snd (snd (SubmitResult RecordResult ctx_done now req ss))) =
     (if sr_SessionId req = [] \<or> sr_PlayerId req = [] \<or> sr_Result req = 0 \<or> sint (sr_DurationS req) < 0
      then InvalidArgument
      else if ctx_done then DeadlineExceeded
      else case GetSession (sr_SessionId req) ss of
          None \<Rightarrow> NotFound
        | Some s \<Rightarrow> if sr_PlayerId req \<notin> set (PlayerIDs s) then PermissionDenied
                    else if sr_PlayerId req \<in> dom (Results s) then AlreadyExists
                    else if sr_Result req \<notin> {1, 2, 3} then Internal else OK)"
  by (cases rule: RecordResult_cases [of ss "sr_SessionId req" now "sr_PlayerId req" "sr_Result req" "sr_Score req"])
    (auto simp: SubmitResult_def reply_error_def reply_ok_def status_Code_def MATCH_RESULT_UNSPECIFIED_def
      GetSession_def result_delta_def split: if_splits)

text \<open>\<open>GetSession\<close> returns the stored session: its results are the entries of the map, each once, in
  some order; and while the session is not finalized its \<open>ended_at_ms\<close> is the Unix time of Go's zero
  instant, \<open>-62135596800000\<close>, and not 0.\<close>

theorem TrackerGetSession_correct:
  assumes "store_inv ss" "GetSession (gs_SessionId req) ss = Some s" "gs_SessionId req \<noteq> []"
    and "covers ks (Results s)"
  shows "\<exists>m. TrackerGetSession ks req ss = (Some m, None) \<and> ss_SessionId m = gs_SessionId req
    \<and> ss_Finalized m = Finalized s
    \<and> distinct (map pr_PlayerId (ss_Results m))
    \<and> set (ss_Results m) = player_result ` ran (Results s)
    \<and> (\<not> Finalized s \<longrightarrow> ss_EndedAtMs m = - 62135596800000)"
proof -
  have inv: "session_inv (gs_SessionId req) s" using assms(1,2) by (simp add: store_inv_def GetSession_def)
  let ?ks = "range_keys ks (Results s)"
  have dom: "set ?ks = dom (Results s)" and dist: "distinct ?ks"
    using set_range_keys [OF assms(4)] distinct_range_keys [OF assms(4)] by auto
  have "pr_PlayerId (player_result (the (Results s k))) = k" if "k \<in> set ?ks" for k
    using that inv dom by (auto simp: session_inv_def entry_ok_def player_result_def)
  then have "map (\<lambda>k. pr_PlayerId (player_result (the (Results s k)))) ?ks = ?ks" by (simp add: map_idI)
  moreover have "(\<lambda>k. player_result (the (Results s k))) ` dom (Results s) = player_result ` ran (Results s)"
    by (force simp: ran_def image_iff)
  ultimately show ?thesis
    using inv dom dist assms(2,3)
    by (auto simp: TrackerGetSession_def reply_ok_def session_inv_def comp_def UnixMilli_def zero_time_def)
qed

theorem TrackerGetSession_correct_witness:
  "\<exists>m. TrackerGetSession [''ann'', ''bob''] \<lparr>gs_SessionId = ''s1''\<rparr> duel = (Some m, None)
     \<and> ss_EndedAtMs m = - 62135596800000"
proof -
  let ?s = "\<lparr>SessionID = ''s1'', PlayerIDs = [''ann'', ''bob''],
    Results = Map.empty, StartedAt = 7, EndedAt = zero_time, Finalized = False\<rparr>"
  have "GetSession (gs_SessionId \<lparr>gs_SessionId = ''s1''\<rparr>) duel = Some ?s"
    using duel_session by (simp add: GetSession_def)
  from TrackerGetSession_correct [OF duel_inv this, of "[''ann'', ''bob'']"] show ?thesis
    by (auto simp: covers_def)
qed

end
