(* ===== verification/Go_Channels.thy ===== *)
theory Go_Channels
  imports Nexus_Prelude
begin

text \<open>
  Go channels with a buffer: the heap of channels of one element type, and the operations the
  program uses on them (\<open>make\<close>, a plain send, a send under \<open>select\<close> with a \<open>default\<close>, receive,
  \<open>close\<close>). A channel is named by a number, which stands for its address: two values that carry
  the same number share the channel. A send on, or a close of, a closed channel panics.
\<close>

type_synonym chan_id = nat

record 'a chan =
  ch_cap :: nat
  ch_buf :: "'a list"
  ch_closed :: bool

record 'a chans =
  cells :: "chan_id \<rightharpoonup> 'a chan"
  next_id :: chan_id

definition no_chans :: "'a chans" where
  "no_chans = \<lparr>cells = Map.empty, next_id = 0\<rparr>"

text \<open>\<open>make(chan T, n)\<close>.\<close>

definition make_chan :: "nat \<Rightarrow> 'a chans \<Rightarrow> 'a chans \<times> chan_id" where
  "make_chan n H =
     (H\<lparr>cells := (cells H)(next_id H \<mapsto> \<lparr>ch_cap = n, ch_buf = [], ch_closed = False\<rparr>),
        next_id := Suc (next_id H)\<rparr>, next_id H)"

text \<open>\<open>close(ch)\<close>: a nil or closed channel panics.\<close>

definition chan_close :: "chan_id \<Rightarrow> 'a chans \<Rightarrow> 'a chans outcome" where
  "chan_close c H = (case cells H c of
       None \<Rightarrow> Panic
     | Some ch \<Rightarrow> if ch_closed ch then Panic
                  else Ret (H\<lparr>cells := (cells H)(c \<mapsto> ch\<lparr>ch_closed := True\<rparr>)\<rparr>))"

text \<open>
  \<open>select { case ch <- v: default: }\<close>: the flag says whether the value went in. A nil channel is
  never ready.
\<close>

definition chan_try_send :: "chan_id \<Rightarrow> 'a \<Rightarrow> 'a chans \<Rightarrow> (bool \<times> 'a chans) outcome" where
  "chan_try_send c v H = (case cells H c of
       None \<Rightarrow> Ret (False, H)
     | Some ch \<Rightarrow> if ch_closed ch then Panic
                  else if length (ch_buf ch) < ch_cap ch
                  then Ret (True, H\<lparr>cells := (cells H)(c \<mapsto> ch\<lparr>ch_buf := ch_buf ch @ [v]\<rparr>)\<rparr>)
                  else Ret (False, H))"

text \<open>\<open>ch <- v\<close>: \<open>None\<close> while the goroutine has to wait.\<close>

definition chan_send :: "chan_id \<Rightarrow> 'a \<Rightarrow> 'a chans \<Rightarrow> 'a chans outcome option" where
  "chan_send c v H = (case chan_try_send c v H of
       Panic \<Rightarrow> Some Panic
     | Ret (sent, H') \<Rightarrow> if sent then Some (Ret H') else None)"

text \<open>
  \<open>v, ok := <-ch\<close>: a value, or the end of a closed and drained channel (\<open>ok\<close> false), or a wait.
\<close>

datatype 'a received = Value 'a | Closed | Blocked

definition chan_recv :: "chan_id \<Rightarrow> 'a chans \<Rightarrow> 'a received \<times> 'a chans" where
  "chan_recv c H = (case cells H c of
       None \<Rightarrow> (Blocked, H)
     | Some ch \<Rightarrow> (case ch_buf ch of
           v # vs \<Rightarrow> (Value v, H\<lparr>cells := (cells H)(c \<mapsto> ch\<lparr>ch_buf := vs\<rparr>)\<rparr>)
         | [] \<Rightarrow> (if ch_closed ch then Closed else Blocked, H)))"

section \<open>Well-formed heaps\<close>

definition chans_ok :: "'a chans \<Rightarrow> bool" where
  "chans_ok H \<longleftrightarrow> (\<forall>c ch. cells H c = Some ch \<longrightarrow> c < next_id H \<and> length (ch_buf ch) \<le> ch_cap ch)"

definition chan_open :: "'a chans \<Rightarrow> chan_id \<Rightarrow> bool" where
  "chan_open H c \<longleftrightarrow> (\<exists>ch. cells H c = Some ch \<and> \<not> ch_closed ch)"

named_theorems chan_defs

lemmas chan_op_defs [chan_defs] =
  make_chan_def chan_close_def chan_try_send_def chan_send_def chan_recv_def

lemma chans_ok_empty [simp]: "chans_ok no_chans"
  by (simp add: chans_ok_def no_chans_def)

lemma make_chan_ok: "chans_ok H \<Longrightarrow> make_chan n H = (H', c) \<Longrightarrow> chans_ok H'"
  by (force simp: chans_ok_def make_chan_def split: if_splits)

lemma make_chan_fresh:
  assumes "chans_ok H" "make_chan n H = (H', c)"
  shows "cells H c = None \<and> cells H' = (cells H)(c \<mapsto> \<lparr>ch_cap = n, ch_buf = [], ch_closed = False\<rparr>)
       \<and> next_id H' = Suc c"
  using assms by (cases "cells H (next_id H)") (auto simp: chans_ok_def make_chan_def)

lemma chan_close_ok: "chans_ok H \<Longrightarrow> chan_close c H = Ret H' \<Longrightarrow> chans_ok H'"
  by (force simp: chans_ok_def chan_close_def split: option.splits if_splits)

lemma chan_try_send_ok: "chans_ok H \<Longrightarrow> chan_try_send c v H = Ret (b, H') \<Longrightarrow> chans_ok H'"
  by (force simp: chans_ok_def chan_try_send_def split: option.splits if_splits)

lemma chan_recv_ok: "chans_ok H \<Longrightarrow> chan_recv c H = (r, H') \<Longrightarrow> chans_ok H'"
  by (force simp: chans_ok_def chan_recv_def split: option.splits if_splits list.splits)

lemma chan_close_open: "chan_open H c \<Longrightarrow> \<exists>H'. chan_close c H = Ret H' \<and> \<not> chan_open H' c"
  by (auto simp: chan_open_def chan_close_def)

lemma chan_close_closed: "cells H c \<noteq> None \<Longrightarrow> \<not> chan_open H c \<Longrightarrow> chan_close c H = Panic"
  by (auto simp: chan_open_def chan_close_def)

lemma chan_close_other: "chan_close c H = Ret H' \<Longrightarrow> d \<noteq> c \<Longrightarrow> cells H' d = cells H d"
  by (auto simp: chan_close_def split: option.splits if_splits)

lemma chan_try_send_other: "chan_try_send c v H = Ret (b, H') \<Longrightarrow> d \<noteq> c \<Longrightarrow> cells H' d = cells H d"
  by (auto simp: chan_try_send_def split: option.splits if_splits)

lemma chan_recv_other: "chan_recv c H = (r, H') \<Longrightarrow> d \<noteq> c \<Longrightarrow> cells H' d = cells H d"
  by (auto simp: chan_recv_def split: option.splits list.splits)

lemma chan_try_send_next: "chan_try_send c v H = Ret (b, H') \<Longrightarrow> next_id H' = next_id H"
  by (auto simp: chan_try_send_def split: option.splits if_splits)

lemma chan_close_next: "chan_close c H = Ret H' \<Longrightarrow> next_id H' = next_id H"
  by (auto simp: chan_close_def split: option.splits if_splits)

text \<open>A channel of one slot: what goes in comes out, and a second send finds no room.\<close>

lemma chan_send_recv:
  assumes "cells H c = Some ch" "\<not> ch_closed ch" "ch_buf ch = []" "0 < ch_cap ch"
  obtains H' where "chan_send c v H = Some (Ret H')" "chan_recv c H' = (Value v, H)"
proof -
  let ?H' = "H\<lparr>cells := (cells H)(c \<mapsto> ch\<lparr>ch_buf := [v]\<rparr>)\<rparr>"
  have "chan_send c v H = Some (Ret ?H')"
    using assms by (simp add: chan_send_def chan_try_send_def)
  moreover have "chan_recv c ?H' = (Value v, H)"
    using assms by (simp add: chan_recv_def fun_upd_idem)
  ultimately show ?thesis by (rule that)
qed

end
