(* ===== verification/Nexus_Float64.thy ===== *)
theory Nexus_Float64
  imports Nexus_Prelude "HOL-Library.Log_Nat"
begin

text \<open>
  Go's \<open>float64\<close>, as far as the match score uses it. A finite double is the rational number it
  stands for; every operation computes exactly and rounds to 53 significant bits, ties to the even
  neighbour. The exponent is not bounded: the scores are sums and differences of seconds of at most
  292 years and MMR values, far from overflow and from the subnormal numbers.
\<close>

type_synonym float64 = rat

section \<open>Rounding\<close>

text \<open>The nearest integer, ties to even.\<close>

definition nearest :: "rat \<Rightarrow> int" where
  "nearest x = (let f = \<lfloor>x\<rfloor>; r = x - of_int f in
     if r < 1 / 2 then f else if 1 / 2 < r then f + 1 else if even f then f else f + 1)"

text \<open>The exponent of the leading bit of a positive rational: \<open>2^k \<le> x < 2^(k+1)\<close>.\<close>

definition leading :: "rat \<Rightarrow> int" where
  "leading x = (let (n, d) = quotient_of x; k = bitlen n - bitlen d in
     if 2 powi k \<le> x then k else k - 1)"

definition round_pos :: "rat \<Rightarrow> rat" where
  "round_pos x = (let u = 2 powi (leading x - 52) in of_int (nearest (x / u)) * u)"

definition fl :: "rat \<Rightarrow> float64" where
  "fl x = (if x = 0 then 0 else if 0 < x then round_pos x else - round_pos (- x))"

lemma nearest_of_int [simp]: "nearest (of_int n) = n"
  by (simp add: nearest_def)

lemma nearest_mono: "x \<le> y \<Longrightarrow> nearest x \<le> nearest y"
proof -
  assume xy: "x \<le> y"
  have fl: "\<lfloor>x\<rfloor> \<le> \<lfloor>y\<rfloor>" using xy by (rule floor_mono)
  show ?thesis
  proof (cases "\<lfloor>x\<rfloor> = \<lfloor>y\<rfloor>")
    case True
    with xy show ?thesis by (auto simp: nearest_def Let_def)
  next
    case False
    with fl have "\<lfloor>x\<rfloor> + 1 \<le> \<lfloor>y\<rfloor>" by simp
    moreover have "nearest x \<le> \<lfloor>x\<rfloor> + 1" "\<lfloor>y\<rfloor> \<le> nearest y"
      by (auto simp: nearest_def Let_def)
    ultimately show ?thesis by linarith
  qed
qed

lemma nearest_le_int: "x \<le> of_int n \<Longrightarrow> nearest x \<le> n"
  using nearest_mono [of x "of_int n"] by simp

lemma int_le_nearest: "of_int n \<le> x \<Longrightarrow> n \<le> nearest x"
  using nearest_mono [of "of_int n" x] by simp

lemma bitlen_powi:
  assumes "0 < n"
  shows "2 powi (bitlen n - 1) \<le> (of_int n :: rat)" "(of_int n :: rat) < 2 powi bitlen n"
proof -
  have pos: "0 < bitlen n"
    using assms by (simp add: bitlen_alt_def)
  have "(of_int (2 ^ nat (bitlen n - 1)) :: rat) \<le> of_int n"
       "(of_int n :: rat) < of_int (2 ^ nat (bitlen n))"
    using bitlen_bounds [OF assms] by (simp_all only: of_int_le_iff of_int_less_iff)
  with pos show "2 powi (bitlen n - 1) \<le> (of_int n :: rat)" "(of_int n :: rat) < 2 powi bitlen n"
    by (simp_all add: power_int_def)
qed

lemma powi_less: "(2 :: rat) powi a < 2 powi b \<Longrightarrow> a < b"
  using power_int_increasing [of b a "2 :: rat"] by (meson leI not_le one_le_numeral)

lemma leading_bounds:
  assumes "0 < x"
  shows "2 powi leading x \<le> x \<and> x < 2 powi (leading x + 1)"
proof -
  obtain n d where q: "quotient_of x = (n, d)" by (cases "quotient_of x")
  have d: "0 < d" using quotient_of_denom_pos [OF q] .
  have x: "x = of_int n / of_int d" using quotient_of_div [OF q] .
  have n: "0 < n" using assms x d by (simp add: zero_less_divide_iff)
  let ?k = "bitlen n - bitlen d"
  have "2 powi (bitlen n - 1) / 2 powi bitlen d \<le> x"
    unfolding x using bitlen_powi [OF n] bitlen_powi [OF d] n d by (intro frac_le) auto
  then have lo: "2 powi (?k - 1) \<le> x"
    by (simp add: power_int_diff [symmetric] algebra_simps)
  have "x < 2 powi bitlen n / 2 powi (bitlen d - 1)"
    unfolding x using bitlen_powi [OF n] bitlen_powi [OF d] n by (intro frac_less) auto
  then have hi: "x < 2 powi (?k + 1)"
    by (simp add: power_int_diff [symmetric] algebra_simps)
  show ?thesis
    using lo hi by (auto simp: leading_def q Let_def)
qed

lemma leading_unique:
  assumes "2 powi k \<le> x" "x < 2 powi (k + 1)"
  shows "leading x = k"
proof -
  have "0 < x" using assms(1) by (meson less_le_trans zero_less_numeral zero_less_power_int)
  note b = leading_bounds [OF this]
  have "(2 :: rat) powi k < 2 powi (leading x + 1)" "(2 :: rat) powi leading x < 2 powi (k + 1)"
    using assms b by linarith+
  then show ?thesis by (auto dest!: powi_less)
qed

lemma leading_mono: "0 < x \<Longrightarrow> x \<le> y \<Longrightarrow> leading x \<le> leading y"
proof -
  assume "0 < x" "x \<le> y"
  then have "(2 :: rat) powi leading x < 2 powi (leading y + 1)"
    using leading_bounds [of x] leading_bounds [of y] by linarith
  then show ?thesis by (auto dest!: powi_less)
qed

lemma round_pos_range:
  assumes "0 < x"
  shows "2 powi leading x \<le> round_pos x \<and> round_pos x \<le> 2 powi (leading x + 1)"
proof -
  define u :: rat where "u = 2 powi (leading x - 52)"
  have u: "0 < u" "2 powi leading x = 2 ^ 52 * u" "2 powi (leading x + 1) = 2 ^ 53 * u"
    unfolding u_def by (simp_all add: power_int_diff power_int_add)
  have "of_int (2 ^ 52) \<le> x / u" "x / u \<le> of_int (2 ^ 53)"
    using leading_bounds [OF assms] u by (simp_all add: field_simps)
  then have "(2 ^ 52 :: int) \<le> nearest (x / u)" "nearest (x / u) \<le> (2 ^ 53 :: int)"
    using int_le_nearest nearest_le_int by blast+
  then have "(2 ^ 52 :: rat) \<le> of_int (nearest (x / u))" "of_int (nearest (x / u)) \<le> (2 ^ 53 :: rat)"
    by (metis of_int_le_iff of_int_numeral of_int_power)+
  with u show ?thesis
    by (simp add: round_pos_def Let_def u_def [symmetric])
qed

lemma round_pos_pos: "0 < x \<Longrightarrow> 0 < round_pos x"
  using round_pos_range [of x] by (meson less_le_trans zero_less_numeral zero_less_power_int)

lemma round_pos_mono:
  assumes "0 < x" "x \<le> y"
  shows "round_pos x \<le> round_pos y"
proof (cases "leading x = leading y")
  case True
  have "nearest (x / 2 powi (leading y - 52)) \<le> nearest (y / 2 powi (leading y - 52))"
    using assms by (intro nearest_mono divide_right_mono) auto
  with True show ?thesis
    by (simp add: round_pos_def Let_def mult_right_mono)
next
  case False
  then have "leading x + 1 \<le> leading y" using leading_mono [OF assms] by simp
  then have "(2 :: rat) powi (leading x + 1) \<le> 2 powi leading y"
    by (intro power_int_increasing) auto
  with round_pos_range [of x] round_pos_range [of y] assms show ?thesis by linarith
qed

lemma fl_zero [simp]: "fl 0 = 0"
  by (simp add: fl_def)

lemma fl_mono: "x \<le> y \<Longrightarrow> fl x \<le> fl y"
  using round_pos_mono [of x y] round_pos_mono [of "- y" "- x"]
    round_pos_pos [of "- x"] round_pos_pos [of y]
  by (auto simp: fl_def)

lemma fl_nonneg: "0 \<le> x \<Longrightarrow> 0 \<le> fl x"
  using fl_mono [of 0 x] by simp

text \<open>Integers of at most 53 bits are doubles.\<close>

lemma round_pos_exact:
  assumes "x = of_int m * 2 powi (leading x - 52)"
  shows "round_pos x = x"
proof -
  let ?u = "(2 :: rat) powi (leading x - 52)"
  have "x / ?u = of_int m" by (subst assms) simp
  with assms show ?thesis by (simp add: round_pos_def Let_def)
qed

lemma leading_small:
  assumes "0 < x" "x < 2 powi 53"
  shows "leading x \<le> 52"
proof -
  have "(2 :: rat) powi leading x < 2 powi 53"
    using leading_bounds [OF assms(1)] assms(2) by linarith
  from powi_less [OF this] show ?thesis by simp
qed

lemma round_pos_of_int:
  assumes "0 < n" "n < 2 ^ 53"
  shows "round_pos (of_int n) = of_int n"
proof (rule round_pos_exact)
  let ?k = "leading (of_int n)"
  have "(of_int n :: rat) < of_int (2 ^ 53)"
    using assms(2) by (simp only: of_int_less_iff)
  then have "(of_int n :: rat) < 2 powi 53" by (simp add: power_int_def)
  then have k: "?k \<le> 52" using leading_small assms(1) by simp
  have "(2 :: rat) ^ nat (52 - ?k) * 2 powi (?k - 52) = 2 powi (52 - ?k) * 2 powi (?k - 52)"
    using k by (simp add: power_int_def [of _ "52 - ?k"])
  also have "\<dots> = 1" by (simp flip: power_int_add)
  finally show "of_int n = of_int (n * 2 ^ nat (52 - ?k)) * (2 :: rat) powi (?k - 52)"
    by (simp add: mult.assoc)
qed

lemma fl_of_int: "\<bar>n\<bar> < 2 ^ 53 \<Longrightarrow> fl (of_int n) = of_int n"
  using round_pos_of_int [of n] round_pos_of_int [of "- n"] by (auto simp: fl_def)

lemma fl_le_int: "x \<le> of_int n \<Longrightarrow> \<bar>n\<bar> < 2 ^ 53 \<Longrightarrow> fl x \<le> of_int n"
  using fl_mono [of x "of_int n"] by (simp add: fl_of_int)

lemma fl_numeral: "(numeral n :: int) < 2 ^ 53 \<Longrightarrow> fl (numeral n) = numeral n"
  using fl_of_int [of "numeral n"] by simp

text \<open>The rounding error, and what it leaves of a difference of one.\<close>

lemma nearest_error: "\<bar>of_int (nearest x) - x\<bar> \<le> 1 / 2"
  using floor_correct [of x] by (auto simp: nearest_def Let_def abs_le_iff)

lemma round_pos_error:
  assumes "0 < x" "x < 2 powi e"
  shows "\<bar>round_pos x - x\<bar> \<le> 2 powi (e - 54)"
proof -
  let ?u = "(2 :: rat) powi (leading x - 52)"
  have "(2 :: rat) powi leading x < 2 powi e"
    using leading_bounds [OF assms(1)] assms(2) by linarith
  from powi_less [OF this] have e: "leading x - 53 \<le> e - 54" by simp
  have "\<bar>round_pos x - x\<bar> = \<bar>of_int (nearest (x / ?u)) - x / ?u\<bar> * ?u"
    by (simp add: round_pos_def Let_def field_simps abs_mult [symmetric] flip: abs_mult_pos)
  also have "\<dots> \<le> 1 / 2 * ?u"
    by (intro mult_right_mono nearest_error) simp
  also have "\<dots> = 2 powi (leading x - 53)"
    by (simp add: power_int_diff)
  also have "\<dots> \<le> 2 powi (e - 54)"
    using e by (intro power_int_increasing) auto
  finally show ?thesis .
qed

lemma fl_error: "\<bar>x\<bar> < 2 powi e \<Longrightarrow> \<bar>fl x - x\<bar> \<le> 2 powi (e - 54)"
  using round_pos_error [of x e] round_pos_error [of "- x" e] by (auto simp: fl_def abs_if split: if_splits)

lemma fl_strict:
  assumes "\<bar>x\<bar> < 2 powi 40" "\<bar>y\<bar> < 2 powi 40" "x + 1 \<le> y"
  shows "fl x < fl y"
proof -
  have "(2 :: rat) powi (40 - 54) < 1 / 2" by (simp add: power_int_def field_simps)
  with fl_error [OF assms(1)] fl_error [OF assms(2)] assms(3) show ?thesis by linarith
qed

section \<open>Operations\<close>

definition fadd :: "float64 \<Rightarrow> float64 \<Rightarrow> float64" where
  "fadd x y = fl (x + y)"

definition fsub :: "float64 \<Rightarrow> float64 \<Rightarrow> float64" where
  "fsub x y = fl (x - y)"

definition fmul :: "float64 \<Rightarrow> float64 \<Rightarrow> float64" where
  "fmul x y = fl (x * y)"

definition fdiv :: "float64 \<Rightarrow> float64 \<Rightarrow> float64" where
  "fdiv x y = fl (x / y)"

text \<open>\<open>float64(n)\<close> of an integer.\<close>

definition float64_of_int :: "int \<Rightarrow> float64" where
  "float64_of_int n = fl (of_int n)"

text \<open>
  \<open>Duration.Seconds\<close>: whole seconds plus the rest, both truncated towards zero as Go's \<open>/\<close> and
  \<open>%\<close> do.
\<close>

definition Seconds :: "int \<Rightarrow> float64" where
  "Seconds d = (let sec = sgn d * (\<bar>d\<bar> div 10 ^ 9); nsec = sgn d * (\<bar>d\<bar> mod 10 ^ 9)
     in fadd (float64_of_int sec) (fdiv (float64_of_int nsec) (10 ^ 9)))"

lemma Seconds_nonneg: "0 \<le> d \<Longrightarrow> 0 \<le> Seconds d"
  unfolding Seconds_def Let_def fadd_def fdiv_def float64_of_int_def
  by (intro fl_nonneg add_nonneg_nonneg divide_nonneg_nonneg) (auto simp: sgn_if)

lemma Seconds_whole: "0 \<le> n \<Longrightarrow> n < 2 ^ 53 \<Longrightarrow> Seconds (n * 10 ^ 9) = of_int n"
  by (simp add: Seconds_def fadd_def fdiv_def float64_of_int_def fl_of_int sgn_if abs_mult)

end
