(* ===== verification/Nexus_Pool.thy ===== *)
theory Nexus_Pool
  imports Go_Channels Nexus_Float64
begin

text \<open>
  \<open>internal/state/pool.go\<close>: the in-memory matchmaking queue. Players are indexed twice, by id and
  by MMR bracket, and each bracket is a slice sorted by MMR. Every exported method holds the one
  mutex for its whole body, so each is one atomic function on the state. A \<open>*QueuedPlayer\<close> is
  never written after it is built, so the model copies it by value; its channel is a number that
  names a cell of the heap \<open>match_heap\<close>, the only mutable thing a player carries.
\<close>

section \<open>Constants and types\<close>

definition BracketSize :: int where "BracketSize = 500"
definition MaxMMR :: int where "MaxMMR = 10000"
definition PlayersPerMatch :: nat where "PlayersPerMatch = 10"
definition MaxBracketExpansion :: int where "MaxBracketExpansion = 2"
definition WaitWeight :: float64 where "WaitWeight = 5"

lemmas pool_consts = BracketSize_def MaxMMR_def PlayersPerMatch_def MaxBracketExpansion_def WaitWeight_def

record QueuedPlayer =
  PlayerID :: string
  DisplayName :: string
  MMR :: i32
  EnqueuedAt :: gtime
  MatchCh :: chan_id

record MatchEvent =
  evt_SessionID :: string
  evt_PlayerIDs :: "string list"
  evt_CreatedAt :: gtime
  ResponseCh :: chan_id
  ResultCh :: chan_id

record Pool =
  players :: "string \<rightharpoonup> QueuedPlayer"
  brackets :: "int \<rightharpoonup> QueuedPlayer slice"
  match_heap :: "MatchEvent chans"

definition NewPool :: Pool where
  "NewPool = \<lparr>players = Map.empty, brackets = Map.empty, match_heap = no_chans\<rparr>"

abbreviation mmr :: "QueuedPlayer \<Rightarrow> int" where
  "mmr qp \<equiv> sint (MMR qp)"

definition bracketKey :: "i32 \<Rightarrow> int" where
  "bracketKey m = (if sint m < 0 then 0 else sint m div BracketSize)"

abbreviation bk_of :: "QueuedPlayer \<Rightarrow> int" where
  "bk_of qp \<equiv> bracketKey (MMR qp)"

text \<open>The error of \<open>Enqueue\<close> and \<open>ReEnqueue\<close>; its text carries the id.\<close>

datatype pool_error = AlreadyQueued string

section \<open>Sorted slices\<close>

text \<open>
  \<open>insertSorted\<close>, statement by statement: search, append a nil, shift the tail right by one, store.
  \<open>None\<close> is the nil pointer the append leaves for a moment.
\<close>

definition insertSorted ::
  "(nat \<Rightarrow> nat \<Rightarrow> nat) \<Rightarrow> QueuedPlayer slice \<Rightarrow> QueuedPlayer \<Rightarrow> QueuedPlayer slice" where
  "insertSorted grow s qp =
     (let idx = sort_Search (length (elems s)) (\<lambda>i. mmr qp \<le> mmr (elems s ! i));
          s1 = map Some (elems s) @ [None];
          s2 = slice_copy (idx + 1) idx s1;
          s3 = s2[idx := Some qp]
      in \<lparr>elems = map the s3, scap = append_cap grow s\<rparr>)"

text \<open>The \<open>range\<close> loop of \<open>removeFromSlice\<close> finds the first index that holds the id.\<close>

fun index_of :: "QueuedPlayer list \<Rightarrow> string \<Rightarrow> nat option" where
  "index_of [] i = None"
| "index_of (qp # qs) i = (if PlayerID qp = i then Some 0 else map_option Suc (index_of qs i))"

text \<open>
  \<open>removeFromSlice\<close>: shift the tail left by one, nil the dangling slot, cut the slice, and move to
  a smaller backing array when fewer than a quarter of the capacity is used.
\<close>

definition removeFromSlice :: "QueuedPlayer slice \<Rightarrow> string \<Rightarrow> QueuedPlayer slice" where
  "removeFromSlice s pid = (case index_of (elems s) pid of
       None \<Rightarrow> s
     | Some i \<Rightarrow>
         (let n = length (elems s);
              s1 = slice_copy i (i + 1) (map Some (elems s));
              s2 = s1[n - 1 := None];
              s3 = map the (take (n - 1) s2);
              newLen = length s3
          in if 0 < newLen \<and> newLen < scap s div 4
             then \<lparr>elems = s3, scap = newLen\<rparr>
             else \<lparr>elems = s3, scap = scap s\<rparr>))"

section \<open>Operations\<close>

definition Enqueue ::
  "(nat \<Rightarrow> nat \<Rightarrow> nat) \<Rightarrow> gtime \<Rightarrow> string \<Rightarrow> string \<Rightarrow> i32 \<Rightarrow> Pool
    \<Rightarrow> Pool \<times> (pool_error + QueuedPlayer)" where
  "Enqueue grow now pid name m p =
     (if players p pid \<noteq> None then (p, Inl (AlreadyQueued pid))
      else
        let (heap, ch) = make_chan 1 (match_heap p);
            qp = \<lparr>PlayerID = pid, DisplayName = name, MMR = m, EnqueuedAt = now, MatchCh = ch\<rparr>;
            bk = bracketKey m
        in (p\<lparr>players := (players p)(pid \<mapsto> qp),
              brackets := (brackets p)(bk \<mapsto> insertSorted grow (slice_at (brackets p) bk) qp),
              match_heap := heap\<rparr>, Inr qp))"

definition ReEnqueue ::
  "(nat \<Rightarrow> nat \<Rightarrow> nat) \<Rightarrow> QueuedPlayer \<Rightarrow> Pool \<Rightarrow> Pool \<times> pool_error option" where
  "ReEnqueue grow qp p =
     (if players p (PlayerID qp) \<noteq> None then (p, Some (AlreadyQueued (PlayerID qp)))
      else
        let bk = bk_of qp
        in (p\<lparr>players := (players p)(PlayerID qp \<mapsto> qp),
              brackets := (brackets p)(bk \<mapsto> insertSorted grow (slice_at (brackets p) bk) qp)\<rparr>,
            None))"

text \<open>
  The bracket half of a removal, which \<open>Dequeue\<close> and \<open>ExtractMatch\<close> share: take the id out of its
  slice and drop the bracket when nothing is left.
\<close>

definition unbracket :: "int \<Rightarrow> string \<Rightarrow> (int \<rightharpoonup> QueuedPlayer slice) \<Rightarrow> (int \<rightharpoonup> QueuedPlayer slice)" where
  "unbracket bk pid m =
     (let s = removeFromSlice (slice_at m bk) pid
      in if length (elems s) = 0 then m(bk := None) else m(bk \<mapsto> s))"

text \<open>
  \<open>Dequeue\<close>. Closing the channel comes after the bracket is updated and before the player is
  deleted, so a panic of \<open>close\<close> leaves the id in \<open>players\<close>.
\<close>

definition Dequeue :: "string \<Rightarrow> Pool \<Rightarrow> Pool \<times> bool outcome" where
  "Dequeue pid p = (case players p pid of
       None \<Rightarrow> (p, Ret False)
     | Some qp \<Rightarrow>
         (let p1 = p\<lparr>brackets := unbracket (bk_of qp) pid (brackets p)\<rparr>
          in case chan_close (MatchCh qp) (match_heap p1) of
               Panic \<Rightarrow> (p1, Panic)
             | Ret heap \<Rightarrow> (p1\<lparr>match_heap := heap, players := (players p1)(pid := None)\<rparr>, Ret True)))"

definition Contains :: "string \<Rightarrow> Pool \<Rightarrow> bool" where
  "Contains pid p \<longleftrightarrow> players p pid \<noteq> None"

definition Size :: "Pool \<Rightarrow> nat" where
  "Size p = card (dom (players p))"

section \<open>The slice helpers do what their comments say\<close>

named_theorems slice_facts

lemma slice_copy_right:
  assumes "i \<le> length xs"
  shows "(slice_copy (i + 1) i (xs @ [z]))[i := v] = take i xs @ v # drop i xs"
proof -
  have "slice_copy (i + 1) i (xs @ [z]) = take (i + 1) (xs @ [z]) @ drop i xs"
    using assms by (simp add: slice_copy_def Let_def)
  also have "\<dots>[i := v] = take i xs @ v # drop i xs"
    using assms by (cases "i = length xs") (simp_all add: list_update_append take_Suc_conv_app_nth)
  finally show ?thesis .
qed

lemma slice_copy_left:
  assumes "i < length xs"
  shows "take (length xs - 1) ((slice_copy i (i + 1) xs)[length xs - 1 := z]) = take i xs @ drop (Suc i) xs"
proof -
  have "slice_copy i (i + 1) xs = take i xs @ drop (Suc i) xs @ drop (length xs - 1) xs"
    using assms by (simp add: slice_copy_def Let_def)
  then show ?thesis using assms by simp
qed

lemma elems_insertSorted:
  assumes "i = sort_Search (length (elems s)) (\<lambda>k. mmr qp \<le> mmr (elems s ! k))" "i \<le> length (elems s)"
  shows "elems (insertSorted grow s qp) = take i (elems s) @ qp # drop i (elems s)"
proof -
  have "map the ((slice_copy (i + 1) i (map Some (elems s) @ [None]))[i := Some qp])
      = take i (elems s) @ qp # drop i (elems s)"
    using slice_copy_right [of i "map Some (elems s)" None "Some qp"] assms(2)
    by (simp add: take_map drop_map)
  then show ?thesis by (simp only: insertSorted_def Let_def assms(1) [symmetric] slice.select_convs)
qed

text \<open>The insertion point on a sorted slice: behind the strictly smaller players.\<close>

lemma search_position:
  assumes "sorted (map rank xs)"
  shows "sort_Search (length xs) (\<lambda>k. (x :: int) \<le> rank (xs ! k)) = length (takeWhile (\<lambda>y. rank y < x) xs)"
    (is "?i = ?n")
proof -
  have "upward (length xs) (\<lambda>k. x \<le> rank (xs ! k))"
    unfolding upward_def using assms by (force simp: sorted_iff_nth_mono intro: order_trans)
  note spec = sort_Search_spec [OF this]
  have small: "\<not> x \<le> rank (xs ! k)" if "k < ?n" for k
    using that by (metis nth_mem set_takeWhileD takeWhile_nth not_le)
  have large: "x \<le> rank (xs ! ?n)" if "?n < length xs"
    using nth_length_takeWhile [OF that] by simp
  have len: "?n \<le> length xs" by (simp add: length_takeWhile_le)
  show ?thesis
  proof (rule antisym)
    show "?i \<le> ?n"
    proof (rule ccontr)
      assume "\<not> ?i \<le> ?n"
      then have lt: "?n < ?i" by simp
      then have "?n < length xs" using spec by (meson less_le_trans)
      from large [OF this] lt spec show False by blast
    qed
    show "?n \<le> ?i"
    proof (rule ccontr)
      assume "\<not> ?n \<le> ?i"
      then have lt: "?i < ?n" by simp
      then have "?i < length xs" using len by simp
      with spec small [OF lt] show False by blast
    qed
  qed
qed

lemma insertSorted_reference [slice_facts]:
  assumes "sorted (map mmr (elems s))"
  shows "elems (insertSorted grow s qp) =
    takeWhile (\<lambda>q. mmr q < mmr qp) (elems s) @ qp # dropWhile (\<lambda>q. mmr q < mmr qp) (elems s)"
  by (simp add: elems_insertSorted [OF search_position [OF assms, symmetric] length_takeWhile_le]
      takeWhile_eq_take [symmetric] dropWhile_eq_drop [symmetric])

lemma sorted_insertSorted [slice_facts]:
  assumes "sorted (map mmr (elems s))"
  shows "sorted (map mmr (elems (insertSorted grow s qp)))"
proof -
  let ?P = "\<lambda>q. mmr q < mmr qp"
  have "sorted (map mmr (takeWhile ?P (elems s) @ dropWhile ?P (elems s)))" using assms by simp
  then have "sorted (map mmr (takeWhile ?P (elems s)))" "sorted (map mmr (dropWhile ?P (elems s)))"
    unfolding map_append sorted_append by blast+
  moreover have "\<forall>q \<in> set (takeWhile ?P (elems s)). mmr q \<le> mmr qp"
    by (meson less_imp_le set_takeWhileD)
  moreover have "\<forall>q \<in> set (dropWhile ?P (elems s)). mmr qp \<le> mmr q"
  proof (cases "dropWhile ?P (elems s)")
    case (Cons d ds)
    then have "\<not> ?P d" by (metis hd_dropWhile list.distinct(1) list.sel(1))
    moreover have "sorted (map mmr (d # ds))"
      using assms Cons by (metis dropWhile_eq_drop drop_map sorted_wrt_drop)
    ultimately show ?thesis using Cons by auto
  next
    case Nil
    then show ?thesis by (simp only: list.set ball_empty)
  qed
  ultimately show ?thesis
    by (fastforce simp: insertSorted_reference [OF assms] sorted_append)
qed

lemma mset_insertSorted [slice_facts]:
  assumes "sorted (map mmr (elems s))"
  shows "mset (elems (insertSorted grow s qp)) = add_mset qp (mset (elems s))"
  unfolding insertSorted_reference [OF assms]
  by simp (metis mset_append takeWhile_dropWhile_id)

lemma set_insertSorted [slice_facts]:
  "sorted (map mmr (elems s)) \<Longrightarrow> set (elems (insertSorted grow s qp)) = insert qp (set (elems s))"
  by (metis mset_insertSorted set_mset_add_mset_insert set_mset_mset)

lemma insertSorted_nonempty:
  "sorted (map mmr (elems s)) \<Longrightarrow> elems (insertSorted grow s qp) \<noteq> []"
  by (simp add: insertSorted_reference)

text \<open>The reference for \<open>removeFromSlice\<close>: drop the first player with the id.\<close>

fun remove_id :: "string \<Rightarrow> QueuedPlayer list \<Rightarrow> QueuedPlayer list" where
  "remove_id pid [] = []"
| "remove_id pid (q # qs) = (if PlayerID q = pid then qs else q # remove_id pid qs)"

lemma index_of_None: "index_of qs pid = None \<Longrightarrow> remove_id pid qs = qs"
  by (induction qs) (auto split: if_splits)

lemma index_of_Some:
  "index_of qs pid = Some i \<Longrightarrow> i < length qs \<and> remove_id pid qs = take i qs @ drop (Suc i) qs"
  by (induction qs arbitrary: i) (auto split: if_splits)

lemma elems_removeFromSlice [slice_facts]: "elems (removeFromSlice s pid) = remove_id pid (elems s)"
proof (cases "index_of (elems s) pid")
  case None
  then show ?thesis by (simp add: removeFromSlice_def index_of_None)
next
  case (Some i)
  then have i: "i < length (elems s)"
    and r: "remove_id pid (elems s) = take i (elems s) @ drop (Suc i) (elems s)"
    using index_of_Some by auto
  have "map the (take (length (elems s) - 1)
          ((slice_copy i (i + 1) (map Some (elems s)))[length (elems s) - 1 := None]))
        = take i (elems s) @ drop (Suc i) (elems s)"
    using slice_copy_left [of i "map Some (elems s)" None] i by (simp add: take_map drop_map)
  with Some r show ?thesis by (simp add: removeFromSlice_def Let_def)
qed

lemma remove_id_filter:
  "distinct (map PlayerID qs) \<Longrightarrow> remove_id pid qs = filter (\<lambda>q. PlayerID q \<noteq> pid) qs"
proof (induction qs)
  case (Cons q qs)
  then have "filter (\<lambda>x. PlayerID x \<noteq> PlayerID q) qs = qs"
    by (intro filter_True) (auto simp: image_iff)
  with Cons show ?case by auto
qed simp

section \<open>The index invariant\<close>

text \<open>
  The comment on \<open>Pool.mu\<close>: every player of \<open>players\<close> appears in exactly one bracket slice. In
  full: ids key their players, a bracket is never empty, is sorted by MMR, lists each id once, and
  holds exactly players of its MMR range that \<open>players\<close> knows.
\<close>

definition bracket_ok :: "(string \<rightharpoonup> QueuedPlayer) \<Rightarrow> int \<Rightarrow> QueuedPlayer slice \<Rightarrow> bool" where
  "bracket_ok P bk s \<longleftrightarrow> sorted (map mmr (elems s)) \<and> distinct (map PlayerID (elems s))
     \<and> (\<forall>q \<in> set (elems s). bk_of q = bk \<and> P (PlayerID q) = Some q)"

definition index_inv :: "(string \<rightharpoonup> QueuedPlayer) \<Rightarrow> (int \<rightharpoonup> QueuedPlayer slice) \<Rightarrow> bool" where
  "index_inv P B \<longleftrightarrow> finite (dom P)
     \<and> (\<forall>pid qp. P pid = Some qp \<longrightarrow> PlayerID qp = pid \<and> qp \<in> set (elems (slice_at B (bk_of qp))))
     \<and> (\<forall>bk. bracket_ok P bk (slice_at B bk))
     \<and> (\<forall>bk s. B bk = Some s \<longrightarrow> elems s \<noteq> [])"

lemma index_invI:
  assumes "finite (dom P)" "\<And>pid qp. P pid = Some qp \<Longrightarrow> PlayerID qp = pid"
    and "\<And>pid qp. P pid = Some qp \<Longrightarrow> qp \<in> set (elems (slice_at B (bk_of qp)))"
    and "\<And>bk. bracket_ok P bk (slice_at B bk)" "\<And>bk s. B bk = Some s \<Longrightarrow> elems s \<noteq> []"
  shows "index_inv P B"
  using assms by (simp add: index_inv_def)

lemma index_nonempty: "index_inv P B \<Longrightarrow> B bk = Some s \<Longrightarrow> elems s \<noteq> []"
  by (simp add: index_inv_def)

lemma index_member: "index_inv P B \<Longrightarrow> P pid = Some qp \<Longrightarrow> qp \<in> set (elems (slice_at B (bk_of qp)))"
  by (simp add: index_inv_def)

lemma index_finite: "index_inv P B \<Longrightarrow> finite (dom P)"
  by (simp add: index_inv_def)

lemma index_inv_empty: "index_inv Map.empty Map.empty"
  by (simp add: index_inv_def bracket_ok_def)

lemma index_bracket: "index_inv P B \<Longrightarrow> bracket_ok P bk (slice_at B bk)"
  by (simp add: index_inv_def)

lemma index_id: "index_inv P B \<Longrightarrow> P pid = Some qp \<Longrightarrow> PlayerID qp = pid"
  by (simp add: index_inv_def)

lemma index_ran: "index_inv P B \<Longrightarrow> qp \<in> ran P \<longleftrightarrow> P (PlayerID qp) = Some qp"
  by (auto simp: index_inv_def ran_def)

lemma index_slice_set:
  assumes inv: "index_inv P B"
  shows "set (elems (slice_at B bk)) = {qp \<in> ran P. bk_of qp = bk}"
  using inv by (auto simp: index_ran [OF inv] index_inv_def bracket_ok_def)

lemma index_known:
  "index_inv P B \<Longrightarrow> q \<in> set (elems (slice_at B bk)) \<Longrightarrow> P (PlayerID q) = Some q \<and> bk_of q = bk"
  by (simp add: index_inv_def bracket_ok_def)

lemma index_sorted: "index_inv P B \<Longrightarrow> sorted (map mmr (elems (slice_at B bk)))"
  by (simp add: index_inv_def bracket_ok_def)

lemma index_distinct: "index_inv P B \<Longrightarrow> distinct (map PlayerID (elems (slice_at B bk)))"
  by (simp add: index_inv_def bracket_ok_def)

lemma slice_at_upd: "slice_at (B(k \<mapsto> s)) j = (if j = k then s else slice_at B j)"
  by (simp add: slice_at_def)

lemma slice_at_del: "slice_at (B(k := None)) j = (if j = k then nil_slice else slice_at B j)"
  by (simp add: slice_at_def)

lemma elems_unbracket:
  "elems (slice_at (unbracket bk pid B) j) =
     (if j = bk then remove_id pid (elems (slice_at B bk)) else elems (slice_at B j))"
  by (simp add: unbracket_def Let_def slice_at_upd slice_at_del elems_removeFromSlice)

lemma index_insert:
  assumes inv: "index_inv P B" and new: "P (PlayerID qp) = None"
  shows "index_inv (P(PlayerID qp \<mapsto> qp))
           (B(bk_of qp \<mapsto> insertSorted grow (slice_at B (bk_of qp)) qp))"
proof -
  let ?s = "slice_at B (bk_of qp)" and ?P = "P(PlayerID qp \<mapsto> qp)"
  let ?B = "B(bk_of qp \<mapsto> insertSorted grow ?s qp)"
  note srt = index_sorted [OF inv, of "bk_of qp"]
  have old: "bracket_ok ?P bk (slice_at B bk)" for bk
    using index_bracket [OF inv, of bk] new unfolding bracket_ok_def by auto
  have "mset (map PlayerID (elems (insertSorted grow ?s qp))) = mset (map PlayerID (qp # elems ?s))"
    using mset_insertSorted [OF srt] by simp
  from mset_eq_imp_distinct_iff [OF this]
  have "distinct (map PlayerID (elems (insertSorted grow ?s qp))) \<longleftrightarrow> distinct (map PlayerID (qp # elems ?s))" .
  moreover have "PlayerID qp \<notin> set (map PlayerID (elems ?s))"
    using index_known [OF inv] new by fastforce
  ultimately have "distinct (map PlayerID (elems (insertSorted grow ?s qp)))"
    using index_distinct [OF inv, of "bk_of qp"] by simp
  moreover have "bk_of q = bk_of qp \<and> ?P (PlayerID q) = Some q"
    if "q \<in> set (elems (insertSorted grow ?s qp))" for q
    using that set_insertSorted [OF srt] index_known [OF inv, of q "bk_of qp"] new by auto
  ultimately have ins: "bracket_ok ?P (bk_of qp) (insertSorted grow ?s qp)"
    unfolding bracket_ok_def using sorted_insertSorted [OF srt] by blast
  show ?thesis
  proof (rule index_invI)
    show "finite (dom ?P)" using index_finite [OF inv] by simp
    show "PlayerID q = i" if "?P i = Some q" for i q
      using that index_id [OF inv] by (auto split: if_splits)
    show "q \<in> set (elems (slice_at ?B (bk_of q)))" if "?P i = Some q" for i q
    proof (cases "i = PlayerID qp")
      case True
      with that set_insertSorted [OF srt] show ?thesis by (simp add: slice_at_upd)
    next
      case False
      have "set (elems (slice_at B k)) \<subseteq> set (elems (slice_at ?B k))" for k
        using set_insertSorted [OF srt] by (simp add: slice_at_upd subset_insertI)
      moreover from False that have "P i = Some q" by simp
      ultimately show ?thesis using index_member [OF inv] by blast
    qed
    show "bracket_ok ?P bk (slice_at ?B bk)" for bk
      using ins old by (simp add: slice_at_upd)
    show "elems t \<noteq> []" if "?B bk = Some t" for bk t
      using that index_nonempty [OF inv, of bk t] insertSorted_nonempty [OF srt, of grow qp]
      by (cases "bk = bk_of qp") simp_all
  qed
qed

lemma index_remove:
  assumes inv: "index_inv P B" and at: "P pid = Some qp"
  shows "index_inv (P(pid := None)) (unbracket (bk_of qp) pid B)"
proof -
  let ?B = "unbracket (bk_of qp) pid B"
  have pid: "PlayerID qp = pid" using index_id [OF inv at] .
  have el: "elems (slice_at ?B bk) = filter (\<lambda>q. PlayerID q \<noteq> pid) (elems (slice_at B bk))" for bk
  proof (cases "bk = bk_of qp")
    case True
    then show ?thesis using index_distinct [OF inv] by (simp add: elems_unbracket remove_id_filter)
  next
    case False
    have "PlayerID q \<noteq> pid" if "q \<in> set (elems (slice_at B bk))" for q
      using that False at index_bracket [OF inv, of bk] by (auto simp: bracket_ok_def)
    with False show ?thesis by (simp add: elems_unbracket)
  qed
  show ?thesis
  proof (rule index_invI)
    show "finite (dom (P(pid := None)))" using index_finite [OF inv] by simp
    show "PlayerID q = i" if "(P(pid := None)) i = Some q" for i q
      using that index_id [OF inv] by (auto split: if_splits)
    show "q \<in> set (elems (slice_at ?B (bk_of q)))" if "(P(pid := None)) i = Some q" for i q
      using that index_member [OF inv, of i q] index_id [OF inv, of i q]
      by (auto simp: el split: if_splits)
    show "bracket_ok (P(pid := None)) bk (slice_at ?B bk)" for bk
      using index_bracket [OF inv, of bk]
      by (simp add: bracket_ok_def el sorted_filter distinct_map_filter)
    show "elems t \<noteq> []" if "?B bk = Some t" for bk t
      using that index_nonempty [OF inv] by (auto simp: unbracket_def Let_def split: if_splits)
  qed
qed

section \<open>The pool invariant\<close>

text \<open>
  The index invariant, and the channel discipline: every queued player has an open channel of one
  slot that no other queued player shares.
\<close>

definition queued :: "Pool \<Rightarrow> QueuedPlayer set" where
  "queued p = ran (players p)"

definition match_chan_ok :: "MatchEvent chans \<Rightarrow> chan_id \<Rightarrow> bool" where
  "match_chan_ok H c \<longleftrightarrow> (\<exists>ch. cells H c = Some ch \<and> \<not> ch_closed ch \<and> ch_cap ch = 1)"

definition pool_inv :: "Pool \<Rightarrow> bool" where
  "pool_inv p \<longleftrightarrow> index_inv (players p) (brackets p) \<and> chans_ok (match_heap p)
     \<and> (\<forall>qp \<in> queued p. match_chan_ok (match_heap p) (MatchCh qp))
     \<and> inj_on MatchCh (queued p)"

lemma pool_index: "pool_inv p \<Longrightarrow> index_inv (players p) (brackets p)"
  by (simp add: pool_inv_def)

lemma pool_heap: "pool_inv p \<Longrightarrow> chans_ok (match_heap p)"
  by (simp add: pool_inv_def)

lemma pool_chan: "pool_inv p \<Longrightarrow> qp \<in> queued p \<Longrightarrow> match_chan_ok (match_heap p) (MatchCh qp)"
  by (simp add: pool_inv_def)

lemma pool_inj: "pool_inv p \<Longrightarrow> inj_on MatchCh (queued p)"
  by (simp add: pool_inv_def)

lemma match_chan_open: "match_chan_ok H c \<Longrightarrow> chan_open H c"
  by (auto simp: match_chan_ok_def chan_open_def)

lemma match_chan_id: "chans_ok H \<Longrightarrow> match_chan_ok H c \<Longrightarrow> c < next_id H"
  by (auto simp: match_chan_ok_def chans_ok_def)

lemma pool_inv_NewPool: "pool_inv NewPool"
  by (simp add: pool_inv_def NewPool_def queued_def index_inv_empty)

lemma queued_insert: "players p pid = None \<Longrightarrow> queued (p\<lparr>players := (players p)(pid \<mapsto> qp)\<rparr>) = insert qp (queued p)"
  by (simp add: queued_def ran_map_upd)

lemma queued_id: "pool_inv p \<Longrightarrow> qp \<in> queued p \<longleftrightarrow> players p (PlayerID qp) = Some qp"
  unfolding queued_def using index_ran pool_index by blast

lemma queued_remove:
  assumes "pool_inv p" "players p pid = Some qp"
  shows "ran ((players p)(pid := None)) = queued p - {qp}"
proof -
  have i: "PlayerID q = i" if "players p i = Some q" for i q
    using index_id [OF pool_index [OF assms(1)] that] .
  show ?thesis
  proof (intro set_eqI iffI)
    fix q
    assume "q \<in> ran ((players p)(pid := None))"
    then obtain j where "players p j = Some q" "j \<noteq> pid" by (auto simp: ran_def split: if_splits)
    then show "q \<in> queued p - {qp}" using i assms(2) by (auto simp: queued_def ran_def)
  next
    fix q
    assume "q \<in> queued p - {qp}"
    then obtain j where "players p j = Some q" "q \<noteq> qp" by (auto simp: queued_def ran_def)
    moreover then have "j \<noteq> pid" using assms(2) by auto
    ultimately have "((players p)(pid := None)) j = Some q" by simp
    then show "q \<in> ran ((players p)(pid := None))" by (rule ranI)
  qed
qed

subsection \<open>Every operation keeps it\<close>

lemma ReEnqueue_inv:
  assumes inv: "pool_inv p" and chan: "match_chan_ok (match_heap p) (MatchCh qp)"
    and fresh: "MatchCh qp \<notin> MatchCh ` queued p"
  shows "pool_inv (fst (ReEnqueue grow qp p))"
proof (cases "players p (PlayerID qp)")
  case (Some q)
  with inv show ?thesis by (simp add: ReEnqueue_def)
next
  case None
  let ?p = "fst (ReEnqueue grow qp p)"
  have "queued ?p = insert qp (queued p)"
    using None by (simp add: ReEnqueue_def Let_def queued_def ran_map_upd)
  moreover have "index_inv (players ?p) (brackets ?p)"
    using None index_insert [OF pool_index [OF inv] None] by (simp add: ReEnqueue_def Let_def)
  moreover have "match_heap ?p = match_heap p"
    by (simp add: ReEnqueue_def Let_def)
  ultimately show ?thesis
    using inv chan fresh by (auto simp: pool_inv_def)
qed

text \<open>\<open>Enqueue\<close> of a new id is a fresh channel, then the insertion that \<open>ReEnqueue\<close> also makes.\<close>

lemma Enqueue_as_ReEnqueue:
  assumes "players p pid = None" "make_chan 1 (match_heap p) = (heap, ch)"
    and "qp = \<lparr>PlayerID = pid, DisplayName = name, MMR = m, EnqueuedAt = now, MatchCh = ch\<rparr>"
  shows "Enqueue grow now pid name m p = (fst (ReEnqueue grow qp (p\<lparr>match_heap := heap\<rparr>)), Inr qp)"
  using assms by (simp add: Enqueue_def ReEnqueue_def Let_def)

lemma make_chan_pool:
  assumes inv: "pool_inv p" and mk: "make_chan 1 (match_heap p) = (heap, ch)"
  shows "pool_inv (p\<lparr>match_heap := heap\<rparr>) \<and> match_chan_ok heap ch \<and> ch \<notin> MatchCh ` queued p"
proof -
  have q: "queued (p\<lparr>match_heap := heap\<rparr>) = queued p" by (simp add: queued_def)
  note fresh = make_chan_fresh [OF pool_heap [OF inv] mk]
  have old: "match_chan_ok heap c" if "match_chan_ok (match_heap p) c" for c
    using that fresh by (auto simp: match_chan_ok_def)
  have "ch \<notin> MatchCh ` queued p"
    using pool_chan [OF inv] fresh by (force simp: match_chan_ok_def)
  moreover have "pool_inv (p\<lparr>match_heap := heap\<rparr>)"
    unfolding pool_inv_def q
    using inv old make_chan_ok [OF pool_heap [OF inv] mk] by (simp add: pool_inv_def)
  ultimately show ?thesis using fresh by (simp add: match_chan_ok_def)
qed

lemma Enqueue_inv:
  assumes inv: "pool_inv p"
  shows "pool_inv (fst (Enqueue grow now pid name m p))"
proof (cases "players p pid")
  case (Some q)
  with inv show ?thesis by (simp add: Enqueue_def)
next
  case None
  obtain heap ch where mk: "make_chan 1 (match_heap p) = (heap, ch)" by fastforce
  have q: "queued (p\<lparr>match_heap := heap\<rparr>) = queued p" by (simp add: queued_def)
  show ?thesis
    using make_chan_pool [OF inv mk] q
    by (simp add: Enqueue_as_ReEnqueue [OF None mk refl] ReEnqueue_inv)
qed

lemma Dequeue_missing: "players p pid = None \<Longrightarrow> Dequeue pid p = (p, Ret False)"
  by (simp add: Dequeue_def)

text \<open>Under the invariant \<open>close\<close> cannot panic, and a removal is complete.\<close>

lemma Dequeue_present:
  assumes inv: "pool_inv p" and at: "players p pid = Some qp"
  obtains heap where "chan_close (MatchCh qp) (match_heap p) = Ret heap"
    and "Dequeue pid p = (p\<lparr>brackets := unbracket (bk_of qp) pid (brackets p),
            match_heap := heap, players := (players p)(pid := None)\<rparr>, Ret True)"
proof -
  have "qp \<in> queued p" using at by (auto simp: queued_def ran_def)
  then obtain heap where "chan_close (MatchCh qp) (match_heap p) = Ret heap"
    using chan_close_open [OF match_chan_open] pool_chan [OF inv] by blast
  then show ?thesis using at by (intro that) (simp_all add: Dequeue_def Let_def)
qed

lemma Dequeue_inv:
  assumes inv: "pool_inv p"
  shows "pool_inv (fst (Dequeue pid p))"
proof (cases "players p pid")
  case None
  with inv show ?thesis by (simp add: Dequeue_missing)
next
  case (Some qp)
  obtain heap where cl: "chan_close (MatchCh qp) (match_heap p) = Ret heap"
    and D: "Dequeue pid p = (p\<lparr>brackets := unbracket (bk_of qp) pid (brackets p),
            match_heap := heap, players := (players p)(pid := None)\<rparr>, Ret True)"
    using Dequeue_present [OF inv Some] by blast
  have q: "queued (fst (Dequeue pid p)) = queued p - {qp}"
    using queued_remove [OF inv Some] by (simp add: D queued_def)
  have "match_chan_ok heap (MatchCh q)" if "q \<in> queued p - {qp}" for q
  proof -
    have "MatchCh q \<noteq> MatchCh qp"
      using that Some pool_inj [OF inv] by (auto simp: inj_on_def queued_def ran_def)
    then show ?thesis
      using chan_close_other [OF cl] pool_chan [OF inv, of q] that by (simp add: match_chan_ok_def)
  qed
  with q show ?thesis
    using inv index_remove [OF pool_index [OF inv] Some] chan_close_ok [OF pool_heap [OF inv] cl]
    by (auto simp: pool_inv_def D inj_on_diff)
qed

lemma Dequeue_players:
  assumes "pool_inv p"
  shows "players (fst (Dequeue pid p)) = (players p)(pid := None) \<and> snd (Dequeue pid p) = Ret (Contains pid p)"
proof (cases "players p pid")
  case None
  then show ?thesis by (simp add: Dequeue_missing Contains_def fun_upd_idem)
next
  case (Some qp)
  obtain heap where "Dequeue pid p = (p\<lparr>brackets := unbracket (bk_of qp) pid (brackets p),
            match_heap := heap, players := (players p)(pid := None)\<rparr>, Ret True)"
    using Dequeue_present [OF assms Some] by blast
  then show ?thesis using Some by (simp add: Contains_def)
qed

interpretation pool_queue: player_queue Dequeue Contains pool_inv
  by unfold_locales (simp_all add: Dequeue_players Dequeue_inv Contains_def)

text \<open>Taking an event out of a channel does not disturb the pool.\<close>

lemma pool_inv_recv:
  assumes "pool_inv p" "chan_recv c (match_heap p) = (r, H)"
  shows "pool_inv (p\<lparr>match_heap := H\<rparr>)"
proof -
  have "match_chan_ok H d" if "match_chan_ok (match_heap p) d" for d
    using that assms(2) by (auto simp: match_chan_ok_def chan_recv_def split: option.splits list.splits)
  then show ?thesis
    using assms chan_recv_ok unfolding pool_inv_def by (auto simp: queued_def)
qed

lemma Size_empty [simp]: "Size NewPool = 0"
  by (simp add: Size_def NewPool_def)

lemma Size_insert:
  assumes "pool_inv p" "players p pid = None" "players p' = (players p)(pid \<mapsto> qp)"
  shows "Size p' = Suc (Size p)"
  using assms index_finite [OF pool_index] by (simp add: Size_def domIff)

lemma Size_remove:
  assumes "pool_inv p" "players p pid = Some qp" "players p' = (players p)(pid := None)"
  shows "Suc (Size p') = Size p"
proof -
  have "finite (dom (players p))" using index_finite [OF pool_index [OF assms(1)]] .
  moreover have "pid \<in> dom (players p)" using assms(2) by blast
  ultimately have "Suc (card (dom (players p) - {pid})) = card (dom (players p))"
    by (rule card_Suc_Diff1)
  then show ?thesis using assms(3) by (simp only: Size_def dom_fun_upd if_True refl)
qed

section \<open>Pools for examples\<close>

text \<open>
  The pool that holds exactly the players of a list: every bracket a full slice, every player with an
  empty channel. The concrete instances of the theorems use it.
\<close>

definition pool_of :: "QueuedPlayer list \<Rightarrow> Pool" where
  "pool_of qs = \<lparr>players = map_of (map (\<lambda>q. (PlayerID q, q)) qs),
     brackets = (\<lambda>bk. let l = filter (\<lambda>q. bk_of q = bk) qs
                      in if l = [] then None else Some \<lparr>elems = l, scap = length l\<rparr>),
     match_heap = \<lparr>cells = (\<lambda>c. if c < length qs then Some \<lparr>ch_cap = 1, ch_buf = [], ch_closed = False\<rparr> else None),
                   next_id = length qs\<rparr>\<rparr>"

definition roster :: "QueuedPlayer list \<Rightarrow> bool" where
  "roster qs \<longleftrightarrow> sorted (map mmr qs) \<and> distinct (map PlayerID qs) \<and> map MatchCh qs = [0..<length qs]"

lemma slice_at_pool_of: "elems (slice_at (brackets (pool_of qs)) bk) = filter (\<lambda>q. bk_of q = bk) qs"
  by (simp add: pool_of_def slice_at_def Let_def)

lemma players_pool_of:
  assumes "distinct (map PlayerID qs)"
  shows "players (pool_of qs) pid = Some q \<longleftrightarrow> q \<in> set qs \<and> PlayerID q = pid"
  using assms by (auto simp: pool_of_def map_of_eq_Some_iff comp_def)

lemma queued_pool_of: "roster qs \<Longrightarrow> queued (pool_of qs) = set qs"
  unfolding queued_def roster_def ran_def using players_pool_of by auto

lemma pool_of_inv:
  assumes r: "roster qs"
  shows "pool_inv (pool_of qs)"
proof -
  have d: "distinct (map PlayerID qs)" and s: "sorted (map mmr qs)"
    and c: "map MatchCh qs = [0..<length qs]"
    using r by (auto simp: roster_def)
  have "index_inv (players (pool_of qs)) (brackets (pool_of qs))"
  proof (rule index_invI)
    show "finite (dom (players (pool_of qs)))" by (simp add: pool_of_def finite_dom_map_of)
    show "PlayerID q = pid" if "players (pool_of qs) pid = Some q" for pid q
      using that players_pool_of [OF d] by blast
    show "q \<in> set (elems (slice_at (brackets (pool_of qs)) (bk_of q)))"
      if "players (pool_of qs) pid = Some q" for pid q
      using that players_pool_of [OF d] by (simp add: slice_at_pool_of)
    show "bracket_ok (players (pool_of qs)) bk (slice_at (brackets (pool_of qs)) bk)" for bk
      unfolding bracket_ok_def slice_at_pool_of
      using sorted_filter [OF s] distinct_map_filter [OF d] players_pool_of [OF d] by simp
    show "elems t \<noteq> []" if "brackets (pool_of qs) bk = Some t" for bk t
      using that by (auto simp: pool_of_def Let_def split: if_splits)
  qed
  moreover have "MatchCh q < length qs" if "q \<in> set qs" for q
    using that c by (metis atLeast0LessThan image_eqI lessThan_iff set_map set_upt)
  moreover have "inj_on MatchCh (set qs)"
    using c by (metis distinct_map distinct_upt)
  ultimately show ?thesis
    unfolding pool_inv_def queued_pool_of [OF r]
    by (auto simp: pool_of_def chans_ok_def match_chan_ok_def split: if_splits)
qed

lemma covers_pool_of: "distinct ks \<Longrightarrow> bk_of ` set qs \<subseteq> set ks \<Longrightarrow> covers ks (brackets (pool_of qs))"
  unfolding covers_def
proof (intro conjI subsetI)
  fix k
  assume "bk_of ` set qs \<subseteq> set ks" "k \<in> dom (brackets (pool_of qs))"
  then obtain q where "q \<in> set qs" "bk_of q = k"
    by (auto simp: pool_of_def Let_def filter_empty_conv split: if_splits)
  with \<open>bk_of ` set qs \<subseteq> set ks\<close> show "k \<in> set ks" by blast
qed

text \<open>Players \<open>n, n+1, ...\<close> with the given ratings, who joined at the given instants.\<close>

definition demo_roster :: "(int \<times> gtime) list \<Rightarrow> QueuedPlayer list" where
  "demo_roster ms = map (\<lambda>(n, m, t). \<lparr>PlayerID = replicate (Suc n) (CHR ''p''), DisplayName = [], MMR = word_of_int m,
                               EnqueuedAt = t, MatchCh = n\<rparr>) (enumerate 0 ms)"

lemma demo_roster_ids: "distinct (map PlayerID (demo_roster ms))"
  unfolding distinct_conv_nth demo_roster_def by (auto simp: nth_enumerate_eq split: prod.splits dest: arg_cong [of _ _ length])

lemma demo_roster_chans: "map MatchCh (demo_roster ms) = [0..<length (demo_roster ms)]"
  by (rule nth_equalityI) (auto simp: demo_roster_def nth_enumerate_eq split: prod.splits)

lemma demo_roster_mmr: "map mmr (demo_roster ms) = map (\<lambda>(m, t). sint (word_of_int m :: i32)) ms"
  by (rule nth_equalityI) (auto simp: demo_roster_def nth_enumerate_eq split: prod.splits)

lemma demo_roster_times: "map EnqueuedAt (demo_roster ms) = map snd ms"
  by (rule nth_equalityI) (auto simp: demo_roster_def nth_enumerate_eq split: prod.splits)

lemma length_demo_roster [simp]: "length (demo_roster ms) = length ms"
  by (simp add: demo_roster_def)

lemma demo_roster_roster: "sorted (map mmr (demo_roster ms)) \<Longrightarrow> roster (demo_roster ms)"
  by (simp add: roster_def demo_roster_ids demo_roster_chans)

lemma roster_of_two: "roster (demo_roster [(1200, 0), (1400, 5)])"
  by (rule demo_roster_roster) code_simp

section \<open>Properties\<close>

text \<open>\<open>insertSorted\<close>, a binary search followed by a shift of the tail, is the textbook insertion
  into a sorted list: the new player goes behind all players of smaller MMR and in front of the
  others, nothing else moves, and the slice stays sorted.\<close>

theorem insertSorted_correct:
  assumes "sorted (map mmr (elems s))"
  shows "elems (insertSorted grow s qp) =
      takeWhile (\<lambda>q. mmr q < mmr qp) (elems s) @ qp # dropWhile (\<lambda>q. mmr q < mmr qp) (elems s)
    \<and> sorted (map mmr (elems (insertSorted grow s qp)))
    \<and> mset (elems (insertSorted grow s qp)) = add_mset qp (mset (elems s))"
  using insertSorted_reference [OF assms] sorted_insertSorted [OF assms] mset_insertSorted [OF assms]
  by blast

theorem insertSorted_correct_witness:
  defines "s \<equiv> \<lparr>elems = demo_roster [(1200, 0), (1400, 5)], scap = 2\<rparr>"
    and "qp \<equiv> hd (demo_roster [(1300, 7)])"
  shows "map mmr (elems (insertSorted (\<lambda>c n. max n (2 * c)) s qp)) = [1200, 1300, 1400]"
proof -
  have "sorted (map mmr (elems s))" unfolding s_def by code_simp
  note ok = insertSorted_correct [OF this, of "\<lambda>c n. max n (2 * c)" qp]
  have "map mmr (takeWhile (\<lambda>q. mmr q < mmr qp) (elems s) @ qp # dropWhile (\<lambda>q. mmr q < mmr qp) (elems s))
      = [1200, 1300, 1400]"
    unfolding s_def qp_def by code_simp
  with ok show ?thesis by simp
qed

text \<open>\<open>removeFromSlice\<close>, a shift in place with a possible move to a smaller array, removes exactly
  the first player with the id and keeps the order of the others; and whenever it changed the slice
  and left players in it, at least a quarter of the remaining capacity (rounded down) is in use,
  as the comment on long-term memory promises.\<close>

theorem removeFromSlice_correct:
  "elems (removeFromSlice s pid) = remove_id pid (elems s)
   \<and> (removeFromSlice s pid = s \<or> elems (removeFromSlice s pid) = []
      \<or> scap (removeFromSlice s pid) div 4 \<le> length (elems (removeFromSlice s pid)))"
  unfolding elems_removeFromSlice
  by (cases "index_of (elems s) pid")
    (auto simp: removeFromSlice_def Let_def index_of_Some elems_removeFromSlice [symmetric] not_less)

text \<open>C25: \<open>Enqueue\<close> on every branch: a queued id is refused and nothing changes; a new id gets a
  player with the given data and a fresh, open, empty channel, is found under its id, and the pool
  grows by one and keeps its invariant.\<close>

theorem Enqueue_correct:
  assumes "pool_inv p"
  shows "(case Enqueue grow now pid name m p of
      (p', Inl e) \<Rightarrow> Contains pid p \<and> p' = p \<and> e = AlreadyQueued pid
    | (p', Inr qp) \<Rightarrow> \<not> Contains pid p \<and> pool_inv p' \<and> players p' = (players p)(pid \<mapsto> qp)
        \<and> PlayerID qp = pid \<and> DisplayName qp = name \<and> MMR qp = m \<and> EnqueuedAt qp = now
        \<and> cells (match_heap p) (MatchCh qp) = None
        \<and> cells (match_heap p') = (cells (match_heap p))(MatchCh qp \<mapsto> \<lparr>ch_cap = 1, ch_buf = [], ch_closed = False\<rparr>)
        \<and> Size p' = Suc (Size p))"
proof (cases "players p pid")
  case (Some q)
  then show ?thesis by (simp add: Enqueue_def Contains_def)
next
  case None
  obtain heap ch where mk: "make_chan 1 (match_heap p) = (heap, ch)" by fastforce
  obtain p' qp where e: "Enqueue grow now pid name m p = (p', Inr qp)"
    and pl: "players p' = (players p)(pid \<mapsto> qp)" and h: "match_heap p' = heap"
    and qp: "qp = \<lparr>PlayerID = pid, DisplayName = name, MMR = m, EnqueuedAt = now, MatchCh = ch\<rparr>"
    using None mk by (simp add: Enqueue_def Let_def)
  have "pool_inv p'" using Enqueue_inv [OF assms, of grow now pid name m] e by simp
  with make_chan_fresh [OF pool_heap [OF assms] mk] Size_insert [OF assms None pl] e pl h qp None
  show ?thesis by (simp add: Contains_def)
qed

theorem Enqueue_correct_witness:
  "pool_inv NewPool \<and> (\<exists>p' qp. Enqueue (\<lambda>c n. n) 3 ''ann'' [] 1500 NewPool = (p', Inr qp) \<and> Size p' = 1)"
  using Enqueue_correct [OF pool_inv_NewPool, where grow = "\<lambda>c n. n" and now = 3 and pid = "''ann''"
      and name = "[]" and m = 1500] pool_inv_NewPool
  by (auto simp: Contains_def NewPool_def split: prod.splits sum.splits) (simp add: Size_def)

text \<open>C26: \<open>Dequeue\<close> never panics on a pool that satisfies the invariant: it reports whether the id was
  queued, removes exactly that id, closes exactly its channel, and keeps the invariant.\<close>

theorem Dequeue_correct:
  assumes "pool_inv p" "Dequeue pid p = (p', r)"
  shows "r = Ret (Contains pid p) \<and> pool_inv p' \<and> players p' = (players p)(pid := None)
    \<and> (\<forall>c. chan_open (match_heap p') c \<longleftrightarrow>
          chan_open (match_heap p) c \<and> (\<forall>qp. players p pid = Some qp \<longrightarrow> c \<noteq> MatchCh qp))"
proof (cases "players p pid")
  case None
  with assms show ?thesis by (simp add: Dequeue_missing Contains_def fun_upd_idem)
next
  case (Some qp)
  then obtain heap where cl: "chan_close (MatchCh qp) (match_heap p) = Ret heap"
    and D: "(p', r) = (p\<lparr>brackets := unbracket (bk_of qp) pid (brackets p),
              match_heap := heap, players := (players p)(pid := None)\<rparr>, Ret True)"
    using Dequeue_present [OF assms(1) Some] assms(2) by metis
  have "chan_open heap c \<longleftrightarrow> chan_open (match_heap p) c \<and> c \<noteq> MatchCh qp" for c
    using chan_close_other [OF cl, of c] chan_close_open [of "match_heap p" "MatchCh qp"] cl
    by (cases "c = MatchCh qp") (auto simp: chan_open_def chan_close_def split: option.splits if_splits)
  with Dequeue_inv [OF assms(1), of pid] D Some assms(2) show ?thesis
    by (auto simp: Contains_def)
qed

theorem Dequeue_correct_witness:
  defines "p \<equiv> pool_of (demo_roster [(1200, 0), (1400, 5)])"
  shows "pool_inv p \<and> snd (Dequeue ''p'' p) = Ret (Contains ''p'' p) \<and> \<not> Contains ''p'' (fst (Dequeue ''p'' p))"
proof -
  have "pool_inv p" unfolding p_def by (rule pool_of_inv [OF roster_of_two])
  with Dequeue_correct [OF this, of "''p''" "fst (Dequeue ''p'' p)" "snd (Dequeue ''p'' p)"]
  show ?thesis by (simp add: Contains_def)
qed

text \<open>C40: cancelling undoes joining: after \<open>Enqueue\<close> of a new id and \<open>Dequeue\<close> of it the index holds
  the same players and every bracket lists the same players in the same order.\<close>

theorem Enqueue_Dequeue_roundtrip:
  assumes "pool_inv p" "\<not> Contains pid p"
  shows "players (fst (Dequeue pid (fst (Enqueue grow now pid name m p)))) = players p
    \<and> elems (slice_at (brackets (fst (Dequeue pid (fst (Enqueue grow now pid name m p))))) bk)
        = elems (slice_at (brackets p) bk)"
proof -
  have None: "players p pid = None" using assms(2) by (simp add: Contains_def)
  obtain heap ch where mk: "make_chan 1 (match_heap p) = (heap, ch)" by fastforce
  define qp where "qp = \<lparr>PlayerID = pid, DisplayName = name, MMR = m, EnqueuedAt = now, MatchCh = ch\<rparr>"
  define p1 where "p1 = fst (Enqueue grow now pid name m p)"
  have b: "brackets p1 = (brackets p)(bk_of qp \<mapsto> insertSorted grow (slice_at (brackets p) (bk_of qp)) qp)"
    and at: "players p1 = (players p)(pid \<mapsto> qp)"
    using None mk by (simp_all add: p1_def qp_def Enqueue_def Let_def)
  have inv: "pool_inv p1" unfolding p1_def by (rule Enqueue_inv [OF assms(1)])
  have "players p1 pid = Some qp" using at by simp
  from Dequeue_present [OF inv this] obtain heap' where
    D: "Dequeue pid p1 = (p1\<lparr>brackets := unbracket (bk_of qp) pid (brackets p1),
          match_heap := heap', players := (players p1)(pid := None)\<rparr>, Ret True)" by metis
  note idx = pool_index [OF assms(1)]
  have skip: "remove_id pid (xs @ qp # ys) = xs @ ys" if "\<forall>q \<in> set xs. PlayerID q \<noteq> pid" for xs ys
    using that by (induction xs) (auto simp: qp_def)
  have "PlayerID q \<noteq> pid" if "q \<in> set (elems (slice_at (brackets p) (bk_of qp)))" for q
    using index_known [OF idx that] None by auto
  then have "\<forall>q \<in> set (takeWhile (\<lambda>q. mmr q < mmr qp) (elems (slice_at (brackets p) (bk_of qp)))). PlayerID q \<noteq> pid"
    using set_takeWhileD by fast
  from skip [OF this] show ?thesis
    using None unfolding p1_def [symmetric] D
    by (simp add: elems_unbracket b at slice_at_upd insertSorted_reference [OF index_sorted [OF idx]] fun_upd_idem)
qed

theorem Enqueue_Dequeue_roundtrip_witness:
  "\<not> Contains ''q'' (pool_of (demo_roster [(1200, 0), (1400, 5)]))
   \<and> players (fst (Dequeue ''q'' (fst (Enqueue (\<lambda>c n. n) 9 ''q'' [] 1300 (pool_of (demo_roster [(1200, 0), (1400, 5)]))))))
     = players (pool_of (demo_roster [(1200, 0), (1400, 5)]))"
proof -
  have no: "\<not> Contains ''q'' (pool_of (demo_roster [(1200, 0), (1400, 5)]))"
    unfolding Contains_def by code_simp
  with Enqueue_Dequeue_roundtrip [OF pool_of_inv [OF roster_of_two] no] show ?thesis by blast
qed

end
