(* ===== verification/Nexus_Extract.thy ===== *)
theory Nexus_Extract
  imports Nexus_Pool
begin

text \<open>
  \<open>Pool.ExtractMatch\<close> of \<open>internal/state/pool.go\<close>: the choice of a bracket, the collection of
  candidates, the sliding window with its score, and the removal of the ten selected players. The
  iteration order of the bracket map and the sorter are parameters, since Go fixes neither the order
  of a map nor the order of equal keys in \<open>sort.Slice\<close>.
\<close>

section \<open>Definitions\<close>

text \<open>The fullest bracket, the first one visited where several are equally full; \<open>-1\<close> for none.\<close>

definition best_bracket :: "int list \<Rightarrow> (int \<rightharpoonup> QueuedPlayer slice) \<Rightarrow> int \<times> nat" where
  "best_bracket ks m =
     fold (\<lambda>bk (bestBK, bestCount).
         let n = length (elems (slice_at m bk))
         in if bestCount < n then (bk, n) else (bestBK, bestCount))
       (range_keys ks m) (-1, 0)"

text \<open>The players of a bracket and of its neighbours, in the order the loop appends them.\<close>

definition candidates_of :: "(int \<rightharpoonup> QueuedPlayer slice) \<Rightarrow> int \<Rightarrow> QueuedPlayer list" where
  "candidates_of m bestBK =
     concat (map (\<lambda>delta. elems (slice_at m (bestBK + delta))
                   @ (if 0 < delta then elems (slice_at m (bestBK - delta)) else []))
               [0..MaxBracketExpansion])"

definition window_score :: "gtime \<Rightarrow> QueuedPlayer list \<Rightarrow> nat \<Rightarrow> float64" where
  "window_score now cs i =
     (let spread = float64_of_int (sint (MMR (cs ! (i + PlayersPerMatch - 1)) - MMR (cs ! i)));
          totalWaitSec = fold (\<lambda>j acc. fadd acc (Seconds (time_Sub now (EnqueuedAt (cs ! j)))))
                           [i..<i + PlayersPerMatch] 0;
          avgWait = fdiv totalWaitSec (float64_of_int (int PlayersPerMatch))
      in fsub spread (fmul avgWait WaitWeight))"

function window_loop :: "gtime \<Rightarrow> QueuedPlayer list \<Rightarrow> nat \<Rightarrow> nat \<Rightarrow> float64 \<Rightarrow> nat \<times> float64" where
  "window_loop now cs i bestStart bestScore =
     (if i + PlayersPerMatch \<le> length cs
      then let score = window_score now cs i
           in if score < bestScore then window_loop now cs (Suc i) i score
              else window_loop now cs (Suc i) bestStart bestScore
      else (bestStart, bestScore))"
  by pat_completeness auto
termination
  by (relation "measure (\<lambda>(now, cs, i, bs, sc). Suc (length cs) - i)") (auto simp: PlayersPerMatch_def)

declare window_loop.simps [simp del]

definition sentinel :: float64 where
  "sentinel = fmul (float64_of_int (MaxMMR + 1)) 10"

definition best_window :: "gtime \<Rightarrow> QueuedPlayer list \<Rightarrow> nat" where
  "best_window now cs = fst (window_loop now cs 0 0 sentinel)"

text \<open>The removal loop: each selected player leaves its bracket and the index.\<close>

definition remove_selected :: "QueuedPlayer list \<Rightarrow> Pool \<Rightarrow> Pool" where
  "remove_selected sel p =
     fold (\<lambda>qp p. p\<lparr>brackets := unbracket (bk_of qp) (PlayerID qp) (brackets p),
                     players := (players p)(PlayerID qp := None)\<rparr>) sel p"

definition ExtractMatch ::
  "((QueuedPlayer \<Rightarrow> QueuedPlayer \<Rightarrow> bool) \<Rightarrow> QueuedPlayer list \<Rightarrow> QueuedPlayer list) \<Rightarrow> int list
    \<Rightarrow> gtime \<Rightarrow> Pool \<Rightarrow> Pool \<times> QueuedPlayer list option" where
  "ExtractMatch srt ks now p =
     (let (bestBK, bestCount) = best_bracket ks (brackets p)
      in if bestBK = -1 then (p, None)
         else
           let candidates = candidates_of (brackets p) bestBK
           in if length candidates < PlayersPerMatch then (p, None)
              else
                let sorted = srt (\<lambda>a b. mmr a < mmr b) candidates;
                    bestStart = best_window now sorted;
                    selected = take PlayersPerMatch (drop bestStart sorted)
                in (remove_selected selected p, Some selected))"


section \<open>The fullest bracket\<close>

definition bracket_len :: "(int \<rightharpoonup> QueuedPlayer slice) \<Rightarrow> int \<Rightarrow> nat" where
  "bracket_len B bk = length (elems (slice_at B bk))"

lemma fold_best:
  assumes "fold (\<lambda>k (b, c). let n = f k in if c < n then (k, n) else (b, c)) xs (b0, c0) = (b, c :: nat)"
  shows "(b, c) = (b0, c0) \<and> (\<forall>k \<in> set xs. f k \<le> c0)
       \<or> b \<in> set xs \<and> c = f b \<and> c0 < c \<and> (\<forall>k \<in> set xs. f k \<le> c)"
  using assms
proof (induction xs arbitrary: b0 c0)
  case (Cons x xs)
  show ?case
  proof (cases "c0 < f x")
    case True
    with Cons.prems have "fold (\<lambda>k (b, c). let n = f k in if c < n then (k, n) else (b, c)) xs (x, f x) = (b, c)"
      by simp
    from Cons.IH [OF this] True show ?thesis by auto
  next
    case False
    with Cons.prems have "fold (\<lambda>k (b, c). let n = f k in if c < n then (k, n) else (b, c)) xs (b0, c0) = (b, c)"
      by simp
    from Cons.IH [OF this] False show ?thesis by auto
  qed
qed simp

lemma best_bracket_fold:
  "best_bracket ks B = fold (\<lambda>k (b, c). let n = bracket_len B k in if c < n then (k, n) else (b, c))
     (range_keys ks B) (-1, 0)"
  by (simp add: best_bracket_def bracket_len_def)

lemma bracketKey_nonneg: "0 \<le> bracketKey m"
  by (simp add: bracketKey_def BracketSize_def pos_imp_zdiv_nonneg_iff)

lemma index_key_nonneg:
  assumes "index_inv P B" "B bk = Some s"
  shows "0 \<le> bk"
proof -
  obtain q where "q \<in> set (elems s)" using index_nonempty [OF assms] by (cases "elems s") auto
  then have "bk_of q = bk" using index_known [OF assms(1), of q bk] assms(2) by simp
  then show ?thesis using bracketKey_nonneg [of "MMR q"] by simp
qed

lemma best_bracket_spec:
  assumes inv: "index_inv P B" and ks: "covers ks B" and best: "best_bracket ks B = (bk, n)"
  shows "bk = -1 \<longleftrightarrow> B = Map.empty"
    and "bk \<noteq> -1 \<Longrightarrow> bk \<in> dom B \<and> 0 \<le> bk \<and> n = bracket_len B bk \<and> (\<forall>k. bracket_len B k \<le> n)"
proof -
  note fb = fold_best [OF best [unfolded best_bracket_fold], unfolded set_range_keys [OF ks]]
  have pos: "0 < bracket_len B k" if "k \<in> dom B" for k
    using that index_nonempty [OF inv] by (auto simp: bracket_len_def)
  have zero: "bracket_len B k = 0" if "k \<notin> dom B" for k
    using that by (auto simp: bracket_len_def slice_at_def domIff)
  have nonneg: "0 \<le> k" if "k \<in> dom B" for k using that index_key_nonneg [OF inv] by blast
  show "bk = -1 \<longleftrightarrow> B = Map.empty"
    using fb pos nonneg [of bk] by (fastforce simp: dom_eq_empty_conv [symmetric] simp del: dom_eq_empty_conv)
  show "bk \<in> dom B \<and> 0 \<le> bk \<and> n = bracket_len B bk \<and> (\<forall>k. bracket_len B k \<le> n)" if "bk \<noteq> -1"
    using fb that nonneg zero by (metis le0 prod.inject)
qed

section \<open>Candidates\<close>

lemma candidates_unfold:
  "candidates_of B bk = elems (slice_at B bk) @ elems (slice_at B (bk + 1)) @ elems (slice_at B (bk - 1))
     @ elems (slice_at B (bk + 2)) @ elems (slice_at B (bk - 2))"
  by (simp add: candidates_of_def MaxBracketExpansion_def upto.simps)

definition nearby :: "(string \<rightharpoonup> QueuedPlayer) \<Rightarrow> int \<Rightarrow> QueuedPlayer set" where
  "nearby P bk = {qp \<in> ran P. \<bar>bk_of qp - bk\<bar> \<le> MaxBracketExpansion}"

lemma set_candidates:
  assumes "index_inv P B"
  shows "set (candidates_of B bk) = nearby P bk"
  unfolding candidates_unfold set_append index_slice_set [OF assms] nearby_def MaxBracketExpansion_def
  by auto

lemma distinct_candidates:
  assumes inv: "index_inv P B"
  shows "distinct (map PlayerID (candidates_of B bk))"
proof -
  have disj: "PlayerID x \<noteq> PlayerID y"
    if "x \<in> set (elems (slice_at B i))" "y \<in> set (elems (slice_at B j))" "i \<noteq> j" for x y i j
    using index_known [OF inv that(1)] index_known [OF inv that(2)] that(3) by (metis option.inject)
  have app: "distinct (map PlayerID (xs @ ys))"
    if "distinct (map PlayerID xs)" "distinct (map PlayerID ys)"
      "\<And>x y. x \<in> set xs \<Longrightarrow> y \<in> set ys \<Longrightarrow> PlayerID x \<noteq> PlayerID y" for xs ys
    using that by force
  show ?thesis
    unfolding candidates_unfold
    by (intro app index_distinct [OF inv]) (auto intro: disj [THEN notE])
qed

section \<open>The sliding window\<close>

definition is_window :: "QueuedPlayer list \<Rightarrow> nat \<Rightarrow> bool" where
  "is_window cs i \<longleftrightarrow> i + PlayersPerMatch \<le> length cs"

lemma window_loop_spec:
  assumes "window_loop now cs i bs sc = (r, s)"
  shows "(r, s) = (bs, sc) \<and> (\<forall>j \<ge> i. is_window cs j \<longrightarrow> sc \<le> window_score now cs j)
       \<or> i \<le> r \<and> is_window cs r \<and> s = window_score now cs r \<and> s < sc
         \<and> (\<forall>j \<ge> i. is_window cs j \<longrightarrow> s \<le> window_score now cs j)
         \<and> (\<forall>j \<ge> i. j < r \<longrightarrow> s < window_score now cs j)"
  using assms
proof (induction now cs i bs sc rule: window_loop.induct)
  case (1 now cs i bs sc)
  note unf = window_loop.simps [of now cs i bs sc]
  have split: "(\<forall>j \<ge> i. Q j) \<longleftrightarrow> Q i \<and> (\<forall>j \<ge> Suc i. Q j)" for Q
    by (metis Suc_leD le_refl not_less_eq_eq le_antisym)
  consider "\<not> is_window cs i" | "is_window cs i" "window_score now cs i < sc"
    | "is_window cs i" "\<not> window_score now cs i < sc" by blast
  then show ?case
  proof cases
    case 1
    then have "\<not> is_window cs j" if "i \<le> j" for j using that by (simp add: is_window_def)
    with 1 "1.prems" unf show ?thesis by (simp add: is_window_def)
  next
    case 2
    with "1.prems" unf have "window_loop now cs (Suc i) i (window_score now cs i) = (r, s)"
      by (simp add: is_window_def)
    from "1.IH"(1) [OF _ refl _ this] 2 show ?thesis unfolding split [of "\<lambda>j. _ j \<longrightarrow> _ j"]
      by (auto simp: is_window_def)
  next
    case 3
    with "1.prems" unf have "window_loop now cs (Suc i) bs sc = (r, s)"
      by (simp add: is_window_def)
    from "1.IH"(2) [OF _ refl _ this] 3 show ?thesis unfolding split [of "\<lambda>j. _ j \<longrightarrow> _ j"]
      by (auto simp: is_window_def)
  qed
qed

section \<open>Scores\<close>

text \<open>What the gateway lets into the pool: an MMR of \<open>[0, MaxMMR]\<close>, and no instant of the future.\<close>

definition valid_mmr :: "QueuedPlayer \<Rightarrow> bool" where
  "valid_mmr qp \<longleftrightarrow> 0 \<le> mmr qp \<and> mmr qp \<le> MaxMMR"

definition window_spread :: "QueuedPlayer list \<Rightarrow> nat \<Rightarrow> int" where
  "window_spread cs i = mmr (cs ! (i + PlayersPerMatch - 1)) - mmr (cs ! i)"

definition total_wait :: "gtime \<Rightarrow> QueuedPlayer list \<Rightarrow> nat \<Rightarrow> float64" where
  "total_wait now cs i =
     fold (\<lambda>j acc. fadd acc (Seconds (time_Sub now (EnqueuedAt (cs ! j))))) [i..<i + PlayersPerMatch] 0"

definition wait_bonus :: "gtime \<Rightarrow> QueuedPlayer list \<Rightarrow> nat \<Rightarrow> float64" where
  "wait_bonus now cs i = fmul (fdiv (total_wait now cs i) (float64_of_int (int PlayersPerMatch))) WaitWeight"

lemma sint_minus_i32:
  fixes a b :: i32
  assumes "- (2 ^ 31) \<le> sint a - sint b" "sint a - sint b < 2 ^ 31"
  shows "sint (a - b) = sint a - sint b"
  using assms by (simp add: sint_word_ariths signed_take_bit_int_eq_self)

lemma window_score_split:
  assumes "is_window cs i" "\<forall>q \<in> set cs. valid_mmr q"
  shows "window_score now cs i = fl (of_int (window_spread cs i) - wait_bonus now cs i)
     \<and> \<bar>window_spread cs i\<bar> \<le> MaxMMR"
proof -
  have "cs ! i \<in> set cs" "cs ! (i + PlayersPerMatch - 1) \<in> set cs"
    using assms(1) by (auto simp: is_window_def PlayersPerMatch_def)
  then have v: "valid_mmr (cs ! i)" "valid_mmr (cs ! (i + PlayersPerMatch - 1))"
    using assms(2) by auto
  then have "sint (MMR (cs ! (i + PlayersPerMatch - 1)) - MMR (cs ! i)) = window_spread cs i"
    by (simp add: window_spread_def sint_minus_i32 valid_mmr_def MaxMMR_def)
  moreover have "\<bar>window_spread cs i\<bar> \<le> MaxMMR"
    using v by (auto simp: window_spread_def valid_mmr_def)
  ultimately show ?thesis
    by (simp add: window_score_def Let_def total_wait_def [symmetric] wait_bonus_def fsub_def
        float64_of_int_def fl_of_int MaxMMR_def)
qed

lemma fold_fadd_bounds:
  assumes "\<forall>j \<in> set js. 0 \<le> f j \<and> f j \<le> of_int b" "0 \<le> acc" "acc \<le> of_int (b * n)"
    and "0 \<le> b" "0 \<le> n" "b * (n + int (length js)) < 2 ^ 53"
  shows "0 \<le> fold (\<lambda>j acc. fadd acc (f j)) js acc
     \<and> fold (\<lambda>j acc. fadd acc (f j)) js acc \<le> of_int (b * (n + int (length js)))"
  using assms
proof (induction js arbitrary: acc n)
  case (Cons j js)
  have le: "b * (n + 1) \<le> b * (n + int (length (j # js)))"
    using Cons.prems(4) by (intro mult_left_mono) auto
  have "acc + f j \<le> of_int (b * (n + 1))"
    using Cons.prems(1,3) by (simp add: algebra_simps)
  then have "fadd acc (f j) \<le> of_int (b * (n + 1))"
    using fl_mono [of "acc + f j" "of_int (b * (n + 1))"] fl_of_int [of "b * (n + 1)"] le Cons.prems(4-6)
    unfolding fadd_def by simp
  moreover have "0 \<le> fadd acc (f j)"
    using Cons.prems(1,2) by (simp add: fadd_def fl_nonneg)
  ultimately show ?case
    using Cons.IH [of "fadd acc (f j)" "n + 1"] Cons.prems by (simp add: algebra_simps)
qed simp

lemma Seconds_nonneg_eq:
  assumes "0 \<le> d" "d < 2 ^ 63"
  shows "Seconds d = fl (of_int (d div 10 ^ 9) + fl (of_int (d mod 10 ^ 9) / 10 ^ 9))"
proof -
  have "sgn d * (\<bar>d\<bar> div 10 ^ 9) = d div 10 ^ 9" "sgn d * (\<bar>d\<bar> mod 10 ^ 9) = d mod 10 ^ 9"
    using assms(1) by (cases "d = 0"; simp)+
  moreover have "fl (of_int (d div 10 ^ 9)) = of_int (d div 10 ^ 9)"
    using assms by (intro fl_of_int) simp
  moreover have "fl (of_int (d mod 10 ^ 9)) = of_int (d mod 10 ^ 9)"
    by (intro fl_of_int) (simp add: abs_of_nonneg order_less_trans [OF pos_mod_bound])
  ultimately show ?thesis
    by (simp only: Seconds_def Let_def fadd_def fdiv_def float64_of_int_def)
qed

lemma Seconds_bound:
  assumes d: "0 \<le> d" "d < 2 ^ 63"
  shows "Seconds d \<le> of_int (2 ^ 34)"
proof -
  have "d div 10 ^ 9 \<le> 9223372036" using d by simp
  then have sec: "(of_int (d div 10 ^ 9) :: rat) \<le> of_int 9223372036" by (simp only: of_int_le_iff)
  have "(of_int (d mod 10 ^ 9) :: rat) < of_int (10 ^ 9)" by (simp only: of_int_less_iff) simp
  then have "(of_int (d mod 10 ^ 9) :: rat) / 10 ^ 9 \<le> of_int 1" by simp
  then have "fl (of_int (d mod 10 ^ 9) / 10 ^ 9) \<le> of_int 1"
    by (rule fl_le_int) simp
  with sec have "of_int (d div 10 ^ 9) + fl (of_int (d mod 10 ^ 9) / 10 ^ 9) \<le> of_int (2 ^ 34)"
    by simp
  from fl_mono [OF this] show ?thesis
    using fl_of_int [of "2 ^ 34"] by (simp add: Seconds_nonneg_eq [OF d])
qed

lemma wait_bonus_bounds:
  assumes "is_window cs i" "\<forall>q \<in> set cs. EnqueuedAt q \<le> now"
  shows "0 \<le> wait_bonus now cs i \<and> wait_bonus now cs i \<le> of_int (2 ^ 37)"
proof -
  let ?f = "\<lambda>j. Seconds (time_Sub now (EnqueuedAt (cs ! j)))"
  have "0 \<le> ?f j \<and> ?f j \<le> of_int (2 ^ 34)" if "j \<in> set [i..<i + PlayersPerMatch]" for j
  proof -
    have "EnqueuedAt (cs ! j) \<le> now" using that assms by (auto simp: is_window_def)
    then have "0 \<le> time_Sub now (EnqueuedAt (cs ! j))" "time_Sub now (EnqueuedAt (cs ! j)) < 2 ^ 63"
      by (auto simp: time_Sub_def)
    then show ?thesis using Seconds_nonneg Seconds_bound by blast
  qed
  then have "0 \<le> total_wait now cs i \<and> total_wait now cs i \<le> of_int (2 ^ 34 * (0 + int PlayersPerMatch))"
    unfolding total_wait_def
    using fold_fadd_bounds [of "[i..<i + PlayersPerMatch]" ?f "2 ^ 34" 0 0]
    by (simp add: PlayersPerMatch_def)
  then have "0 \<le> total_wait now cs i / 10" "total_wait now cs i / 10 \<le> of_int (2 ^ 34)"
    by (simp_all add: PlayersPerMatch_def)
  then have "0 \<le> fl (total_wait now cs i / 10)" "fl (total_wait now cs i / 10) \<le> of_int (2 ^ 34)"
    using fl_nonneg fl_le_int [of "total_wait now cs i / 10" "2 ^ 34"] by auto
  then have "0 \<le> fl (total_wait now cs i / 10) * 5" "fl (total_wait now cs i / 10) * 5 \<le> of_int (2 ^ 37)"
    by simp_all
  then show ?thesis
    using fl_nonneg [of "fl (total_wait now cs i / 10) * 5"]
      fl_le_int [of "fl (total_wait now cs i / 10) * 5" "2 ^ 37"] fl_of_int [of 10]
    by (simp add: wait_bonus_def fmul_def fdiv_def float64_of_int_def WaitWeight_def PlayersPerMatch_def)
qed

lemma sentinel_eq: "sentinel = 100010"
  using fl_of_int [of 10001] fl_of_int [of 100010]
  by (simp add: sentinel_def fmul_def float64_of_int_def MaxMMR_def)

lemma score_below_sentinel:
  assumes "is_window cs i" "\<forall>q \<in> set cs. valid_mmr q \<and> EnqueuedAt q \<le> now"
  shows "window_score now cs i < sentinel"
proof -
  have s: "window_score now cs i = fl (of_int (window_spread cs i) - wait_bonus now cs i)"
    and b: "\<bar>window_spread cs i\<bar> \<le> MaxMMR"
    using window_score_split [OF assms(1)] assms(2) by auto
  have "of_int (window_spread cs i) \<le> (of_int MaxMMR :: rat)" using b by (simp only: of_int_le_iff)
  then have "of_int (window_spread cs i) - wait_bonus now cs i \<le> of_int MaxMMR"
    using wait_bonus_bounds [OF assms(1), of now] assms(2) by simp
  from fl_mono [OF this] show ?thesis
    using s fl_of_int [of MaxMMR] by (simp add: sentinel_eq MaxMMR_def)
qed

text \<open>Whatever the scores, the window lies inside the candidates.\<close>

lemma best_window_inside:
  assumes "PlayersPerMatch \<le> length cs"
  shows "is_window cs (best_window now cs)"
proof -
  obtain r s where w: "window_loop now cs 0 0 sentinel = (r, s)" by fastforce
  from window_loop_spec [OF this] assms show ?thesis
    by (auto simp: best_window_def w is_window_def)
qed

lemma best_window_minimal:
  assumes "PlayersPerMatch \<le> length cs" "\<forall>q \<in> set cs. valid_mmr q \<and> EnqueuedAt q \<le> now"
    and "is_window cs j"
  shows "window_score now cs (best_window now cs) \<le> window_score now cs j"
    and "j < best_window now cs \<Longrightarrow> window_score now cs (best_window now cs) < window_score now cs j"
proof -
  obtain r s where w: "window_loop now cs 0 0 sentinel = (r, s)" by fastforce
  have "window_score now cs j < sentinel" using score_below_sentinel assms by blast
  with window_loop_spec [OF w] assms(3)
  have "s = window_score now cs r" "\<forall>j. is_window cs j \<longrightarrow> s \<le> window_score now cs j"
    "\<forall>j<r. s < window_score now cs j" by force+
  then show "window_score now cs (best_window now cs) \<le> window_score now cs j"
    "j < best_window now cs \<Longrightarrow> window_score now cs (best_window now cs) < window_score now cs j"
    using assms(3) by (auto simp: best_window_def w)
qed

text \<open>Where everyone has waited equally long, the choice is by spread alone.\<close>

lemma best_window_tightest:
  assumes "PlayersPerMatch \<le> length cs" "\<forall>q \<in> set cs. valid_mmr q \<and> EnqueuedAt q = t" "t \<le> now"
    and "is_window cs j"
  shows "window_spread cs (best_window now cs) \<le> window_spread cs j"
proof (rule ccontr)
  let ?b = "best_window now cs"
  assume "\<not> window_spread cs ?b \<le> window_spread cs j"
  then have step: "(of_int (window_spread cs j + 1) :: rat) \<le> of_int (window_spread cs ?b)"
    by (simp only: of_int_le_iff)
  have wb: "is_window cs ?b" using best_window_inside assms(1) .
  have bonus: "wait_bonus now cs i = wait_bonus now cs ?b" if "is_window cs i" for i
  proof -
    have "total_wait now cs k = ((\<lambda>acc. fadd acc (Seconds (time_Sub now t))) ^^ PlayersPerMatch) 0"
      if "is_window cs k" for k
      unfolding total_wait_def using that assms(2)
      by (subst fold_same [where c = "Seconds (time_Sub now t)"]) (auto simp: is_window_def)
    then show ?thesis using that wb by (simp add: wait_bonus_def)
  qed
  have vq: "\<forall>q \<in> set cs. valid_mmr q" and tq: "\<forall>q \<in> set cs. EnqueuedAt q \<le> now"
    using assms(2,3) by auto
  note sj = window_score_split [OF assms(4) vq, of now] and sb = window_score_split [OF wb vq, of now]
  have small: "\<bar>of_int (window_spread cs i) - wait_bonus now cs ?b\<bar> < 2 powi 40" if "is_window cs i" for i
  proof -
    have "\<bar>window_spread cs i\<bar> \<le> MaxMMR" using window_score_split [OF that vq] by blast
    then have "\<bar>of_int (window_spread cs i) :: rat\<bar> \<le> of_int MaxMMR"
      by (simp only: of_int_abs [symmetric] of_int_le_iff)
    then show ?thesis
      using wait_bonus_bounds [OF wb tq] by (simp add: MaxMMR_def power_int_def abs_le_iff abs_less_iff)
  qed
  have "fl (of_int (window_spread cs j) - wait_bonus now cs ?b) < fl (of_int (window_spread cs ?b) - wait_bonus now cs ?b)"
    using step by (intro fl_strict small assms(4) wb) simp
  moreover have "window_score now cs ?b \<le> window_score now cs j"
    using best_window_minimal(1) assms by (metis order_refl)
  ultimately show False using sj sb bonus [OF assms(4)] by simp
qed

text \<open>Some two of \<open>n\<close> elements of a list stand at least \<open>n - 1\<close> apart.\<close>

lemma spread_out_indices:
  assumes "distinct cs" "T \<subseteq> set cs" "card T = n" "0 < n"
  obtains a b where "a + n \<le> Suc b" "b < length cs" "cs ! a \<in> T" "cs ! b \<in> T"
proof -
  define I where "I = {i. i < length cs \<and> cs ! i \<in> T}"
  have fin: "finite I" by (simp add: I_def)
  have "(\<lambda>i. cs ! i) ` I = T"
    using assms(2) by (auto simp: I_def in_set_conv_nth image_iff subset_iff)
  moreover have "inj_on (\<lambda>i. cs ! i) I"
    using assms(1) by (auto simp: I_def inj_on_def nth_eq_iff_index_eq)
  ultimately have card: "card I = n" using assms(3) by (metis card_image)
  then have ne: "I \<noteq> {}" using assms(4) by auto
  have "I \<subseteq> {Min I..Max I}" using fin by auto
  then have "card I \<le> card {Min I..Max I}" by (intro card_mono) auto
  then have "Min I + n \<le> Suc (Max I)" using card assms(4) by simp
  moreover have "Min I \<in> I" "Max I \<in> I" using fin ne by auto
  ultimately show ?thesis by (intro that) (auto simp: I_def)
qed

section \<open>Removing the selection\<close>

definition remove_one :: "QueuedPlayer \<Rightarrow> Pool \<Rightarrow> Pool" where
  "remove_one qp p = p\<lparr>brackets := unbracket (bk_of qp) (PlayerID qp) (brackets p),
                      players := (players p)(PlayerID qp := None)\<rparr>"

lemma remove_selected_simps [simp]:
  "remove_selected [] p = p"
  "remove_selected (qp # sel) p = remove_selected sel (remove_one qp p)"
  by (simp_all add: remove_selected_def remove_one_def)

lemma remove_one_inv:
  assumes "pool_inv p" "qp \<in> queued p"
  shows "pool_inv (remove_one qp p) \<and> queued (remove_one qp p) = queued p - {qp}
       \<and> Suc (Size (remove_one qp p)) = Size p"
proof -
  have at: "players p (PlayerID qp) = Some qp" using assms queued_id by blast
  have q: "queued (remove_one qp p) = queued p - {qp}"
    using queued_remove [OF assms(1) at] by (simp add: remove_one_def queued_def)
  moreover have "pool_inv (remove_one qp p)"
    using assms(1) index_remove [OF pool_index [OF assms(1)] at]
    unfolding pool_inv_def q by (auto simp: remove_one_def inj_on_diff)
  moreover have "Suc (Size (remove_one qp p)) = Size p"
    using Size_remove [OF assms(1) at] by (simp add: remove_one_def)
  ultimately show ?thesis by blast
qed

lemma remove_selected_spec:
  assumes "pool_inv p" "distinct (map PlayerID sel)" "set sel \<subseteq> queued p"
  shows "pool_inv (remove_selected sel p)
     \<and> players (remove_selected sel p) = (players p) |` (- PlayerID ` set sel)
     \<and> match_heap (remove_selected sel p) = match_heap p
     \<and> queued (remove_selected sel p) = queued p - set sel
     \<and> Size (remove_selected sel p) + length sel = Size p"
  using assms
proof (induction sel arbitrary: p)
  case Nil
  then show ?case by simp
next
  case (Cons qp sel)
  note one = remove_one_inv [of p qp]
  have "set sel \<subseteq> queued (remove_one qp p)" using one Cons.prems by force
  with Cons.IH [of "remove_one qp p"] one Cons.prems
  show ?case by (auto simp: remove_one_def restrict_map_def fun_eq_iff)
qed

lemma remove_selected_index:
  assumes "index_inv (players p) (brackets p)" "distinct (map PlayerID sel)" "set sel \<subseteq> ran (players p)"
  shows "index_inv (players (remove_selected sel p)) (brackets (remove_selected sel p))"
  using assms
proof (induction sel arbitrary: p)
  case (Cons qp sel)
  have at: "players p (PlayerID qp) = Some qp" using index_ran [OF Cons.prems(1)] Cons.prems(3) by simp
  let ?p = "remove_one qp p"
  have idx: "index_inv (players ?p) (brackets ?p)"
    using index_remove [OF Cons.prems(1) at] by (simp add: remove_one_def)
  have "set sel \<subseteq> ran (players ?p)"
  proof
    fix q assume q: "q \<in> set sel"
    then have "players p (PlayerID q) = Some q" using index_ran [OF Cons.prems(1)] Cons.prems(3) by auto
    moreover have "PlayerID q \<noteq> PlayerID qp" using Cons.prems(2) q by (auto simp: image_iff)
    ultimately show "q \<in> ran (players ?p)" by (auto simp: remove_one_def ran_def)
  qed
  then show ?case using Cons.IH [OF idx] Cons.prems(2) by simp
qed simp

section \<open>The extracted match\<close>

text \<open>
  The client of the sorting contract: everything below holds for every sorter that keeps it, so for
  \<open>sort.Slice\<close> whatever it does with equal keys.
\<close>

locale match_sort = go_sort srt
  for srt :: "(QueuedPlayer \<Rightarrow> QueuedPlayer \<Rightarrow> bool) \<Rightarrow> QueuedPlayer list \<Rightarrow> QueuedPlayer list"
begin

lemma extract_index_cases:
  assumes idx: "index_inv (players p) (brackets p)" and ks: "covers ks (brackets p)"
  obtains (Empty) "players p = Map.empty" "ExtractMatch srt ks now p = (p, None)"
  | (Few) bk n where "best_bracket ks (brackets p) = (bk, n)" "bk \<in> dom (brackets p)"
      "card (nearby (players p) bk) < PlayersPerMatch" "ExtractMatch srt ks now p = (p, None)"
  | (Match) bk n cs where "best_bracket ks (brackets p) = (bk, n)" "bk \<in> dom (brackets p)"
      "cs = srt (\<lambda>a b. mmr a < mmr b) (candidates_of (brackets p) bk)"
      "set cs = nearby (players p) bk" "distinct (map PlayerID cs)" "sorted (map mmr cs)"
      "PlayersPerMatch \<le> length cs" "length cs = card (nearby (players p) bk)"
      "ExtractMatch srt ks now p =
         (remove_selected (take PlayersPerMatch (drop (best_window now cs) cs)) p,
          Some (take PlayersPerMatch (drop (best_window now cs) cs)))"
proof -
  obtain bk n where b: "best_bracket ks (brackets p) = (bk, n)" by fastforce
  note spec = best_bracket_spec [OF idx ks b]
  show thesis
  proof (cases "bk = -1")
    case True
    then have "players p = Map.empty"
      using spec(1) index_member [OF idx] by (fastforce simp: slice_at_def)
    with True b show thesis by (intro Empty) (simp_all add: ExtractMatch_def)
  next
    case False
    let ?cs = "candidates_of (brackets p) bk"
    let ?srt = "srt (\<lambda>a b. mmr a < mmr b) ?cs"
    have dc: "distinct (map PlayerID ?cs)" using distinct_candidates [OF idx] .
    then have len: "length ?cs = card (nearby (players p) bk)"
      using set_candidates [OF idx, of bk] by (metis distinct_card distinct_map)
    show thesis
    proof (cases "length ?cs < PlayersPerMatch")
      case True
      with False b spec len show thesis by (intro Few) (simp_all add: ExtractMatch_def)
    next
      case more: False
      show thesis
        using False b spec len more dc set_candidates [OF idx, of bk]
        by (intro Match [OF b _ refl]) (simp_all add: ExtractMatch_def Let_def distinct_map_srt sorted_srt)
    qed
  qed
qed

lemma extract_cases:
  assumes inv: "pool_inv p" and ks: "covers ks (brackets p)"
  obtains (Empty) "players p = Map.empty" "ExtractMatch srt ks now p = (p, None)"
  | (Few) bk n where "best_bracket ks (brackets p) = (bk, n)" "bk \<in> dom (brackets p)"
      "card (nearby (players p) bk) < PlayersPerMatch" "ExtractMatch srt ks now p = (p, None)"
  | (Match) bk n cs where "best_bracket ks (brackets p) = (bk, n)" "bk \<in> dom (brackets p)"
      "cs = srt (\<lambda>a b. mmr a < mmr b) (candidates_of (brackets p) bk)"
      "set cs = nearby (players p) bk" "distinct (map PlayerID cs)" "sorted (map mmr cs)"
      "PlayersPerMatch \<le> length cs" "length cs = card (nearby (players p) bk)"
      "ExtractMatch srt ks now p =
         (remove_selected (take PlayersPerMatch (drop (best_window now cs) cs)) p,
          Some (take PlayersPerMatch (drop (best_window now cs) cs)))"
proof -
  show thesis by (rule extract_index_cases [OF pool_index [OF inv] ks]) (fact Empty Few Match)+
qed

lemma extract_index:
  assumes "index_inv (players p) (brackets p)" "covers ks (brackets p)" "ExtractMatch srt ks now p = (p', out)"
  shows "index_inv (players p') (brackets p')"
proof (cases rule: extract_index_cases [OF assms(1,2), of now, case_names Empty Few Match])
  case (Match bk n cs)
  let ?sel = "take PlayersPerMatch (drop (best_window now cs) cs)"
  have "set ?sel \<subseteq> ran (players p)"
    using Match(4) by (auto simp: nearby_def dest!: in_set_takeD in_set_dropD)
  moreover have "distinct (map PlayerID ?sel)"
    using Match(5) by (simp add: take_map [symmetric] drop_map [symmetric])
  ultimately show ?thesis using remove_selected_index [OF assms(1)] Match(9) assms(3) by simp
qed (use assms in simp_all)

lemma extract_success:
  assumes inv: "pool_inv p" and ks: "covers ks (brackets p)"
    and ex: "ExtractMatch srt ks now p = (p', Some sel)"
  shows "length sel = PlayersPerMatch \<and> distinct (map PlayerID sel) \<and> set sel \<subseteq> queued p
    \<and> sorted (map mmr sel) \<and> (\<exists>bk. set sel \<subseteq> nearby (players p) bk)
    \<and> pool_inv p' \<and> players p' = (players p) |` (- PlayerID ` set sel)
    \<and> match_heap p' = match_heap p \<and> queued p' = queued p - set sel
    \<and> Size p' + PlayersPerMatch = Size p"
  using inv ks
proof (cases rule: extract_cases [of p ks now])
  case (Match bk n cs)
  have sel: "sel = take PlayersPerMatch (drop (best_window now cs) cs)" and p': "p' = remove_selected sel p"
    using Match(9) ex by auto
  have w: "is_window cs (best_window now cs)" using best_window_inside [OF Match(7)] .
  then have len: "length sel = PlayersPerMatch" by (simp add: sel is_window_def)
  have sub: "set sel \<subseteq> nearby (players p) bk"
    unfolding Match(4) [symmetric] sel by (meson order_trans set_drop_subset set_take_subset)
  have d: "distinct (map PlayerID sel)"
    using Match(5) by (simp add: sel take_map [symmetric] drop_map [symmetric])
  have srt: "sorted (map mmr sel)"
    using Match(6) by (simp add: sel take_map [symmetric] drop_map [symmetric] sorted_wrt_take sorted_wrt_drop)
  have q: "set sel \<subseteq> queued p" using sub by (auto simp: nearby_def queued_def)
  from remove_selected_spec [OF inv d q] len sub d srt q show ?thesis unfolding p' by auto
qed (use ex in simp_all)

lemma extract_failure:
  "pool_inv p \<Longrightarrow> covers ks (brackets p) \<Longrightarrow> ExtractMatch srt ks now p = (p', None) \<Longrightarrow> p' = p"
  by (cases rule: extract_cases [of p ks now]) auto

lemma extract_inv:
  assumes "pool_inv p" "covers ks (brackets p)"
  shows "pool_inv (fst (ExtractMatch srt ks now p))"
proof -
  obtain p' r where ex: "ExtractMatch srt ks now p = (p', r)" by fastforce
  show ?thesis
    using extract_success [OF assms, of now p'] extract_failure [OF assms, of now p'] assms(1) ex
    by (cases r) auto
qed

text \<open>When does it succeed? A full bracket is enough, and so is a large pool of valid players.\<close>

lemma extract_full_bracket:
  assumes inv: "pool_inv p" and ks: "covers ks (brackets p)"
    and full: "PlayersPerMatch \<le> bracket_len (brackets p) k"
  obtains p' sel where "ExtractMatch srt ks now p = (p', Some sel)"
  using inv ks
proof (cases rule: extract_cases [of p ks now])
  note idx = pool_index [OF inv]
  have some: "0 < bracket_len (brackets p) k" using full by (simp add: PlayersPerMatch_def)
  case Empty
  then have "queued p = {}" by (simp add: queued_def)
  with some index_slice_set [OF idx, of k] show ?thesis by (auto simp: bracket_len_def queued_def)
next
  note idx = pool_index [OF inv]
  case (Few bk n)
  have "bk \<noteq> -1" using index_key_nonneg [OF idx, of bk] Few(2) by auto
  then have "bracket_len (brackets p) k \<le> bracket_len (brackets p) bk"
    using best_bracket_spec(2) [OF idx ks Few(1)] by blast
  also have "\<dots> = card (set (elems (slice_at (brackets p) bk)))"
    using index_distinct [OF idx, of bk] by (simp add: bracket_len_def distinct_map distinct_card)
  also have "\<dots> \<le> card (nearby (players p) bk)"
  proof (rule card_mono)
    show "finite (nearby (players p) bk)"
      using set_candidates [OF idx, of bk] by (metis List.finite_set)
    show "set (elems (slice_at (brackets p) bk)) \<subseteq> nearby (players p) bk"
      by (auto simp: index_slice_set [OF idx] nearby_def MaxBracketExpansion_def)
  qed
  finally show ?thesis using full Few(3) by simp
qed (use that in blast)

end

text \<open>Ids count players, so the size of the pool is the number of queued players.\<close>

lemma Size_queued:
  assumes "pool_inv p"
  shows "Size p = card (queued p)"
proof -
  have "dom (players p) = PlayerID ` queued p"
    using index_id [OF pool_index [OF assms]] by (force simp: queued_def ran_def)
  moreover have "inj_on PlayerID (queued p)"
    using queued_id [OF assms] by (metis inj_onI option.inject)
  ultimately show ?thesis by (simp add: Size_def card_image)
qed

lemma valid_bracket: "valid_mmr q \<Longrightarrow> bk_of q \<in> {0..20}"
  by (auto simp: valid_mmr_def bracketKey_def pool_consts pos_imp_zdiv_nonneg_iff)

lemma crowded_bracket:
  assumes inv: "pool_inv p" and valid: "\<forall>q \<in> queued p. valid_mmr q" and big: "190 \<le> Size p"
  obtains k where "PlayersPerMatch \<le> bracket_len (brackets p) k"
proof (rule ccontr)
  assume "\<not> thesis"
  then have "\<not> PlayersPerMatch \<le> bracket_len (brackets p) k" for k using that by blast
  then have lt: "bracket_len (brackets p) k < 10" for k
    unfolding PlayersPerMatch_def not_le .
  have few: "bracket_len (brackets p) k \<le> 9" for k
    using lt [of k] by simp
  have "queued p \<subseteq> (\<Union>k \<in> {0..20}. set (elems (slice_at (brackets p) k)))"
    using valid valid_bracket by (fastforce simp: index_slice_set [OF pool_index [OF inv]] queued_def)
  then have "card (queued p) \<le> card (\<Union>k \<in> {0..20 :: int}. set (elems (slice_at (brackets p) k)))"
    by (intro card_mono) auto
  also have "\<dots> \<le> (\<Sum>k \<in> {0..20 :: int}. card (set (elems (slice_at (brackets p) k))))"
    by (intro card_UN_le) simp
  also have "\<dots> \<le> (\<Sum>k \<in> {0..20 :: int}. 9)"
    using order_trans [OF card_length few [unfolded bracket_len_def]] by (intro sum_mono)
  finally show False using big Size_queued [OF inv] by simp
qed

text \<open>Players of one match are at most five brackets apart.\<close>

lemma nearby_spread:
  assumes "x \<in> nearby P bk" "y \<in> nearby P bk" "valid_mmr x" "valid_mmr y"
  shows "mmr x - mmr y < (2 * MaxBracketExpansion + 1) * BracketSize"
proof -
  have "mmr x div 500 - mmr y div 500 \<le> 4"
    using assms by (auto simp: nearby_def bracketKey_def valid_mmr_def pool_consts)
  then show ?thesis by (simp add: pool_consts)
qed

interpretation match_insertion: match_sort insertionSort
  by unfold_locales

section \<open>Concrete pools\<close>

text \<open>Ten players of one bracket, who all joined at instant 0.\<close>

definition ten_players :: "QueuedPlayer list" where
  "ten_players = demo_roster (map (\<lambda>n. (1000 + 10 * int n, 0)) [0..<10])"

lemma ten_roster: "roster ten_players"
  unfolding ten_players_def by (rule demo_roster_roster) code_simp

lemma ten_bk: "\<forall>q \<in> set ten_players. bk_of q = 2"
  unfolding ten_players_def by code_simp

lemma ten_brackets: "filter (\<lambda>q. bk_of q = 2) ten_players = ten_players"
  using ten_bk by (simp add: filter_id_conv)

lemma ten_valid: "\<forall>q \<in> set ten_players. valid_mmr q \<and> EnqueuedAt q = 0"
  unfolding ten_players_def valid_mmr_def by code_simp

lemma ten_covers: "covers [2] (brackets (pool_of ten_players))"
  by (rule covers_pool_of) (use ten_bk in auto)

lemma ten_match:
  obtains p' sel where "ExtractMatch insertionSort [2] 30 (pool_of ten_players) = (p', Some sel)"
proof (rule match_insertion.extract_full_bracket [OF pool_of_inv [OF ten_roster] ten_covers])
  have "length ten_players = 10" unfolding ten_players_def by code_simp
  then show "PlayersPerMatch \<le> bracket_len (brackets (pool_of ten_players)) 2"
    by (simp add: bracket_len_def slice_at_pool_of ten_brackets PlayersPerMatch_def)
qed

text \<open>The number of players of a concrete pool.\<close>

lemma Size_pool_of: "roster qs \<Longrightarrow> Size (pool_of qs) = length qs"
  by (simp add: Size_queued [OF pool_of_inv] queued_pool_of roster_def distinct_map distinct_card)

definition crowd :: "QueuedPlayer list" where
  "crowd = demo_roster (replicate 190 (2500, 0))"

lemma crowd_roster: "roster crowd"
  unfolding crowd_def by (rule demo_roster_roster) (simp add: demo_roster_mmr)

lemma crowd_mmr: "q \<in> set crowd \<Longrightarrow> mmr q = 2500"
proof -
  assume "q \<in> set crowd"
  then have "mmr q \<in> set (map mmr crowd)" by simp
  then show ?thesis by (simp add: crowd_def demo_roster_mmr del: set_map)
qed

text \<open>
  Five players at 100, and four each at 5000, 5500 and 6000: the bracket at 100 is the fullest, and
  the twelve players further up are close together.
\<close>

definition two_groups :: "QueuedPlayer list" where
  "two_groups = demo_roster (replicate 5 (100, 0) @ replicate 4 (5000, 0) @ replicate 4 (5500, 0)
     @ replicate 4 (6000, 0))"

lemma two_groups_roster: "roster two_groups"
  unfolding two_groups_def by (rule demo_roster_roster) code_simp

lemma two_groups_nearby: "nearby (players (pool_of two_groups)) bk = set (filter (\<lambda>q. \<bar>bk_of q - bk\<bar> \<le> 2) two_groups)"
  using queued_pool_of [OF two_groups_roster] by (auto simp: nearby_def queued_def MaxBracketExpansion_def)

lemma card_filter_roster: "roster qs \<Longrightarrow> card (set (filter P qs)) = length (filter P qs)"
  by (intro distinct_card distinct_filter) (simp add: roster_def distinct_map)

section \<open>Properties\<close>

text \<open>C23: a match is ten different queued players, in MMR order, from brackets at most two away from
  one bracket; exactly they leave the pool, all others stay as they were, no channel is touched, and
  the pool keeps its invariant. This holds for every sorter and every iteration order of the map.\<close>

theorem ExtractMatch_correct:
  assumes "match_sort srt" "pool_inv p" "covers ks (brackets p)"
    and "ExtractMatch srt ks now p = (p', Some sel)"
  shows "length sel = 10 \<and> distinct (map PlayerID sel) \<and> set sel \<subseteq> queued p \<and> sorted (map mmr sel)
    \<and> (\<exists>bk. \<forall>q \<in> set sel. \<bar>bk_of q - bk\<bar> \<le> 2)
    \<and> pool_inv p' \<and> players p' = (players p) |` (- PlayerID ` set sel)
    \<and> match_heap p' = match_heap p \<and> Size p' + 10 = Size p"
proof -
  note s = match_sort.extract_success [OF assms]
  then obtain bk where "set sel \<subseteq> nearby (players p) bk" by blast
  then have "\<forall>q \<in> set sel. \<bar>bk_of q - bk\<bar> \<le> 2" by (auto simp: nearby_def MaxBracketExpansion_def)
  with s show ?thesis unfolding PlayersPerMatch_def by blast
qed

theorem ExtractMatch_correct_witness:
  "\<exists>p' sel. ExtractMatch insertionSort [2] 30 (pool_of ten_players) = (p', Some sel)
     \<and> length sel = 10 \<and> Size p' + 10 = Size (pool_of ten_players)"
proof -
  obtain p' sel where ex: "ExtractMatch insertionSort [2] 30 (pool_of ten_players) = (p', Some sel)"
    by (rule ten_match)
  from ExtractMatch_correct [OF match_insertion.match_sort_axioms pool_of_inv [OF ten_roster] ten_covers ex] ex
  show ?thesis by blast
qed

text \<open>A pool of at least 190 players with ratings in \<open>[0, 10000]\<close> always yields a match: there
  are 21 brackets, so one of them holds ten. This bounds what a matchmaker tick can leave behind.\<close>

theorem ExtractMatch_progress:
  assumes "match_sort srt" "pool_inv p" "covers ks (brackets p)"
    and "\<forall>q \<in> queued p. valid_mmr q" "190 \<le> Size p"
  shows "\<exists>p' sel. ExtractMatch srt ks now p = (p', Some sel)"
proof -
  obtain k where "PlayersPerMatch \<le> bracket_len (brackets p) k"
    using crowded_bracket assms(2,4,5) by blast
  then show ?thesis using match_sort.extract_full_bracket assms(1-3) by metis
qed

theorem ExtractMatch_progress_witness:
  "190 \<le> Size (pool_of crowd) \<and> (\<exists>p' sel. ExtractMatch insertionSort [5] 9 (pool_of crowd) = (p', Some sel))"
proof -
  have size: "190 \<le> Size (pool_of crowd)"
    by (simp add: Size_pool_of [OF crowd_roster]) (simp add: crowd_def)
  have c: "covers [5] (brackets (pool_of crowd))"
    using crowd_mmr by (intro covers_pool_of) (auto simp: bracketKey_def BracketSize_def)
  have v: "\<forall>q \<in> queued (pool_of crowd). valid_mmr q"
    by (simp add: queued_pool_of [OF crowd_roster] crowd_mmr valid_mmr_def MaxMMR_def)
  from ExtractMatch_progress [OF match_insertion.match_sort_axioms pool_of_inv [OF crowd_roster] c v size] size
  show ?thesis by blast
qed

text \<open>C32: the selected window has the least weighted score of all windows of the candidates, and is the
  first such window. The pool must hold ratings of the allowed range and no future instants, else a
  score could reach the sentinel the loop starts from.\<close>

theorem ExtractMatch_minimal:
  assumes "match_sort srt" "pool_inv p" "covers ks (brackets p)"
    and "\<forall>q \<in> queued p. valid_mmr q \<and> EnqueuedAt q \<le> now"
    and "ExtractMatch srt ks now p = (p', Some sel)"
  shows "\<exists>bk cs i. set cs = nearby (players p) bk \<and> distinct cs \<and> sorted (map mmr cs)
    \<and> is_window cs i \<and> sel = take 10 (drop i cs)
    \<and> (\<forall>j. is_window cs j \<longrightarrow> window_score now cs i \<le> window_score now cs j)
    \<and> (\<forall>j. is_window cs j \<and> j < i \<longrightarrow> window_score now cs i < window_score now cs j)"
proof (cases rule: match_sort.extract_cases [OF assms(1-3), of now, case_names Empty Few Match])
  case (Match bk n cs)
  have v: "\<forall>q \<in> set cs. valid_mmr q \<and> EnqueuedAt q \<le> now"
    using assms(4) Match(4) by (auto simp: nearby_def queued_def)
  have d: "distinct cs" using Match(5) by (simp add: distinct_map)
  have sel: "sel = take 10 (drop (best_window now cs) cs)"
    using Match(9) assms(5) by (simp add: PlayersPerMatch_def)
  show ?thesis
    using Match(4,6) d sel best_window_inside [OF Match(7)] best_window_minimal [OF Match(7) v]
    by (intro exI [of _ bk] exI [of _ cs] exI [of _ "best_window now cs"]) blast
qed (use assms(5) in simp_all)

theorem ExtractMatch_minimal_witness:
  "\<exists>p' sel cs i. ExtractMatch insertionSort [2] 30 (pool_of ten_players) = (p', Some sel)
     \<and> is_window cs i \<and> sel = take 10 (drop i cs)"
proof -
  obtain p' sel where ex: "ExtractMatch insertionSort [2] 30 (pool_of ten_players) = (p', Some sel)"
    by (rule ten_match)
  have "\<forall>q \<in> queued (pool_of ten_players). valid_mmr q \<and> EnqueuedAt q \<le> 30"
    using ten_valid by (auto simp: queued_pool_of [OF ten_roster])
  from ExtractMatch_minimal [OF match_insertion.match_sort_axioms pool_of_inv [OF ten_roster] ten_covers this ex] ex
  show ?thesis by blast
qed

text \<open>Where all queued players joined at the same instant, the match is as tight as any ten of the
  candidates can be: every ten of them contain two whose ratings are at least as far apart as the
  match is wide. The rounding of the score cannot spoil this.\<close>

theorem ExtractMatch_tightest:
  assumes "match_sort srt" "pool_inv p" "covers ks (brackets p)"
    and "\<forall>q \<in> queued p. valid_mmr q \<and> EnqueuedAt q = t" "t \<le> now"
    and "ExtractMatch srt ks now p = (p', Some sel)"
  shows "\<exists>bk. set sel \<subseteq> nearby (players p) bk
    \<and> (\<forall>T. T \<subseteq> nearby (players p) bk \<and> card T = 10
         \<longrightarrow> (\<exists>x \<in> T. \<exists>y \<in> T. mmr (sel ! 9) - mmr (sel ! 0) \<le> mmr x - mmr y))"
proof (cases rule: match_sort.extract_cases [OF assms(1-3), of now, case_names Empty Few Match])
  case (Match bk n cs)
  let ?b = "best_window now cs"
  have v: "\<forall>q \<in> set cs. valid_mmr q \<and> EnqueuedAt q = t"
    using assms(4) Match(4) by (auto simp: nearby_def queued_def)
  have d: "distinct cs" using Match(5) by (simp add: distinct_map)
  have w: "is_window cs ?b" using best_window_inside [OF Match(7)] .
  have sel: "sel = take 10 (drop ?b cs)"
    using Match(9) assms(6) by (simp add: PlayersPerMatch_def)
  have spread: "mmr (sel ! 9) - mmr (sel ! 0) = window_spread cs ?b"
    using w by (simp add: sel window_spread_def is_window_def PlayersPerMatch_def add.commute)
  have "\<exists>x \<in> T. \<exists>y \<in> T. window_spread cs ?b \<le> mmr x - mmr y"
    if T: "T \<subseteq> set cs" "card T = 10" for T
  proof -
    obtain a b where ab: "a + 9 \<le> b" "b < length cs" "cs ! a \<in> T" "cs ! b \<in> T"
      by (rule spread_out_indices [OF d T]) (auto simp: add.commute)
    have "is_window cs a" using ab by (simp add: is_window_def PlayersPerMatch_def)
    then have "window_spread cs ?b \<le> window_spread cs a"
      using best_window_tightest [OF Match(7) v assms(5)] by blast
    also have "\<dots> \<le> mmr (cs ! b) - mmr (cs ! a)"
      using sorted_nth_mono [OF Match(6), of "a + 9" b] ab
      by (simp add: window_spread_def PlayersPerMatch_def add.commute)
    finally show ?thesis using ab by blast
  qed
  moreover have "set sel \<subseteq> set cs" unfolding sel by (meson order_trans set_drop_subset set_take_subset)
  ultimately show ?thesis using Match(4) spread by metis
qed (use assms(6) in simp_all)

theorem ExtractMatch_tightest_witness:
  "\<exists>p' sel bk. ExtractMatch insertionSort [2] 30 (pool_of ten_players) = (p', Some sel)
     \<and> set sel \<subseteq> nearby (players (pool_of ten_players)) bk"
proof -
  obtain p' sel where ex: "ExtractMatch insertionSort [2] 30 (pool_of ten_players) = (p', Some sel)"
    by (rule ten_match)
  have "\<forall>q \<in> queued (pool_of ten_players). valid_mmr q \<and> EnqueuedAt q = 0"
    using ten_valid by (simp add: queued_pool_of [OF ten_roster])
  from ExtractMatch_tightest [OF match_insertion.match_sort_axioms pool_of_inv [OF ten_roster] ten_covers this _ ex] ex
  show ?thesis by auto
qed

text \<open>Two players of one match are less than 2500 MMR apart.\<close>

theorem ExtractMatch_spread:
  assumes "match_sort srt" "pool_inv p" "covers ks (brackets p)" "\<forall>q \<in> queued p. valid_mmr q"
    and "ExtractMatch srt ks now p = (p', Some sel)" "x \<in> set sel" "y \<in> set sel"
  shows "\<bar>mmr x - mmr y\<bar> < 2500"
proof -
  note s = match_sort.extract_success [OF assms(1-3,5)]
  then obtain bk where bk: "x \<in> nearby (players p) bk" "y \<in> nearby (players p) bk"
    using assms(6,7) by blast
  have "valid_mmr x" "valid_mmr y" using s assms(4,6,7) by auto
  with nearby_spread [OF bk] nearby_spread [OF bk(2,1)] show ?thesis by (simp add: pool_consts)
qed

theorem ExtractMatch_spread_witness:
  "\<exists>p' sel. ExtractMatch insertionSort [2] 30 (pool_of ten_players) = (p', Some sel)
     \<and> \<bar>mmr (hd sel) - mmr (last sel)\<bar> < 2500"
proof -
  obtain p' sel where ex: "ExtractMatch insertionSort [2] 30 (pool_of ten_players) = (p', Some sel)"
    by (rule ten_match)
  have v: "\<forall>q \<in> queued (pool_of ten_players). valid_mmr q"
    using ten_valid by (simp add: queued_pool_of [OF ten_roster])
  have "length sel = PlayersPerMatch"
    using match_insertion.extract_success [OF pool_of_inv [OF ten_roster] ten_covers ex] by blast
  then have "sel \<noteq> []" by (auto simp: PlayersPerMatch_def)
  with ExtractMatch_spread [OF match_insertion.match_sort_axioms pool_of_inv [OF ten_roster] ten_covers v ex] ex
  show ?thesis by (metis hd_in_set last_in_set)
qed

text \<open>Only the fullest bracket is ever tried. While it has fewer than ten players within two
  brackets, no match is made, whatever the rest of the pool holds: the instance has twelve players
  of three adjacent brackets waiting behind five of one bracket.\<close>

theorem ExtractMatch_blocked:
  assumes "match_sort srt" "pool_inv p" "covers ks (brackets p)"
    and "\<forall>k. k \<noteq> bk \<longrightarrow> bracket_len (brackets p) k < bracket_len (brackets p) bk"
    and "card (nearby (players p) bk) < 10"
  shows "ExtractMatch srt ks now p = (p, None)"
proof (cases rule: match_sort.extract_cases [OF assms(1-3), of now, case_names Empty Few Match])
  case (Match bk' n cs)
  have "bk' \<noteq> -1" using index_key_nonneg [OF pool_index [OF assms(2)], of bk'] Match(2) by auto
  then have "bracket_len (brackets p) bk \<le> bracket_len (brackets p) bk'"
    using best_bracket_spec(2) [OF pool_index [OF assms(2)] assms(3) Match(1)] by blast
  then have "bk' = bk" using assms(4) by (metis not_le)
  with Match(7,8) assms(5) show ?thesis by (simp add: PlayersPerMatch_def)
qed simp_all

theorem ExtractMatch_blocked_witness:
  "card (nearby (players (pool_of two_groups)) 11) = 12
   \<and> ExtractMatch insertionSort [0, 10, 11, 12] 9 (pool_of two_groups) = (pool_of two_groups, None)"
proof
  show "card (nearby (players (pool_of two_groups)) 11) = 12"
    unfolding two_groups_nearby card_filter_roster [OF two_groups_roster] unfolding two_groups_def by code_simp
  have bks: "\<forall>q \<in> set two_groups. bk_of q \<in> set [0, 10, 11, 12]"
    unfolding two_groups_def by code_simp
  then have cov: "covers [0, 10, 11, 12] (brackets (pool_of two_groups))"
    by (intro covers_pool_of) auto
  have len: "bracket_len (brackets (pool_of two_groups)) k = length (filter (\<lambda>q. bk_of q = k) two_groups)" for k
    by (simp add: bracket_len_def slice_at_pool_of)
  have "\<forall>k \<in> set [10, 11, 12]. length (filter (\<lambda>q. bk_of q = k) two_groups) < 5"
    "length (filter (\<lambda>q. bk_of q = 0) two_groups) = 5"
    unfolding two_groups_def by code_simp+
  moreover have "length (filter (\<lambda>q. bk_of q = k) two_groups) = 0" if "k \<notin> set [0, 10, 11, 12]" for k
    using bks that by (auto simp: filter_empty_conv)
  ultimately have "\<forall>k. k \<noteq> 0 \<longrightarrow> bracket_len (brackets (pool_of two_groups)) k < bracket_len (brackets (pool_of two_groups)) 0"
    unfolding len by (metis list.set_intros(1,2) set_ConsD zero_less_numeral)
  moreover have "card (nearby (players (pool_of two_groups)) 0) < 10"
    unfolding two_groups_nearby card_filter_roster [OF two_groups_roster] unfolding two_groups_def by code_simp
  ultimately show "ExtractMatch insertionSort [0, 10, 11, 12] 9 (pool_of two_groups) = (pool_of two_groups, None)"
    by (rule ExtractMatch_blocked [OF match_insertion.match_sort_axioms pool_of_inv [OF two_groups_roster] cov])
qed

end
