(* ===== verification/Nexus_Matchmaker.thy ===== *)
theory Nexus_Matchmaker
  imports Nexus_Extract Nexus_Session Nexus_Pb
begin

text \<open>
  \<open>internal/services/matchmaker.go\<close> up to the coordinator: the state of the matchmaker, the loop of
  \<open>tick\<close> and the administrative RPCs. \<open>tick\<close> is modelled as it runs when no other goroutine gets in
  between; what it takes from outside in each turn (the order of the map, the clock, the new UUID)
  comes from an environment. The goroutines it launches are kept as values in \<open>coordinators\<close>, and
  the warnings about players that could not be notified in \<open>unnotified\<close>.
\<close>

section \<open>State\<close>

text \<open>The arguments of one \<open>readyCheckCoordinator\<close>.\<close>

record Room =
  rm_session :: string
  rm_players :: "QueuedPlayer list"
  rm_responses :: "chan_id list"
  rm_results :: "chan_id list"

record MatchmakerServer =
  srv_pool :: Pool
  srv_sessions :: SessionStore
  srv_bools :: "bool chans"
  stop_closed :: bool
  matchesCreated :: i64
  coordinators :: "Room list"
  unnotified :: "string list"

definition NewMatchmakerServer :: "Pool \<Rightarrow> SessionStore \<Rightarrow> MatchmakerServer" where
  "NewMatchmakerServer p ss = \<lparr>srv_pool = p, srv_sessions = ss, srv_bools = no_chans, stop_closed = False,
     matchesCreated = 0, coordinators = [], unnotified = []\<rparr>"

record tick_env =
  te_keys :: "int list"
  te_extract :: gtime
  te_now :: gtime
  te_uuid :: string

type_synonym match_sorter = "(QueuedPlayer \<Rightarrow> QueuedPlayer \<Rightarrow> bool) \<Rightarrow> QueuedPlayer list \<Rightarrow> QueuedPlayer list"

section \<open>One match of a tick\<close>

text \<open>The loop that makes two buffered channels per player.\<close>

fun make_channels :: "nat \<Rightarrow> bool chans \<Rightarrow> bool chans \<times> chan_id list \<times> chan_id list" where
  "make_channels 0 H = (H, [], [])"
| "make_channels (Suc n) H =
     (let (H1, resp) = make_chan 1 H;
          (H2, res) = make_chan 1 H1;
          (H3, resps, ress) = make_channels n H2
      in (H3, resp # resps, res # ress))"

text \<open>
  The loop that hands every player its event by a guarded send; the ids of players whose channel had
  no room are collected.
\<close>

fun notify_players ::
  "string \<Rightarrow> string list \<Rightarrow> gtime \<Rightarrow> (QueuedPlayer \<times> chan_id \<times> chan_id) list \<Rightarrow> MatchEvent chans
    \<Rightarrow> (MatchEvent chans \<times> string list) outcome" where
  "notify_players sid pids now [] H = Ret (H, [])"
| "notify_players sid pids now ((p, resp, res) # todo) H =
     ret_bind (chan_try_send (MatchCh p) \<lparr>evt_SessionID = sid, evt_PlayerIDs = pids, evt_CreatedAt = now,
                                          ResponseCh = resp, ResultCh = res\<rparr> H)
       (\<lambda>(sent, H1). ret_bind (notify_players sid pids now todo H1)
          (\<lambda>(H2, missed). Ret (H2, if sent then missed else PlayerID p # missed)))"

text \<open>The body of the loop in \<open>tick\<close> after a successful extraction.\<close>

definition start_ready_check ::
  "string \<Rightarrow> gtime \<Rightarrow> QueuedPlayer list \<Rightarrow> MatchmakerServer \<Rightarrow> MatchmakerServer outcome" where
  "start_ready_check sid now qs srv =
     (let pids = map PlayerID qs;
          (bools, responses, results) = make_channels (length qs) (srv_bools srv)
      in ret_bind (notify_players sid pids now (zip qs (zip responses results)) (match_heap (srv_pool srv)))
           (\<lambda>(heap, missed). Ret (srv\<lparr>srv_pool := (srv_pool srv)\<lparr>match_heap := heap\<rparr>,
              srv_bools := bools,
              coordinators := coordinators srv @
                [\<lparr>rm_session = sid, rm_players = qs, rm_responses = responses, rm_results = results\<rparr>],
              matchesCreated := matchesCreated srv + 1,
              unnotified := unnotified srv @ missed\<rparr>)))"

text \<open>\<open>tick\<close>: no bound on the loop is written in the code; \<open>None\<close> would be a loop that never ends.\<close>

partial_function (option) tick ::
  "match_sorter \<Rightarrow> (nat \<Rightarrow> tick_env) \<Rightarrow> nat \<Rightarrow> MatchmakerServer \<Rightarrow> MatchmakerServer outcome option" where
  "tick srt env n srv =
     (case ExtractMatch srt (te_keys (env n)) (te_extract (env n)) (srv_pool srv) of
        (p, None) \<Rightarrow> Some (Ret (srv\<lparr>srv_pool := p\<rparr>))
      | (p, Some qs) \<Rightarrow>
          (case start_ready_check (te_uuid (env n)) (te_now (env n)) qs (srv\<lparr>srv_pool := p\<rparr>) of
             Panic \<Rightarrow> Some Panic
           | Ret srv' \<Rightarrow> tick srt env (Suc n) srv'))"

section \<open>Endpoints\<close>

definition GetQueueStats :: "string list \<Rightarrow> MatchmakerServer \<Rightarrow> QueueStatsResponse reply" where
  "GetQueueStats ks srv = reply_ok
     \<lparr>qs_TotalWaiting = word_of_nat (Size (srv_pool srv)), qs_TotalMatched = 0,
      qs_ActiveSessions = word_of_nat (ActiveCount ks (srv_sessions srv))\<rparr>"

definition getMatchCount :: "MatchmakerServer \<Rightarrow> i64" where
  "getMatchCount srv = matchesCreated srv"

definition ForceMatch ::
  "match_sorter \<Rightarrow> (nat \<Rightarrow> tick_env) \<Rightarrow> MatchmakerServer
    \<Rightarrow> (MatchmakerServer \<times> ForceMatchResponse reply) outcome option" where
  "ForceMatch srt env srv =
     (let countBefore = getMatchCount srv
      in case tick srt env 0 srv of
           None \<Rightarrow> None
         | Some Panic \<Rightarrow> Some Panic
         | Some (Ret srv') \<Rightarrow>
             (let countAfter = getMatchCount srv'
              in Some (Ret (srv', reply_ok \<lparr>fm_MatchesCreated = ucast (countAfter - countBefore)\<rparr>))))"

section \<open>The worker goroutine\<close>

text \<open>
  One turn of the worker's \<open>select\<close>: the case it takes must be ready. \<open>StopWorker\<close> closes \<open>stopCh\<close>;
  a second call panics in \<open>close\<close>, which its deferred \<open>recover\<close> swallows, so it returns at once. The
  flag says whether the caller goes on to wait for the goroutines.
\<close>

datatype worker_case = StopSeen | Ticked "nat \<Rightarrow> tick_env"

datatype worker_turn = Exited MatchmakerServer | Running MatchmakerServer | Crashed

fun worker_select :: "match_sorter \<Rightarrow> worker_case \<Rightarrow> MatchmakerServer \<Rightarrow> worker_turn option" where
  "worker_select srt StopSeen srv = (if stop_closed srv then Some (Exited srv) else None)"
| "worker_select srt (Ticked env) srv = (case tick srt env 0 srv of
       None \<Rightarrow> None
     | Some Panic \<Rightarrow> Some Crashed
     | Some (Ret srv') \<Rightarrow> Some (Running srv'))"

definition StopWorker :: "MatchmakerServer \<Rightarrow> MatchmakerServer \<times> bool" where
  "StopWorker srv = (if stop_closed srv then (srv, False) else (srv\<lparr>stop_closed := True\<rparr>, True))"

section \<open>Channels of a match\<close>

text \<open>A channel of one slot, empty or holding one value, and open.\<close>

definition idle :: "'a chans \<Rightarrow> chan_id \<Rightarrow> bool" where
  "idle H c \<longleftrightarrow> cells H c = Some \<lparr>ch_cap = 1, ch_buf = [], ch_closed = False\<rparr>"

definition holds :: "'a chans \<Rightarrow> chan_id \<Rightarrow> 'a \<Rightarrow> bool" where
  "holds H c v \<longleftrightarrow> cells H c = Some \<lparr>ch_cap = 1, ch_buf = [v], ch_closed = False\<rparr>"

lemma idle_cong: "cells H' c = cells H c \<Longrightarrow> idle H' c = idle H c"
  by (simp add: idle_def)

lemma holds_cong: "cells H' c = cells H c \<Longrightarrow> holds H' c v = holds H c v"
  by (simp add: holds_def)

lemma try_send_idle:
  assumes "idle H c"
  obtains H' where "chan_try_send c v H = Ret (True, H')" "holds H' c v" "next_id H' = next_id H"
    and "\<And>d. d \<noteq> c \<Longrightarrow> cells H' d = cells H d"
  using assms by (intro that [of "H\<lparr>cells := (cells H)(c \<mapsto> \<lparr>ch_cap = 1, ch_buf = [v], ch_closed = False\<rparr>)\<rparr>"])
    (auto simp: idle_def holds_def chan_try_send_def)

lemma make_channels_spec:
  assumes "chans_ok H" "make_channels n H = (H', resps, ress)"
  shows "chans_ok H' \<and> length resps = n \<and> length ress = n \<and> distinct (resps @ ress)
    \<and> (\<forall>c \<in> set (resps @ ress). idle H' c \<and> cells H c = None)
    \<and> (\<forall>c. c \<notin> set (resps @ ress) \<longrightarrow> cells H' c = cells H c)"
  using assms
proof (induction n arbitrary: H H' resps ress)
  case (Suc n)
  obtain H1 resp where mk1: "make_chan 1 H = (H1, resp)" by fastforce
  obtain H2 res where mk2: "make_chan 1 H1 = (H2, res)" by fastforce
  obtain H3 rs ss where mk3: "make_channels n H2 = (H3, rs, ss)" by (metis prod_cases3)
  have out: "H' = H3" "resps = resp # rs" "ress = res # ss"
    using Suc.prems(2) mk1 mk2 mk3 by (simp_all add: Let_def)
  have ok: "chans_ok H1" "chans_ok H2" using make_chan_ok [OF Suc.prems(1) mk1] make_chan_ok mk2 by metis+
  note f1 = make_chan_fresh [OF Suc.prems(1) mk1] and f2 = make_chan_fresh [OF ok(1) mk2]
  note ih = Suc.IH [OF ok(2) mk3]
  have old: "c \<notin> set (rs @ ss)" if "cells H2 c \<noteq> None" for c using that ih by metis
  have "cells H2 resp \<noteq> None" "cells H2 res \<noteq> None" "resp \<noteq> res" using f1 f2 by auto
  then have new: "resp \<notin> set (rs @ ss)" "res \<notin> set (rs @ ss)" "resp \<noteq> res" using old by blast+
  have "idle H' resp" "idle H' res"
    using ih f1 f2 new unfolding idle_def out by auto
  moreover have "cells H c = None" if "cells H2 c = None" for c
    using that f1 f2 by (auto split: if_splits)
  ultimately show ?case using ih f1 f2 new unfolding out by auto
qed simp

lemma notify_players_spec:
  assumes "distinct (map (MatchCh \<circ> fst) todo)" "\<forall>t \<in> set todo. idle H (MatchCh (fst t))" "chans_ok H"
  obtains H' where "notify_players sid pids now todo H = Ret (H', [])" "chans_ok H'"
    and "\<And>c. c \<notin> (MatchCh \<circ> fst) ` set todo \<Longrightarrow> cells H' c = cells H c"
    and "\<And>p resp res. (p, resp, res) \<in> set todo \<Longrightarrow> holds H' (MatchCh p)
          \<lparr>evt_SessionID = sid, evt_PlayerIDs = pids, evt_CreatedAt = now, ResponseCh = resp, ResultCh = res\<rparr>"
  using assms
proof (induction todo arbitrary: H thesis)
  case Nil
  then show ?case by simp
next
  case (Cons t todo)
  obtain p resp res where t: "t = (p, resp, res)" by (metis prod_cases3)
  let ?evt = "\<lparr>evt_SessionID = sid, evt_PlayerIDs = pids, evt_CreatedAt = now, ResponseCh = resp, ResultCh = res\<rparr>"
  have "idle H (MatchCh p)" using Cons.prems(3) t by simp
  then obtain H1 where send: "chan_try_send (MatchCh p) ?evt H = Ret (True, H1)" "holds H1 (MatchCh p) ?evt"
    and frame: "\<And>d. d \<noteq> MatchCh p \<Longrightarrow> cells H1 d = cells H d"
    by (metis try_send_idle)
  have new: "MatchCh p \<notin> (MatchCh \<circ> fst) ` set todo" using Cons.prems(2) t by simp
  have ne: "MatchCh (fst u) \<noteq> MatchCh p" if "u \<in> set todo" for u
    using new that by (metis comp_apply image_eqI)
  then have idle1: "\<forall>u \<in> set todo. idle H1 (MatchCh (fst u))"
    using Cons.prems(3) frame by (simp add: idle_def)
  have "chans_ok H1" using chan_try_send_ok [OF Cons.prems(4) send(1)] .
  moreover have "distinct (map (MatchCh \<circ> fst) todo)" using Cons.prems(2) by (simp add: comp_def)
  ultimately obtain H' where H': "notify_players sid pids now todo H1 = Ret (H', [])" "chans_ok H'"
    "\<And>c. c \<notin> (MatchCh \<circ> fst) ` set todo \<Longrightarrow> cells H' c = cells H1 c"
    "\<And>p resp res. (p, resp, res) \<in> set todo \<Longrightarrow> holds H' (MatchCh p)
          \<lparr>evt_SessionID = sid, evt_PlayerIDs = pids, evt_CreatedAt = now, ResponseCh = resp, ResultCh = res\<rparr>"
    using Cons.IH idle1 by metis
  have "holds H' (MatchCh p) ?evt" using H'(3) [OF new] send(2) by (simp add: holds_def)
  then show ?case
    using send(1) H' frame by (intro Cons.prems(1) [of H']) (auto simp: t)
qed

section \<open>What a tick does\<close>

text \<open>
  A pool whose queued players all have an empty channel: their gateways have taken what was sent.
\<close>

definition ready_pool :: "Pool \<Rightarrow> bool" where
  "ready_pool p \<longleftrightarrow> pool_inv p \<and> (\<forall>q \<in> queued p. idle (match_heap p) (MatchCh q))"

text \<open>How the operations of the pool keep it ready.\<close>

lemma ready_Dequeue:
  assumes ready: "ready_pool p"
  shows "ready_pool (fst (Dequeue pid p))" "queued (fst (Dequeue pid p)) \<subseteq> queued p"
    and "c \<notin> MatchCh ` queued p \<Longrightarrow> cells (match_heap (fst (Dequeue pid p))) c = cells (match_heap p) c"
    and "map_option (\<lambda>ch. (ch_cap ch, ch_buf ch)) (cells (match_heap (fst (Dequeue pid p))) c) = map_option (\<lambda>ch. (ch_cap ch, ch_buf ch)) (cells (match_heap p) c)"
proof -
  let ?p = "fst (Dequeue pid p)"
  have inv: "pool_inv p" using ready by (simp add: ready_pool_def)
  have "ready_pool ?p \<and> queued ?p \<subseteq> queued p
    \<and> (\<forall>c. c \<notin> MatchCh ` queued p \<longrightarrow> cells (match_heap ?p) c = cells (match_heap p) c)
    \<and> (\<forall>c. map_option (\<lambda>ch. (ch_cap ch, ch_buf ch)) (cells (match_heap ?p) c) = map_option (\<lambda>ch. (ch_cap ch, ch_buf ch)) (cells (match_heap p) c))"
  proof (cases "players p pid")
    case None
    then show ?thesis using ready by (simp add: Dequeue_missing)
  next
    case (Some qp)
    obtain heap where cl: "chan_close (MatchCh qp) (match_heap p) = Ret heap"
      and D: "?p = p\<lparr>brackets := unbracket (bk_of qp) pid (brackets p),
                match_heap := heap, players := (players p)(pid := None)\<rparr>"
      using Dequeue_present [OF inv Some] by (metis fst_conv)
    have q: "queued ?p = queued p - {qp}" using queued_remove [OF inv Some] by (simp add: D queued_def)
    have qp: "qp \<in> queued p" using Some by (auto simp: queued_def ran_def)
    have "idle heap (MatchCh x)" if "x \<in> queued p - {qp}" for x
    proof -
      have "MatchCh x \<noteq> MatchCh qp" using that qp pool_inj [OF inv] by (auto dest: inj_onD)
      then show ?thesis
        using ready that chan_close_other [OF cl] by (simp add: ready_pool_def idle_def)
    qed
    moreover have "map_option (\<lambda>ch. (ch_cap ch, ch_buf ch)) (cells heap c) = map_option (\<lambda>ch. (ch_cap ch, ch_buf ch)) (cells (match_heap p) c)" for c
      using cl by (auto simp: chan_close_def split: option.splits if_splits)
    moreover have "cells heap c = cells (match_heap p) c" if "c \<notin> MatchCh ` queued p" for c
      using chan_close_other [OF cl, of c] that qp by (cases "c = MatchCh qp") auto
    ultimately show ?thesis
      using Dequeue_inv [OF inv, of pid] q by (simp add: ready_pool_def) (simp add: D)
  qed
  then show "ready_pool ?p" "queued ?p \<subseteq> queued p"
    "c \<notin> MatchCh ` queued p \<Longrightarrow> cells (match_heap ?p) c = cells (match_heap p) c"
    "map_option (\<lambda>ch. (ch_cap ch, ch_buf ch)) (cells (match_heap ?p) c) = map_option (\<lambda>ch. (ch_cap ch, ch_buf ch)) (cells (match_heap p) c)"
    by blast+
qed

lemma idle_recv: "idle H c \<Longrightarrow> chan_recv c H = (out, H') \<Longrightarrow> H' = H"
  by (simp add: idle_def chan_recv_def)

lemma idle_recv_any:
  assumes "idle H d" "chan_recv c H = (out, H')"
  shows "idle H' d"
proof (cases "d = c")
  case True
  with assms idle_recv show ?thesis by metis
next
  case False
  then show ?thesis using assms(1) chan_recv_other [OF assms(2)] by (simp add: idle_def)
qed

lemma ready_recv:
  assumes "ready_pool p" "chan_recv c (match_heap p) = (out, H)"
  shows "ready_pool (p\<lparr>match_heap := H\<rparr>)"
  using assms pool_inv_recv [OF _ assms(2)] idle_recv_any [OF _ assms(2)]
  unfolding ready_pool_def by (auto simp: queued_def)

lemma ready_ReEnqueue:
  assumes ready: "ready_pool p" and q: "idle (match_heap p) (MatchCh q)" "MatchCh q \<in> MatchCh ` queued p \<Longrightarrow> q \<in> queued p"
  shows "ready_pool (fst (ReEnqueue grow q p))" "queued (fst (ReEnqueue grow q p)) \<subseteq> insert q (queued p)"
    and "match_heap (fst (ReEnqueue grow q p)) = match_heap p"
proof -
  let ?p = "fst (ReEnqueue grow q p)"
  have inv: "pool_inv p" using ready by (simp add: ready_pool_def)
  have "ready_pool ?p \<and> queued ?p \<subseteq> insert q (queued p) \<and> match_heap ?p = match_heap p"
  proof (cases "players p (PlayerID q)")
    case (Some x)
    then show ?thesis using ready by (auto simp: ReEnqueue_def)
  next
    case None
    then have "q \<notin> queued p" using queued_id [OF inv] by simp
    then have "MatchCh q \<notin> MatchCh ` queued p" using q(2) by blast
    moreover have "match_chan_ok (match_heap p) (MatchCh q)" using q(1) by (auto simp: idle_def match_chan_ok_def)
    ultimately have "pool_inv ?p" using ReEnqueue_inv [OF inv] by blast
    moreover have "match_heap ?p = match_heap p" "queued ?p = insert q (queued p)"
      using None by (simp_all add: ReEnqueue_def Let_def queued_def ran_map_upd)
    ultimately show ?thesis using ready q(1) by (auto simp: ready_pool_def)
  qed
  then show "ready_pool ?p" "queued ?p \<subseteq> insert q (queued p)" "match_heap ?p = match_heap p" by blast+
qed

abbreviation room_chans :: "Room \<Rightarrow> chan_id list" where
  "room_chans r \<equiv> rm_responses r @ rm_results r"

definition room_event :: "gtime \<Rightarrow> Room \<Rightarrow> nat \<Rightarrow> MatchEvent" where
  "room_event now r i = \<lparr>evt_SessionID = rm_session r, evt_PlayerIDs = map PlayerID (rm_players r),
     evt_CreatedAt = now, ResponseCh = rm_responses r ! i, ResultCh = rm_results r ! i\<rparr>"

text \<open>
  A room as its coordinator finds it: ten players, a fresh pair of channels for each, and in every
  player's channel the event with that player's pair.
\<close>

definition room_started :: "MatchEvent chans \<Rightarrow> bool chans \<Rightarrow> Room \<Rightarrow> bool" where
  "room_started H B r \<longleftrightarrow> length (rm_players r) = 10 \<and> length (rm_responses r) = 10 \<and> length (rm_results r) = 10
     \<and> distinct (room_chans r) \<and> (\<forall>c \<in> set (room_chans r). idle B c)
     \<and> (\<exists>now. \<forall>i < 10. holds H (MatchCh (rm_players r ! i)) (room_event now r i))"

abbreviation drafted :: "Room list \<Rightarrow> QueuedPlayer list" where
  "drafted rooms \<equiv> concat (map rm_players rooms)"

definition tick_effect :: "MatchmakerServer \<Rightarrow> Room list \<Rightarrow> MatchmakerServer \<Rightarrow> bool" where
  "tick_effect srv rooms srv' \<longleftrightarrow>
     ready_pool (srv_pool srv') \<and> chans_ok (srv_bools srv')
   \<and> queued (srv_pool srv) = queued (srv_pool srv') \<union> set (drafted rooms)
   \<and> queued (srv_pool srv') \<inter> set (drafted rooms) = {}
   \<and> distinct (map PlayerID (drafted rooms))
   \<and> Size (srv_pool srv') + 10 * length rooms = Size (srv_pool srv)
   \<and> srv_sessions srv' = srv_sessions srv \<and> stop_closed srv' = stop_closed srv
   \<and> unnotified srv' = unnotified srv
   \<and> coordinators srv' = coordinators srv @ rooms
   \<and> matchesCreated srv' = matchesCreated srv + word_of_nat (length rooms)
   \<and> (\<forall>c. c \<notin> MatchCh ` queued (srv_pool srv) \<longrightarrow>
          cells (match_heap (srv_pool srv')) c = cells (match_heap (srv_pool srv)) c)
   \<and> (\<forall>c. cells (srv_bools srv) c \<noteq> None \<longrightarrow> cells (srv_bools srv') c = cells (srv_bools srv) c)
   \<and> (\<forall>r \<in> set rooms. room_started (match_heap (srv_pool srv')) (srv_bools srv') r)
   \<and> distinct (concat (map room_chans rooms))
   \<and> (\<forall>r \<in> set rooms. \<forall>c \<in> set (room_chans r). cells (srv_bools srv) c = None)"

lemma tick_effectD:
  assumes "tick_effect srv rooms srv'"
  shows "ready_pool (srv_pool srv')" "chans_ok (srv_bools srv')"
    "queued (srv_pool srv) = queued (srv_pool srv') \<union> set (drafted rooms)"
    "queued (srv_pool srv') \<inter> set (drafted rooms) = {}"
    "distinct (map PlayerID (drafted rooms))"
    "Size (srv_pool srv') + 10 * length rooms = Size (srv_pool srv)"
    "srv_sessions srv' = srv_sessions srv" "stop_closed srv' = stop_closed srv"
    "unnotified srv' = unnotified srv" "coordinators srv' = coordinators srv @ rooms"
    "matchesCreated srv' = matchesCreated srv + word_of_nat (length rooms)"
    and "\<And>c. c \<notin> MatchCh ` queued (srv_pool srv) \<Longrightarrow>
          cells (match_heap (srv_pool srv')) c = cells (match_heap (srv_pool srv)) c"
    and "\<And>c. cells (srv_bools srv) c \<noteq> None \<Longrightarrow> cells (srv_bools srv') c = cells (srv_bools srv) c"
    and "\<And>r. r \<in> set rooms \<Longrightarrow> room_started (match_heap (srv_pool srv')) (srv_bools srv') r"
    and "distinct (concat (map room_chans rooms))"
    and "\<And>r c. r \<in> set rooms \<Longrightarrow> c \<in> set (room_chans r) \<Longrightarrow> cells (srv_bools srv) c = None"
  using assms unfolding tick_effect_def by blast+

lemma tick_effect_none:
  "ready_pool (srv_pool srv) \<Longrightarrow> chans_ok (srv_bools srv) \<Longrightarrow> tick_effect srv [] srv"
  by (simp add: tick_effect_def)

lemma room_started_frame:
  assumes "room_started H B r" "\<forall>q \<in> set (rm_players r). cells H' (MatchCh q) = cells H (MatchCh q)"
    and "\<forall>c. cells B c \<noteq> None \<longrightarrow> cells B' c = cells B c"
  shows "room_started H' B' r"
proof -
  have "idle B' c" if "c \<in> set (room_chans r)" for c
    using that assms(1,3) unfolding room_started_def idle_def by (metis option.distinct(1))
  moreover have "cells H' (MatchCh (rm_players r ! i)) = cells H (MatchCh (rm_players r ! i))" if "i < 10" for i
    using that assms(1,2) unfolding room_started_def by simp
  ultimately show ?thesis using assms(1) unfolding room_started_def holds_def by simp
qed

lemma tick_effect_trans:
  assumes inv: "pool_inv (srv_pool srv)" and one: "tick_effect srv rs srv1" and two: "tick_effect srv1 rs' srv2"
  shows "tick_effect srv (rs @ rs') srv2"
proof -
  let ?p = "srv_pool srv" and ?p1 = "srv_pool srv1" and ?p2 = "srv_pool srv2"
  note a = tick_effectD [OF one] and b = tick_effectD [OF two]
  have sub: "queued ?p1 \<subseteq> queued ?p" using a(3) by blast
  have gone: "MatchCh q \<notin> MatchCh ` queued ?p1" if "q \<in> set (drafted rs)" for q
  proof
    assume "MatchCh q \<in> MatchCh ` queued ?p1"
    then obtain x where x: "x \<in> queued ?p1" "MatchCh q = MatchCh x" by blast
    then have "q = x" using pool_inj [OF inv] that a(3) by (auto dest: inj_onD)
    with x that a(4) show False by blast
  qed
  have keep: "cells (match_heap ?p2) (MatchCh q) = cells (match_heap ?p1) (MatchCh q)"
    if "r \<in> set rs" "q \<in> set (rm_players r)" for r q
    by (rule b(12), rule gone) (use that in auto)
  have started: "\<forall>r \<in> set (rs @ rs'). room_started (match_heap ?p2) (srv_bools srv2) r"
    using room_started_frame [OF a(14)] keep b(13,14) by auto
  have ids: "PlayerID x \<noteq> PlayerID y" if "x \<in> set (drafted rs)" "y \<in> set (drafted rs')" for x y
  proof
    assume eq: "PlayerID x = PlayerID y"
    have y: "y \<in> queued ?p1" "x \<in> queued ?p" using that a(3) b(3) by blast+
    then have "y \<in> queued ?p" using sub by blast
    with y(2) eq have "x = y" using queued_id [OF inv] by (metis option.inject)
    then show False using that(1) y(1) a(4) by blast
  qed
  then have "PlayerID ` set (drafted rs) \<inter> PlayerID ` set (drafted rs') = {}" by blast
  then have dist: "distinct (map PlayerID (drafted (rs @ rs')))"
    using a(5) b(5) by (simp only: map_append concat_append distinct_append set_map)
  have old: "cells (srv_bools srv1) c \<noteq> None" if "r \<in> set rs" "c \<in> set (room_chans r)" for r c
    using that a(14) unfolding room_started_def idle_def by blast
  have fresh: "\<forall>r \<in> set (rs @ rs'). \<forall>c \<in> set (room_chans r). cells (srv_bools srv) c = None"
    using a(13,16) b(16) by (metis Un_iff set_append)
  have "set (concat (map room_chans rs)) \<inter> set (concat (map room_chans rs')) = {}"
    using old b(16) by fastforce
  then have chans: "distinct (concat (map room_chans (rs @ rs')))"
    using a(15) b(15) by (simp only: map_append concat_append distinct_append)
  have mkeep: "\<forall>c. c \<notin> MatchCh ` queued ?p \<longrightarrow> cells (match_heap ?p2) c = cells (match_heap ?p) c"
    using a(12) b(12) sub by (metis image_mono subsetD)
  have bkeep: "\<forall>c. cells (srv_bools srv) c \<noteq> None \<longrightarrow> cells (srv_bools srv2) c = cells (srv_bools srv) c"
    using a(13) b(13) by metis
  have split: "queued ?p = queued ?p2 \<union> set (drafted (rs @ rs'))" "queued ?p2 \<inter> set (drafted (rs @ rs')) = {}"
    using a(3,4) b(3,4) by auto
  have rest: "Size ?p2 + 10 * length (rs @ rs') = Size ?p"
    "srv_sessions srv2 = srv_sessions srv" "stop_closed srv2 = stop_closed srv" "unnotified srv2 = unnotified srv"
    "coordinators srv2 = coordinators srv @ rs @ rs'"
    "matchesCreated srv2 = matchesCreated srv + word_of_nat (length (rs @ rs'))"
    using a(6-11) b(6-11) by simp_all
  show ?thesis
    unfolding tick_effect_def by (intro conjI b(1,2) rest split started dist chans mkeep bkeep fresh)
qed

section \<open>One match\<close>

lemma start_ready_check_spec:
  assumes ready: "ready_pool p" and ok: "chans_ok (srv_bools srv)"
    and qs: "length qs = 10" "distinct (map PlayerID qs)" "set qs \<subseteq> queued p"
    and p': "pool_inv (srv_pool srv)" "match_heap (srv_pool srv) = match_heap p"
      "queued (srv_pool srv) = queued p - set qs" "Size (srv_pool srv) + 10 = Size p"
  obtains srv' r where "start_ready_check sid now qs srv = Ret srv'"
    and "rm_players r = qs" "rm_session r = sid" "tick_effect (srv\<lparr>srv_pool := p\<rparr>) [r] srv'"
proof -
  obtain B rs ss where mk: "make_channels (length qs) (srv_bools srv) = (B, rs, ss)" by (metis prod_cases3)
  note chans = make_channels_spec [OF ok mk]
  let ?todo = "zip qs (zip rs ss)"
  have fsts: "map fst ?todo = qs" using chans qs(1) by simp
  have inj: "inj_on MatchCh (queued p)" using ready by (simp add: ready_pool_def pool_inj)
  have dm: "distinct (map MatchCh qs)"
    using inj qs(2,3) by (metis distinct_map inj_on_subset)
  have "distinct (map (MatchCh \<circ> fst) ?todo)" using dm fsts by (metis map_map)
  moreover have "\<forall>t \<in> set ?todo. idle (match_heap p) (MatchCh (fst t))"
    using ready qs(3) by (auto simp: ready_pool_def dest: set_zip_leftD)
  moreover have "chans_ok (match_heap p)" using ready by (simp add: ready_pool_def pool_heap)
  ultimately obtain H where told: "notify_players sid (map PlayerID qs) now ?todo (match_heap p) = Ret (H, [])" "chans_ok H"
    and frame: "\<And>c. c \<notin> (MatchCh \<circ> fst) ` set ?todo \<Longrightarrow> cells H c = cells (match_heap p) c"
    and sent: "\<And>q resp res. (q, resp, res) \<in> set ?todo \<Longrightarrow> holds H (MatchCh q)
        \<lparr>evt_SessionID = sid, evt_PlayerIDs = map PlayerID qs, evt_CreatedAt = now, ResponseCh = resp, ResultCh = res\<rparr>"
    by (metis notify_players_spec)
  have touched: "(MatchCh \<circ> fst) ` set ?todo = MatchCh ` set qs"
    using fsts by (metis image_comp image_set)
  define r where "r = \<lparr>rm_session = sid, rm_players = qs, rm_responses = rs, rm_results = ss\<rparr>"
  define srv' where "srv' = srv\<lparr>srv_pool := (srv_pool srv)\<lparr>match_heap := H\<rparr>, srv_bools := B,
     coordinators := coordinators srv @ [r], matchesCreated := matchesCreated srv + 1\<rparr>"
  have run: "start_ready_check sid now qs srv = Ret srv'"
    using mk told(1) p'(2) by (simp add: start_ready_check_def Let_def r_def srv'_def)
  have q': "queued ((srv_pool srv)\<lparr>match_heap := H\<rparr>) = queued p - set qs"
    using p'(3) by (simp add: queued_def)
  have other: "cells H (MatchCh q) = cells (match_heap p) (MatchCh q)" if "q \<in> queued p - set qs" for q
  proof (rule frame)
    show "MatchCh q \<notin> (MatchCh \<circ> fst) ` set ?todo"
      unfolding touched using that qs(3) inj by (auto dest: inj_onD)
  qed
  have "ready_pool ((srv_pool srv)\<lparr>match_heap := H\<rparr>)"
    using p'(1) ready told(2) other unfolding ready_pool_def pool_inv_def q' p'(3)
    by (auto simp: idle_def match_chan_ok_def)
  moreover have "room_started H B r"
  proof -
    have "holds H (MatchCh (qs ! i)) (room_event now r i)" if "i < 10" for i
    proof -
      have "?todo ! i = (qs ! i, rs ! i, ss ! i)" using that chans qs(1) by simp
      then have "(qs ! i, rs ! i, ss ! i) \<in> set ?todo"
        using that chans qs(1) by (metis length_zip min.idem nth_mem)
      from sent [OF this] show ?thesis by (simp add: room_event_def r_def)
    qed
    then show ?thesis using chans qs(1) by (auto simp: room_started_def r_def)
  qed
  moreover have "cells H c = cells (match_heap p) c" if "c \<notin> MatchCh ` queued p" for c
    by (rule frame) (use that qs(3) touched in blast)
  moreover have "cells B c = cells (srv_bools srv) c" if "cells (srv_bools srv) c \<noteq> None" for c
    using that chans by metis
  moreover have "Size ((srv_pool srv)\<lparr>match_heap := H\<rparr>) = Size (srv_pool srv)" by (simp add: Size_def)
  ultimately have "tick_effect (srv\<lparr>srv_pool := p\<rparr>) [r] srv'"
    using chans qs p' q' unfolding tick_effect_def by (auto simp: srv'_def r_def)
  moreover have "rm_players r = qs" "rm_session r = sid" by (simp_all add: r_def)
  ultimately show thesis using that run by blast
qed

section \<open>The whole tick\<close>

text \<open>The keys of the bracket map are the brackets of the queued players.\<close>

lemma dom_brackets:
  assumes "pool_inv p"
  shows "dom (brackets p) = bk_of ` queued p"
proof -
  note idx = pool_index [OF assms]
  have "bk \<in> bk_of ` queued p" if at: "brackets p bk = Some s" for bk s
  proof -
    have "elems s \<noteq> []" using index_nonempty [OF idx at] .
    then have "hd (elems s) \<in> set (elems (slice_at (brackets p) bk))" using at by simp
    then show ?thesis unfolding index_slice_set [OF idx] queued_def by auto
  qed
  moreover have "brackets p (bk_of q) \<noteq> None" if "q \<in> queued p" for q
    using that index_slice_set [OF idx, of "bk_of q"] by (auto simp: queued_def slice_at_def split: option.splits)
  ultimately show ?thesis by blast
qed

lemma covers_mono:
  "pool_inv p \<Longrightarrow> pool_inv p' \<Longrightarrow> queued p' \<subseteq> queued p \<Longrightarrow> covers ks (brackets p) \<Longrightarrow> covers ks (brackets p')"
  unfolding covers_def dom_brackets by blast

context match_sort
begin

lemma extract_same_size: "ExtractMatch srt ks now p = (p', None) \<Longrightarrow> p' = p"
  by (simp add: ExtractMatch_def Let_def split: prod.splits if_splits)

lemma tick_turn:
  assumes ready: "ready_pool (srv_pool srv)" and ok: "chans_ok (srv_bools srv)"
    and ks: "covers (te_keys (env n)) (brackets (srv_pool srv))"
    and ex: "ExtractMatch srt (te_keys (env n)) (te_extract (env n)) (srv_pool srv) = (p', Some qs)"
  obtains srv1 r where "tick srt env n srv = tick srt env (Suc n) srv1" "tick_effect srv [r] srv1"
proof -
  have inv: "pool_inv (srv_pool srv)" using ready by (simp add: ready_pool_def)
  note s = extract_success [OF inv ks ex]
  have post: "length qs = 10" "distinct (map PlayerID qs)" "set qs \<subseteq> queued (srv_pool srv)"
    "pool_inv p'" "match_heap p' = match_heap (srv_pool srv)" "queued p' = queued (srv_pool srv) - set qs"
    "Size p' + 10 = Size (srv_pool srv)"
    using s by (simp_all add: PlayersPerMatch_def)
  obtain srv1 r where one: "start_ready_check (te_uuid (env n)) (te_now (env n)) qs (srv\<lparr>srv_pool := p'\<rparr>) = Ret srv1"
    and eff: "tick_effect srv [r] srv1"
    using start_ready_check_spec [of "srv_pool srv" "srv\<lparr>srv_pool := p'\<rparr>" qs "te_uuid (env n)" "te_now (env n)"]
      ready ok post by simp metis
  have "tick srt env n srv = tick srt env (Suc n) srv1"
    using ex one by (simp add: tick.simps [of srt env n srv])
  then show thesis using eff by (rule that)
qed

text \<open>The loop ends: every turn that makes a match takes ten players out of the pool.\<close>

lemma tick_spec:
  assumes "ready_pool (srv_pool srv)" "chans_ok (srv_bools srv)"
    and "\<And>m. covers (te_keys (env m)) (brackets (srv_pool srv))"
  shows "\<exists>srv' rooms m. tick srt env n srv = Some (Ret srv') \<and> tick_effect srv rooms srv'
     \<and> ExtractMatch srt (te_keys (env m)) (te_extract (env m)) (srv_pool srv') = (srv_pool srv', None)"
  using assms
proof (induction "Size (srv_pool srv)" arbitrary: n srv rule: less_induct)
  case less
  note inv = less.prems(1) [unfolded ready_pool_def, THEN conjunct1]
  obtain p' sel where ex: "ExtractMatch srt (te_keys (env n)) (te_extract (env n)) (srv_pool srv) = (p', sel)"
    by fastforce
  show ?case
  proof (cases sel)
    case None
    then have "p' = srv_pool srv" using ex extract_same_size by blast
    with None ex tick_effect_none [OF less.prems(1,2)] show ?thesis
      by (intro exI [of _ srv] exI [of _ "[]"] exI [of _ n]) (simp add: tick.simps)
  next
    case (Some qs)
    obtain srv1 r where step: "tick srt env n srv = tick srt env (Suc n) srv1" and eff: "tick_effect srv [r] srv1"
      using tick_turn [of srv env n p' qs] less.prems ex Some by metis
    note d = tick_effectD [OF eff]
    have "covers (te_keys (env m)) (brackets (srv_pool srv1))" for m
      by (rule covers_mono [OF inv _ _ less.prems(3)]) (use d(1,3) in \<open>auto simp: ready_pool_def\<close>)
    moreover have "Size (srv_pool srv1) < Size (srv_pool srv)" using d(6) by simp
    ultimately obtain srv' rooms m where "tick srt env (Suc n) srv1 = Some (Ret srv')" "tick_effect srv1 rooms srv'"
      "ExtractMatch srt (te_keys (env m)) (te_extract (env m)) (srv_pool srv') = (srv_pool srv', None)"
      using less.hyps [of srv1 "Suc n"] d(1,2) by metis
    then show ?thesis using step tick_effect_trans [OF inv eff] by auto
  qed
qed

end

text \<open>A tick stops only when an extraction fails, which valid ratings allow for a small pool only.\<close>

lemma tick_drains:
  assumes "match_sort srt" "ready_pool (srv_pool srv)" "chans_ok (srv_bools srv)"
    and "\<forall>m. covers (te_keys (env m)) (brackets (srv_pool srv))"
    and "\<forall>q \<in> queued (srv_pool srv). valid_mmr q"
  shows "\<exists>srv' m. tick srt env n srv = Some (Ret srv') \<and> Size (srv_pool srv') \<le> 189
    \<and> ExtractMatch srt (te_keys (env m)) (te_extract (env m)) (srv_pool srv') = (srv_pool srv', None)"
proof -
  obtain srv' rooms m where run: "tick srt env n srv = Some (Ret srv')" and eff: "tick_effect srv rooms srv'"
    and stop: "ExtractMatch srt (te_keys (env m)) (te_extract (env m)) (srv_pool srv') = (srv_pool srv', None)"
    using match_sort.tick_spec [OF assms(1-3)] assms(4) by blast
  note d = tick_effectD [OF eff]
  have inv: "pool_inv (srv_pool srv)" "pool_inv (srv_pool srv')"
    using assms(2) d(1) by (simp_all add: ready_pool_def)
  have "covers (te_keys (env m)) (brackets (srv_pool srv'))"
    by (rule covers_mono [OF inv _ assms(4) [THEN spec]]) (use d(3) in blast)
  moreover have "\<forall>q \<in> queued (srv_pool srv'). valid_mmr q" using assms(5) d(3) by blast
  ultimately have "\<not> 190 \<le> Size (srv_pool srv')"
    using crowded_bracket [OF inv(2)] match_sort.extract_full_bracket [OF assms(1) inv(2)] stop
    by (metis option.distinct(1) prod.inject)
  then have "Size (srv_pool srv') \<le> 189" by simp
  then show ?thesis using run stop by blast
qed

section \<open>Example\<close>

lemma ready_pool_of: "roster qs \<Longrightarrow> ready_pool (pool_of qs)"
proof -
  assume r: "roster qs"
  have "MatchCh q < length qs" if "q \<in> set qs" for q
    using that r unfolding roster_def by (metis atLeast0LessThan image_eqI lessThan_iff set_map set_upt)
  then show ?thesis
    unfolding ready_pool_def queued_pool_of [OF r] idle_def using pool_of_inv [OF r] by (simp add: pool_of_def)
qed

definition ten_server :: MatchmakerServer where
  "ten_server = NewMatchmakerServer (pool_of ten_players) NewSessionStore"

definition ten_env :: "nat \<Rightarrow> tick_env" where
  "ten_env n = \<lparr>te_keys = [2], te_extract = 30, te_now = 31, te_uuid = replicate n (CHR ''s'')\<rparr>"

lemma ten_server_ready: "ready_pool (srv_pool ten_server)" "chans_ok (srv_bools ten_server)"
  by (simp_all add: ten_server_def NewMatchmakerServer_def ready_pool_of [OF ten_roster])

lemma ten_env_covers: "covers (te_keys (ten_env m)) (brackets (srv_pool ten_server))"
  using ten_covers by (simp add: ten_env_def ten_server_def NewMatchmakerServer_def)

lemma ten_queued: "queued (srv_pool ten_server) = set ten_players"
  by (simp add: ten_server_def NewMatchmakerServer_def queued_pool_of [OF ten_roster])

lemma ten_size: "Size (srv_pool ten_server) = 10"
proof -
  have "length ten_players = 10" unfolding ten_players_def by code_simp
  then show ?thesis by (simp add: ten_server_def NewMatchmakerServer_def Size_pool_of [OF ten_roster])
qed

section \<open>Properties\<close>

text \<open>C24: a tick returns and never panics. The players it takes out of the pool are exactly those of the
  rooms it opens, ten different ones in each and nobody in two; every one of them holds in its
  channel the event of its room with its own pair of response and result channels, and no warning is
  logged; the counter grows by the number of rooms, one coordinator is launched per room, and no
  session exists before its ready check. This rests on queued players having an empty channel.\<close>

theorem tick_correct:
  assumes "match_sort srt" "ready_pool (srv_pool srv)" "chans_ok (srv_bools srv)"
    and "\<forall>m. covers (te_keys (env m)) (brackets (srv_pool srv))"
  shows "\<exists>srv' rooms. tick srt env n srv = Some (Ret srv')
    \<and> coordinators srv' = coordinators srv @ rooms
    \<and> matchesCreated srv' = matchesCreated srv + word_of_nat (length rooms)
    \<and> unnotified srv' = unnotified srv \<and> srv_sessions srv' = srv_sessions srv
    \<and> ready_pool (srv_pool srv')
    \<and> queued (srv_pool srv') = queued (srv_pool srv) - set (drafted rooms)
    \<and> set (drafted rooms) \<subseteq> queued (srv_pool srv)
    \<and> distinct (map PlayerID (drafted rooms)) \<and> distinct (concat (map room_chans rooms))
    \<and> (\<forall>r \<in> set rooms. room_started (match_heap (srv_pool srv')) (srv_bools srv') r)"
proof -
  obtain srv' rooms where run: "tick srt env n srv = Some (Ret srv')" and eff: "tick_effect srv rooms srv'"
    using match_sort.tick_spec [OF assms(1-3)] assms(4) by blast
  note d = tick_effectD [OF eff]
  have "queued (srv_pool srv') = queued (srv_pool srv) - set (drafted rooms)" using d(3,4) by blast
  moreover have "set (drafted rooms) \<subseteq> queued (srv_pool srv)" using d(3) by blast
  ultimately show ?thesis using run d(1,5,7,9,10,11,14,15) by blast
qed

theorem tick_correct_witness:
  "\<exists>srv' rooms. tick insertionSort ten_env 0 ten_server = Some (Ret srv') \<and> coordinators srv' = rooms
     \<and> distinct (map PlayerID (drafted rooms))"
  using tick_correct [OF match_insertion.match_sort_axioms ten_server_ready, of ten_env 0] ten_env_covers
  by (auto simp: ten_server_def NewMatchmakerServer_def)

text \<open>\<open>ForceMatch\<close> reports the number of ready checks it started: the difference of the 64-bit
  counter, cut to 32 bits, is exact although both wrap, as long as fewer than 2^31 players wait; and
  each counts ten players that left the pool.\<close>

theorem ForceMatch_correct:
  assumes "match_sort srt" "ready_pool (srv_pool srv)" "chans_ok (srv_bools srv)"
    and "\<forall>m. covers (te_keys (env m)) (brackets (srv_pool srv))" "Size (srv_pool srv) < 2 ^ 31"
  shows "\<exists>srv' rooms c. ForceMatch srt env srv = Some (Ret (srv', reply_ok \<lparr>fm_MatchesCreated = c\<rparr>))
    \<and> coordinators srv' = coordinators srv @ rooms \<and> sint c = int (length rooms)
    \<and> Size (srv_pool srv') + 10 * length rooms = Size (srv_pool srv)"
proof -
  obtain srv' rooms where run: "tick srt env 0 srv = Some (Ret srv')" and eff: "tick_effect srv rooms srv'"
    using match_sort.tick_spec [OF assms(1-3)] assms(4) by blast
  note d = tick_effectD [OF eff]
  let ?c = "ucast (matchesCreated srv' - matchesCreated srv) :: i32"
  have "matchesCreated srv' - matchesCreated srv = word_of_nat (length rooms)" using d(11) by simp
  moreover have small: "length rooms < 2 ^ 31" using d(6) assms(5) by simp
  ultimately have "?c = word_of_nat (length rooms)" by (simp add: unsigned_of_nat take_bit_nat_eq_self)
  then have "sint ?c = int (length rooms)" using sint_of_nat_i32 [OF small] by simp
  with run d(6,10) show ?thesis by (auto simp: ForceMatch_def getMatchCount_def)
qed

theorem ForceMatch_correct_witness:
  "\<exists>srv' c. ForceMatch insertionSort ten_env ten_server = Some (Ret (srv', reply_ok \<lparr>fm_MatchesCreated = c\<rparr>))
     \<and> sint c = int (length (coordinators srv'))"
  using ForceMatch_correct [OF match_insertion.match_sort_axioms ten_server_ready, of ten_env] ten_env_covers
  by (auto simp: ten_size) (auto simp: ten_server_def NewMatchmakerServer_def)

text \<open>\<open>GetQueueStats\<close> counts the queued players and the sessions that are not finalized, in
  whatever order the map is visited, and both arrive unchanged as int32 below 2^31; \<open>total_matched\<close> is never set and always reads 0.\<close>

theorem GetQueueStats_correct:
  assumes "pool_inv (srv_pool srv)" "covers ks (sessions (srv_sessions srv))"
    and "card (queued (srv_pool srv)) < 2 ^ 31"
    and "card {sid. \<exists>s. GetSession sid (srv_sessions srv) = Some s \<and> \<not> Finalized s} < 2 ^ 31"
  shows "\<exists>m. GetQueueStats ks srv = (Some m, None)
    \<and> sint (qs_TotalWaiting m) = int (card (queued (srv_pool srv)))
    \<and> sint (qs_ActiveSessions m) = int (card {sid. \<exists>s. GetSession sid (srv_sessions srv) = Some s \<and> \<not> Finalized s})
    \<and> qs_TotalMatched m = 0"
  using assms(3,4)
  by (simp add: GetQueueStats_def reply_ok_def sint_of_nat_i32 ActiveCount_card [OF assms(2)] Size_queued [OF assms(1)])

theorem GetQueueStats_correct_witness:
  "\<exists>m. GetQueueStats [] ten_server = (Some m, None) \<and> sint (qs_TotalWaiting m) = int (card (set ten_players))"
proof -
  have c: "covers [] (sessions (srv_sessions ten_server))"
    by (simp add: covers_def ten_server_def NewMatchmakerServer_def NewSessionStore_def)
  have i: "pool_inv (srv_pool ten_server)" using ten_server_ready(1) by (simp add: ready_pool_def)
  have n: "card (queued (srv_pool ten_server)) < 2 ^ 31" using Size_queued [OF i] ten_size by simp
  have none: "{sid. \<exists>s. GetSession sid (srv_sessions ten_server) = Some s \<and> \<not> Finalized s} = {}"
    by (simp add: ten_server_def NewMatchmakerServer_def NewSessionStore_def GetSession_def)
  have "card {sid. \<exists>s. GetSession sid (srv_sessions ten_server) = Some s \<and> \<not> Finalized s} < 2 ^ 31"
    unfolding none by simp
  from GetQueueStats_correct [OF i c n this] show ?thesis unfolding ten_queued by blast
qed

end
