(* ===== verification/Nexus_ReadyCheck.thy ===== *)
theory Nexus_ReadyCheck
  imports Nexus_Matchmaker
begin

text \<open>
  \<open>readyCheckCoordinator\<close> of \<open>internal/services/matchmaker.go\<close>: one goroutine per ready check with a
  fan-in goroutine per player. Its local variables are the record \<open>Coordinator\<close>; each function
  below is one step of one of these goroutines between two points where another goroutine can run,
  \<open>None\<close> where the step is not enabled. \<open>ctx\<close> is a flag that the deadline or \<open>cancel\<close> sets. The
  machine \<open>check_step\<close> interleaves them with what gateways, players and trackers do meanwhile.
\<close>

section \<open>The coordinator's state\<close>

datatype co_pc = Gathering | Publishing "chan_id list" | Requeueing "QueuedPlayer list" | Finished

record Coordinator =
  co_room :: Room
  co_listening :: "nat list"
  co_fanIn :: "(nat \<times> bool) list"
  co_done :: bool
  co_accepted :: "bool list"
  co_allAccepted :: bool
  co_received :: nat
  co_at :: co_pc

abbreviation co_size :: "Coordinator \<Rightarrow> nat" where
  "co_size co \<equiv> length (rm_players (co_room co))"

definition launch :: "Room \<Rightarrow> Coordinator" where
  "launch r = \<lparr>co_room = r, co_listening = [0..<length (rm_responses r)], co_fanIn = [], co_done = False,
     co_accepted = replicate (length (rm_players r)) False, co_allAccepted = True, co_received = 0,
     co_at = Gathering\<rparr>"

section \<open>Steps\<close>

text \<open>
  A fan-in goroutine takes a response (a closed channel would read as \<open>false\<close>) or sees the context
  end; it sends once, into a channel with room for all players.
\<close>

definition fan_in_recv :: "nat \<Rightarrow> Coordinator \<Rightarrow> bool chans \<Rightarrow> (Coordinator \<times> bool chans) option" where
  "fan_in_recv i co H =
     (if i \<in> set (co_listening co)
      then (case chan_recv (rm_responses (co_room co) ! i) H of
              (Value v, H') \<Rightarrow> Some (co\<lparr>co_listening := remove1 i (co_listening co),
                                       co_fanIn := co_fanIn co @ [(i, v)]\<rparr>, H')
            | (Closed, H') \<Rightarrow> Some (co\<lparr>co_listening := remove1 i (co_listening co),
                                      co_fanIn := co_fanIn co @ [(i, False)]\<rparr>, H')
            | (Blocked, H') \<Rightarrow> None)
      else None)"

definition fan_in_done :: "nat \<Rightarrow> Coordinator \<Rightarrow> Coordinator option" where
  "fan_in_done i co =
     (if i \<in> set (co_listening co) \<and> co_done co
      then Some (co\<lparr>co_listening := remove1 i (co_listening co), co_fanIn := co_fanIn co @ [(i, False)]\<rparr>)
      else None)"

text \<open>The timeout of \<open>readyCheckCoordTimeout\<close> can pass at any time.\<close>

definition deadline :: "Coordinator \<Rightarrow> Coordinator" where
  "deadline co = co\<lparr>co_done := True\<rparr>"

text \<open>\<open>goto verdict\<close> after a failure: \<open>cancel\<close>, then the loop that publishes the results.\<close>

definition fail_room :: "Coordinator \<Rightarrow> Coordinator" where
  "fail_room co = co\<lparr>co_allAccepted := False, co_done := True, co_at := Publishing (rm_results (co_room co))\<rparr>"

text \<open>The two cases of the gathering \<open>select\<close>.\<close>

definition gather :: "Coordinator \<Rightarrow> Coordinator option" where
  "gather co =
     (if co_at co = Gathering \<and> co_received co < co_size co
      then (case co_fanIn co of
              [] \<Rightarrow> None
            | (i, v) # rest \<Rightarrow>
                (let co1 = co\<lparr>co_fanIn := rest, co_received := Suc (co_received co),
                              co_accepted := (co_accepted co)[i := v]\<rparr>
                 in Some (if v then co1 else fail_room co1)))
      else None)"

definition gather_timeout :: "Coordinator \<Rightarrow> Coordinator option" where
  "gather_timeout co =
     (if co_at co = Gathering \<and> co_received co < co_size co \<and> co_done co then Some (fail_room co) else None)"

text \<open>The loop ends with every player's acceptance: the session is created.\<close>

definition confirm :: "gtime \<Rightarrow> Coordinator \<Rightarrow> SessionStore \<Rightarrow> (Coordinator \<times> SessionStore) option" where
  "confirm now co ss =
     (if co_at co = Gathering \<and> \<not> co_received co < co_size co
      then Some (co\<lparr>co_done := True, co_at := Publishing (rm_results (co_room co))\<rparr>,
                 CreateSession now (rm_session (co_room co)) (map PlayerID (rm_players (co_room co))) ss)
      else None)"

text \<open>
  One turn of the loop \<open>ch <- result; close(ch)\<close>, or its end: a confirmed room is done, a cancelled
  one goes on to the players who accepted. The outer \<open>None\<close> is a send that has to wait.
\<close>

definition accepters :: "Coordinator \<Rightarrow> QueuedPlayer list" where
  "accepters co = map fst (filter snd (zip (rm_players (co_room co)) (co_accepted co)))"

definition publish :: "Coordinator \<Rightarrow> bool chans \<Rightarrow> (Coordinator \<times> bool chans) outcome option" where
  "publish co H = (case co_at co of
       Publishing (c # cs) \<Rightarrow>
         (case chan_send c (co_allAccepted co) H of
            None \<Rightarrow> None
          | Some Panic \<Rightarrow> Some Panic
          | Some (Ret H1) \<Rightarrow> Some (ret_bind (chan_close c H1) (\<lambda>H2. Ret (co\<lparr>co_at := Publishing cs\<rparr>, H2))))
     | Publishing [] \<Rightarrow>
         Some (Ret (co\<lparr>co_at := if co_allAccepted co then Finished else Requeueing (accepters co)\<rparr>, H))
     | _ \<Rightarrow> None)"

text \<open>One turn of the re-enqueue loop; a refusal is only logged.\<close>

definition requeue :: "(nat \<Rightarrow> nat \<Rightarrow> nat) \<Rightarrow> Coordinator \<Rightarrow> Pool \<Rightarrow> (Coordinator \<times> Pool) option" where
  "requeue grow co p = (case co_at co of
       Requeueing (q # qs) \<Rightarrow> Some (co\<lparr>co_at := Requeueing qs\<rparr>, fst (ReEnqueue grow q p))
     | Requeueing [] \<Rightarrow> Some (co\<lparr>co_at := Finished\<rparr>, p)
     | _ \<Rightarrow> None)"

section \<open>A ready check among the others\<close>

text \<open>
  The state around one coordinator, with a log of the responses that gateways have sent so far, each
  with its channel. Beside the coordinator's own steps, a gateway may send a response or take a result,
  results of sessions may be recorded, other rooms may use their channels and create their sessions,
  and the pool may change in any way.
\<close>

record check =
  ck_co :: Coordinator
  ck_pool :: Pool
  ck_sessions :: SessionStore
  ck_bools :: "bool chans"
  ck_sent :: "(chan_id \<times> bool) list"

inductive co_step :: "(nat \<Rightarrow> nat \<Rightarrow> nat) \<Rightarrow> check \<Rightarrow> check \<Rightarrow> bool" for grow where
  fan_in: "fan_in_recv i (ck_co s) (ck_bools s) = Some (co, B) \<Longrightarrow> co_step grow s (s\<lparr>ck_co := co, ck_bools := B\<rparr>)"
| fan_in_end: "fan_in_done i (ck_co s) = Some co \<Longrightarrow> co_step grow s (s\<lparr>ck_co := co\<rparr>)"
| gathered: "gather (ck_co s) = Some co \<Longrightarrow> co_step grow s (s\<lparr>ck_co := co\<rparr>)"
| timed_out: "gather_timeout (ck_co s) = Some co \<Longrightarrow> co_step grow s (s\<lparr>ck_co := co\<rparr>)"
| confirmed: "confirm now (ck_co s) (ck_sessions s) = Some (co, ss)
     \<Longrightarrow> co_step grow s (s\<lparr>ck_co := co, ck_sessions := ss\<rparr>)"
| published: "publish (ck_co s) (ck_bools s) = Some (Ret (co, B))
     \<Longrightarrow> co_step grow s (s\<lparr>ck_co := co, ck_bools := B\<rparr>)"
| requeued: "requeue grow (ck_co s) (ck_pool s) = Some (co, p) \<Longrightarrow> co_step grow s (s\<lparr>ck_co := co, ck_pool := p\<rparr>)"

inductive env_step :: "check \<Rightarrow> check \<Rightarrow> bool" where
  expire: "env_step s (s\<lparr>ck_co := deadline (ck_co s)\<rparr>)"
| respond: "i < co_size (ck_co s) \<Longrightarrow> chan_try_send (rm_responses (co_room (ck_co s)) ! i) v (ck_bools s) = Ret (True, B)
     \<Longrightarrow> env_step s (s\<lparr>ck_bools := B, ck_sent := ck_sent s @ [(rm_responses (co_room (ck_co s)) ! i, v)]\<rparr>)"
| take_result: "i < co_size (ck_co s) \<Longrightarrow> chan_recv (rm_results (co_room (ck_co s)) ! i) (ck_bools s) = (out, B)
     \<Longrightarrow> env_step s (s\<lparr>ck_bools := B\<rparr>)"
| record_result: "env_step s (s\<lparr>ck_sessions := fst (RecordResult now sid pid result score (ck_sessions s))\<rparr>)"
| pool_changes: "env_step s (s\<lparr>ck_pool := p\<rparr>)"
| elsewhere: "(\<And>c. c \<in> set (room_chans (co_room (ck_co s))) \<Longrightarrow> cells B c = cells (ck_bools s) c)
     \<Longrightarrow> (\<And>c v. (c, v) \<in> set new \<Longrightarrow> c \<notin> set (rm_responses (co_room (ck_co s))))
     \<Longrightarrow> env_step s (s\<lparr>ck_bools := B, ck_sent := ck_sent s @ new\<rparr>)"
| other_session: "sid \<noteq> rm_session (co_room (ck_co s))
     \<Longrightarrow> env_step s (s\<lparr>ck_sessions := CreateSession now sid pids (ck_sessions s)\<rparr>)"

definition check_step :: "(nat \<Rightarrow> nat \<Rightarrow> nat) \<Rightarrow> check \<Rightarrow> check \<Rightarrow> bool" where
  "check_step grow s t \<longleftrightarrow> co_step grow s t \<or> env_step s t"

text \<open>
  A ready check starts as \<open>tick\<close> leaves it, with channels that nobody has used and a session id that
  is new.
\<close>

definition check_init :: "Room \<Rightarrow> check \<Rightarrow> bool" where
  "check_init r s \<longleftrightarrow> ck_co s = launch r \<and> (\<forall>(c, v) \<in> set (ck_sent s). c \<notin> set (rm_responses r))
     \<and> length (rm_responses r) = length (rm_players r) \<and> length (rm_results r) = length (rm_players r)
     \<and> distinct (room_chans r) \<and> (\<forall>c \<in> set (room_chans r). idle (ck_bools s) c)
     \<and> store_inv (ck_sessions s) \<and> GetSession (rm_session r) (ck_sessions s) = None"

section \<open>Invariants\<close>

named_theorems co_defs

lemmas co_step_defs [co_defs] =
  fan_in_recv_def fan_in_done_def gather_def gather_timeout_def confirm_def publish_def requeue_def
  fail_room_def deadline_def Let_def

inductive_cases co_stepE: "co_step grow s t"
inductive_cases env_stepE: "env_step s t"

subsection \<open>The room\<close>

definition room_ok :: "Room \<Rightarrow> Coordinator \<Rightarrow> bool" where
  "room_ok r co \<longleftrightarrow> co_room co = r \<and> length (co_accepted co) = length (rm_players r)
     \<and> length (rm_responses r) = length (rm_players r) \<and> length (rm_results r) = length (rm_players r)
     \<and> distinct (room_chans r)"

lemma room_ok_step: "room_ok r (ck_co s) \<Longrightarrow> check_step grow s t \<Longrightarrow> room_ok r (ck_co t)"
  unfolding check_step_def
  by (elim disjE co_stepE env_stepE)
    (auto simp: room_ok_def co_defs split: if_splits list.splits prod.splits received.splits co_pc.splits
      option.splits outcome.splits)

lemma room_chans_apart:
  assumes "room_ok r co" "i < length (rm_players r)"
  shows "rm_responses r ! i \<notin> set (rm_results r)" "rm_responses r ! i \<in> set (rm_responses r)"
    and "j < length (rm_players r) \<Longrightarrow> j \<noteq> i \<Longrightarrow> rm_responses r ! i \<noteq> rm_responses r ! j"
  using assms by (auto simp: room_ok_def nth_eq_iff_index_eq disjoint_iff)

subsection \<open>Who has been heard\<close>

definition index_ok :: "Coordinator \<Rightarrow> bool" where
  "index_ok co \<longleftrightarrow>
     distinct (co_listening co) \<and> distinct (map fst (co_fanIn co))
   \<and> set (co_listening co) \<inter> fst ` set (co_fanIn co) = {}
   \<and> set (co_listening co) \<union> fst ` set (co_fanIn co) \<subseteq> {..<co_size co}
   \<and> (\<forall>i < co_size co. co_accepted co ! i \<longrightarrow> i \<notin> set (co_listening co) \<union> fst ` set (co_fanIn co))
   \<and> (co_at co = Gathering \<longrightarrow> co_allAccepted co
        \<and> co_received co = card {i. i < co_size co \<and> co_accepted co ! i}
        \<and> (\<forall>i < co_size co. i \<in> set (co_listening co) \<union> fst ` set (co_fanIn co) \<or> co_accepted co ! i))"

lemma index_fan_in:
  assumes "index_ok co" "i \<in> set (co_listening co)"
  shows "index_ok (co\<lparr>co_listening := remove1 i (co_listening co), co_fanIn := co_fanIn co @ [(i, v)]\<rparr>)"
  using assms by (auto simp: index_ok_def)

lemma index_gather:
  assumes ok: "index_ok co" "length (co_accepted co) = co_size co" and f: "co_fanIn co = (i, v) # rest"
    and at: "co_at co = Gathering"
  shows "index_ok (let co1 = co\<lparr>co_fanIn := rest, co_received := Suc (co_received co),
                                co_accepted := (co_accepted co)[i := v]\<rparr>
                   in if v then co1 else fail_room co1)"
proof -
  have i: "i < co_size co" "i \<notin> fst ` set rest" "\<not> co_accepted co ! i" "i \<notin> set (co_listening co)"
    using ok f by (auto simp: index_ok_def)
  have "{j. j < co_size co \<and> (co_accepted co)[i := True] ! j} = insert i {j. j < co_size co \<and> co_accepted co ! j}"
    using i(1) ok(2) by (auto simp: nth_list_update)
  then have "card {j. j < co_size co \<and> (co_accepted co)[i := True] ! j}
      = Suc (card {j. j < co_size co \<and> co_accepted co ! j})"
    using i(3) by simp
  then show ?thesis
    using ok f at i by (cases v) (auto simp: index_ok_def fail_room_def nth_list_update)
qed

lemma index_cong:
  assumes "index_ok co" "co_room co' = co_room co" "co_listening co' = co_listening co"
    and "co_fanIn co' = co_fanIn co" "co_accepted co' = co_accepted co"
    and "co_at co' = Gathering \<Longrightarrow> co_at co = Gathering \<and> co_allAccepted co' = co_allAccepted co
           \<and> co_received co' = co_received co"
  shows "index_ok co'"
  using assms(1,6) unfolding index_ok_def assms(2-5) by (cases "co_at co' = Gathering") simp_all

lemma index_ok_step:
  assumes "index_ok (ck_co s)" "room_ok r (ck_co s)" "check_step grow s t"
  shows "index_ok (ck_co t)"
  using assms(3) unfolding check_step_def
proof (elim disjE co_stepE env_stepE, goal_cases)
  case (1 i co B)
  then show ?case
    using index_fan_in [OF assms(1)] by (auto simp: fan_in_recv_def split: if_splits prod.splits received.splits)
next
  case (2 i co)
  then show ?case using index_fan_in [OF assms(1)] by (auto simp: fan_in_done_def split: if_splits)
next
  case (3 co)
  moreover have "length (co_accepted (ck_co s)) = co_size (ck_co s)" using assms(2) by (simp add: room_ok_def)
  ultimately show ?case
    using index_gather [OF assms(1)] by (auto simp: gather_def Let_def split: if_splits list.splits)
next
  case (4 co)
  then show ?case by (intro index_cong [OF assms(1)]) (auto simp: co_defs split: if_splits)
next
  case (5 now co ss)
  then show ?case by (intro index_cong [OF assms(1)]) (auto simp: co_defs split: if_splits)
next
  case (6 co B)
  then show ?case
    by (intro index_cong [OF assms(1)])
      (auto simp: co_defs split: co_pc.splits list.splits option.splits outcome.splits if_splits)
next
  case (7 co p)
  then show ?case
    by (intro index_cong [OF assms(1)]) (auto simp: co_defs split: co_pc.splits list.splits)
next
  case 8
  then show ?case by (intro index_cong [OF assms(1)]) (auto simp: co_defs)
qed (use assms(1) in simp_all)

lemma all_heard:
  assumes "index_ok co" "co_at co = Gathering" "\<not> co_received co < co_size co"
  shows "\<forall>i < co_size co. co_accepted co ! i"
proof -
  have "card {i. i < co_size co \<and> co_accepted co ! i} \<ge> card {..<co_size co}"
    using assms by (simp add: index_ok_def)
  then have "{i. i < co_size co \<and> co_accepted co ! i} = {..<co_size co}"
    by (intro card_seteq) auto
  then show ?thesis by auto
qed

subsection \<open>Responses come from players\<close>

definition responses_ok :: "Room \<Rightarrow> check \<Rightarrow> bool" where
  "responses_ok r s \<longleftrightarrow>
     (\<forall>i < length (rm_players r).
        (\<exists>ch. cells (ck_bools s) (rm_responses r ! i) = Some ch \<and> ch_cap ch = 1 \<and> \<not> ch_closed ch
          \<and> (\<forall>v \<in> set (ch_buf ch). (rm_responses r ! i, v) \<in> set (ck_sent s)))
        \<and> (co_accepted (ck_co s) ! i \<longrightarrow> (rm_responses r ! i, True) \<in> set (ck_sent s)))
   \<and> (\<forall>i. (i, True) \<in> set (co_fanIn (ck_co s)) \<longrightarrow> (rm_responses r ! i, True) \<in> set (ck_sent s))"

definition published :: "bool chans \<Rightarrow> chan_id \<Rightarrow> bool \<Rightarrow> bool" where
  "published H c v \<longleftrightarrow> (\<exists>ch. cells H c = Some ch \<and> ch_closed ch \<and> ch_buf ch \<in> {[v], []})"

lemma responses_ok_step:
  assumes ok: "responses_ok r s" and room: "room_ok r (ck_co s)" and idx: "index_ok (ck_co s)"
    and step: "check_step grow s t"
    and res: "\<And>co B c. publish (ck_co s) (ck_bools s) = Some (Ret (co, B)) \<Longrightarrow> c \<notin> set (rm_results r)
          \<Longrightarrow> cells B c = cells (ck_bools s) c"
  shows "responses_ok r t"
  using step unfolding check_step_def
proof (elim disjE co_stepE env_stepE, goal_cases)
  case (1 i co B)
  have i: "i < length (rm_players r)" using 1 idx room by (auto simp: fan_in_recv_def index_ok_def room_ok_def split: if_splits)
  obtain ch where ch: "cells (ck_bools s) (rm_responses r ! i) = Some ch" "ch_cap ch = 1" "\<not> ch_closed ch"
    "\<forall>v \<in> set (ch_buf ch). (rm_responses r ! i, v) \<in> set (ck_sent s)"
    using ok i by (auto simp: responses_ok_def)
  obtain v vs where v: "ch_buf ch = v # vs"
    and B: "B = (ck_bools s)\<lparr>cells := (cells (ck_bools s))(rm_responses r ! i \<mapsto> ch\<lparr>ch_buf := vs\<rparr>)\<rparr>"
    and co: "co = (ck_co s)\<lparr>co_listening := remove1 i (co_listening (ck_co s)), co_fanIn := co_fanIn (ck_co s) @ [(i, v)]\<rparr>"
    using 1 ch room by (auto simp: fan_in_recv_def chan_recv_def room_ok_def split: if_splits list.splits)
  then show ?case
    using 1(1) ok ch room_chans_apart(3) [OF room]
    unfolding responses_ok_def by (auto simp: nth_eq_iff_index_eq)
next
  case (2 i co)
  then show ?case using ok by (auto simp: responses_ok_def co_defs split: if_splits)
next
  case (3 co)
  obtain i v rest where f: "co_fanIn (ck_co s) = (i, v) # rest" and at: "co_at (ck_co s) = Gathering"
    using 3 by (auto simp: gather_def split: if_splits list.splits)
  have "co_accepted co = (co_accepted (ck_co s))[i := v]" "co_fanIn co = rest"
    using 3(2) f by (auto simp: gather_def fail_room_def Let_def split: if_splits)
  moreover have "i < length (co_accepted (ck_co s))" "v \<longrightarrow> (rm_responses r ! i, True) \<in> set (ck_sent s)"
    using f idx ok room by (auto simp: index_ok_def room_ok_def responses_ok_def)
  ultimately show ?case
    using 3(1) ok f by (auto simp: responses_ok_def nth_list_update)
next
  case (6 co B)
  then have "cells B (rm_responses r ! i) = cells (ck_bools s) (rm_responses r ! i)" if "i < length (rm_players r)" for i
    using res room_chans_apart(1) [OF room that] by blast
  moreover have "co_accepted co = co_accepted (ck_co s)" "co_fanIn co = co_fanIn (ck_co s)"
    using 6 by (auto simp: co_defs split: co_pc.splits list.splits option.splits outcome.splits)
  ultimately show ?case using ok 6(1) by (simp add: responses_ok_def)
next
  case (9 i v B)
  have r: "co_room (ck_co s) = r" using room by (simp add: room_ok_def)
  obtain ch where ch: "cells (ck_bools s) (rm_responses r ! i) = Some ch" "\<not> ch_closed ch"
    and B: "B = (ck_bools s)\<lparr>cells := (cells (ck_bools s))(rm_responses r ! i \<mapsto> ch\<lparr>ch_buf := ch_buf ch @ [v]\<rparr>)\<rparr>"
    using 9(3) r by (auto simp: chan_try_send_def split: option.splits if_splits)
  let ?log = "ck_sent s @ [(rm_responses r ! i, v)]"
  have "\<exists>ch. cells B (rm_responses r ! j) = Some ch \<and> ch_cap ch = 1 \<and> \<not> ch_closed ch
      \<and> (\<forall>w \<in> set (ch_buf ch). (rm_responses r ! j, w) \<in> set ?log)" if j: "j < length (rm_players r)" for j
  proof (cases "j = i")
    case True
    with ok j ch B show ?thesis unfolding responses_ok_def by fastforce
  next
    case False
    then have "cells B (rm_responses r ! j) = cells (ck_bools s) (rm_responses r ! j)"
      using room_chans_apart(3) [OF room j] 9(2) r by (simp add: B)
    with ok j show ?thesis unfolding responses_ok_def by fastforce
  qed
  with ok 9(1) r show ?case by (auto simp: responses_ok_def)
next
  case (10 i out B)
  then have "rm_results r ! i \<in> set (rm_results r)" using room by (simp add: room_ok_def)
  then have "rm_responses r ! j \<noteq> rm_results r ! i" if "j < length (rm_players r)" for j
    using room_chans_apart(1) [OF room that] by metis
  then have "cells B (rm_responses r ! j) = cells (ck_bools s) (rm_responses r ! j)" if "j < length (rm_players r)" for j
    using 10 that room by (auto simp: chan_recv_def room_ok_def split: option.splits list.splits)
  then show ?case using ok 10 by (simp add: responses_ok_def)
next
  case (13 B new)
  have "co_room (ck_co s) = r" using room by (simp add: room_ok_def)
  then have "cells B (rm_responses r ! i) = cells (ck_bools s) (rm_responses r ! i)" if "i < length (rm_players r)" for i
    using 13(2) room_chans_apart(2) [OF room that] by simp
  then show ?case using ok 13(1) by (fastforce simp: responses_ok_def)
qed (use ok in \<open>auto simp: responses_ok_def co_defs split: if_splits co_pc.splits list.splits\<close>)

subsection \<open>One result for every player\<close>

definition results_ok :: "Room \<Rightarrow> Coordinator \<Rightarrow> bool chans \<Rightarrow> bool" where
  "results_ok r co H \<longleftrightarrow> (case co_at co of
       Gathering \<Rightarrow> \<forall>c \<in> set (rm_results r). idle H c
     | Publishing cs \<Rightarrow> \<exists>ds. rm_results r = ds @ cs
          \<and> (\<forall>c \<in> set ds. published H c (co_allAccepted co)) \<and> (\<forall>c \<in> set cs. idle H c)
     | Requeueing qs \<Rightarrow> \<not> co_allAccepted co \<and> (\<forall>c \<in> set (rm_results r). published H c False)
     | Finished \<Rightarrow> \<forall>c \<in> set (rm_results r). published H c (co_allAccepted co))"

lemma results_frame:
  assumes "results_ok r co H" "co_at co' = co_at co" "co_allAccepted co' = co_allAccepted co"
    and "\<And>c. c \<in> set (rm_results r) \<Longrightarrow> cells H' c = cells H c"
  shows "results_ok r co' H'"
proof -
  have "published H' c v = published H c v" "idle H' c = idle H c" if "c \<in> set (rm_results r)" for c v
    using assms(4) [OF that] by (simp_all add: published_def idle_def)
  then show ?thesis
    using assms(1) unfolding results_ok_def assms(2,3) by (cases "co_at co") auto
qed

lemma send_close_idle:
  assumes "idle H c"
  obtains H1 H2 where "chan_send c v H = Some (Ret H1)" "chan_close c H1 = Ret H2" "published H2 c v"
    and "\<And>d. d \<noteq> c \<Longrightarrow> cells H2 d = cells H d"
proof -
  obtain H1 where send: "chan_try_send c v H = Ret (True, H1)" "holds H1 c v"
    and frame: "\<And>d. d \<noteq> c \<Longrightarrow> cells H1 d = cells H d"
    using try_send_idle [OF assms] by metis
  define H2 where "H2 = H1\<lparr>cells := (cells H1)(c \<mapsto> \<lparr>ch_cap = 1, ch_buf = [v], ch_closed = True\<rparr>)\<rparr>"
  show thesis
    by (rule that [of H1 H2])
      (use send frame in \<open>auto simp: H2_def chan_send_def chan_close_def holds_def published_def\<close>)
qed

text \<open>Publishing never waits and never panics, and touches the results' channels only.\<close>

lemma publish_runs:
  assumes room: "room_ok r co" and ok: "results_ok r co H" and at: "co_at co = Publishing cs"
  obtains co' H' where "publish co H = Some (Ret (co', H'))" "results_ok r co' H'"
    and "\<And>c. c \<notin> set (rm_results r) \<Longrightarrow> cells H' c = cells H c"
    and "co' = co\<lparr>co_at := (case cs of c # cs' \<Rightarrow> Publishing cs'
           | [] \<Rightarrow> if co_allAccepted co then Finished else Requeueing (accepters co))\<rparr>"
proof -
  obtain ds where ds: "rm_results r = ds @ cs" "\<forall>c \<in> set ds. published H c (co_allAccepted co)" "\<forall>c \<in> set cs. idle H c"
    using ok at by (auto simp: results_ok_def)
  show thesis
  proof (cases cs)
    case Nil
    have "publish co H = Some (Ret (co\<lparr>co_at := if co_allAccepted co then Finished else Requeueing (accepters co)\<rparr>, H))"
      using at Nil by (simp add: publish_def)
    then show thesis by (rule that) (use ds Nil in \<open>auto simp: results_ok_def\<close>)
  next
    case (Cons c cs')
    then have "idle H c" using ds(3) by simp
    then obtain H1 H2 where step: "chan_send c (co_allAccepted co) H = Some (Ret H1)" "chan_close c H1 = Ret H2"
      "published H2 c (co_allAccepted co)" and frame: "\<And>d. d \<noteq> c \<Longrightarrow> cells H2 d = cells H d"
      using send_close_idle by metis
    have "distinct (rm_results r)" using room by (simp add: room_ok_def)
    then have "d \<noteq> c" if "d \<in> set ds \<union> set cs'" for d using that ds(1) Cons by auto
    then have keep: "published H2 d v = published H d v" "idle H2 d = idle H d" if "d \<in> set ds \<union> set cs'" for d v
      using that frame by (simp_all add: published_def idle_def)
    have "results_ok r (co\<lparr>co_at := Publishing cs'\<rparr>) H2"
      using ds Cons keep step(3) unfolding results_ok_def by (auto intro!: exI [of _ "ds @ [c]"])
    moreover have "publish co H = Some (Ret (co\<lparr>co_at := Publishing cs'\<rparr>, H2))"
      using at Cons step by (simp add: publish_def)
    ultimately show thesis
      by (intro that [of "co\<lparr>co_at := Publishing cs'\<rparr>" H2]) (use ds(1) Cons frame in auto)
  qed
qed

lemma publish_at: "publish co H = Some out \<Longrightarrow> \<exists>cs. co_at co = Publishing cs"
  by (cases "co_at co") (simp_all add: publish_def)

lemma published_recv:
  assumes "published H c v" "chan_recv c H = (out, H')"
  shows "published H' c v"
  using assms by (auto simp: published_def chan_recv_def split: list.splits)

lemma results_ok_recv:
  assumes ok: "results_ok r co H" and recv: "chan_recv c H = (out, H')"
  shows "results_ok r co H'"
proof -
  have frame: "cells H' d = cells H d" if "d \<noteq> c" for d
    using recv that by (auto simp: chan_recv_def split: option.splits list.splits)
  have "idle H' d" if "idle H d" for d
    using that idle_recv recv frame by (cases "d = c") (auto simp: idle_def)
  moreover have "published H' d v" if "published H d v" for d v
    using that published_recv recv frame by (cases "d = c") (auto simp: published_def)
  ultimately show ?thesis using ok unfolding results_ok_def by (cases "co_at co") fastforce+
qed

text \<open>Whatever is read from a result channel is the verdict.\<close>

lemma result_is_verdict:
  assumes ok: "results_ok r co H" and c: "c \<in> set (rm_results r)" "fst (chan_recv c H) = Value v"
  shows "co_at co \<noteq> Gathering \<and> v = co_allAccepted co"
proof -
  have "v = w" if "published H c w" for w
    using that c(2) by (auto simp: published_def chan_recv_def)
  moreover have "\<not> idle H c"
    using c(2) by (auto simp: idle_def chan_recv_def)
  ultimately show ?thesis
    using ok c(1) unfolding results_ok_def by (cases "co_at co") (auto, blast+)
qed

lemma results_ok_step:
  assumes ok: "results_ok r (ck_co s) (ck_bools s)" and room: "room_ok r (ck_co s)" and idx: "index_ok (ck_co s)"
    and step: "check_step grow s t"
  shows "results_ok r (ck_co t) (ck_bools t)"
proof -
  have r: "co_room (ck_co s) = r" using room by (simp add: room_ok_def)
  have fail: "results_ok r (fail_room co) (ck_bools s)"
    if "co_at (ck_co s) = Gathering" "co_room co = r" for co
    using ok that by (auto simp: results_ok_def fail_room_def)
  show ?thesis
    using step unfolding check_step_def
  proof (elim disjE co_stepE env_stepE, goal_cases)
    case (1 i co B)
    have i: "i < length (rm_players r)" using 1(2) idx r by (auto simp: fan_in_recv_def index_ok_def split: if_splits)
    obtain out where "chan_recv (rm_responses r ! i) (ck_bools s) = (out, B)"
      and co: "co_at co = co_at (ck_co s)" "co_allAccepted co = co_allAccepted (ck_co s)"
      using 1(2) r by (auto simp: fan_in_recv_def split: if_splits prod.splits received.splits)
    from results_frame [OF results_ok_recv [OF ok this(1)] co] show ?case
      using 1(1) by simp
  next
    case (2 i co)
    then show ?case by (intro results_frame [OF ok]) (auto simp: fan_in_done_def split: if_splits)
  next
    case (3 co)
    then have at: "co_at (ck_co s) = Gathering" by (auto simp: gather_def split: if_splits)
    have "results_ok r (ck_co s) (ck_bools s) = (\<forall>c \<in> set (rm_results r). idle (ck_bools s) c)"
      using at by (simp add: results_ok_def)
    then have "results_ok r co' (ck_bools s)" if "co_at co' = Gathering" for co'
      using ok that by (simp add: results_ok_def)
    then show ?case
      using fail [OF at] at r 3 by (auto simp: gather_def Let_def split: if_splits list.splits)
  next
    case (4 co)
    then show ?case using fail r by (auto simp: gather_timeout_def split: if_splits)
  next
    case (5 now co ss)
    then show ?case using ok r by (auto simp: confirm_def results_ok_def split: if_splits)
  next
    case (6 co B)
    obtain cs where "co_at (ck_co s) = Publishing cs" using publish_at 6(2) by blast
    from publish_runs [OF room ok this] 6 show ?case by auto
  next
    case (7 co p)
    then show ?case using ok by (auto simp: requeue_def results_ok_def split: co_pc.splits list.splits)
  next
    case 8
    then show ?case by (intro results_frame [OF ok]) (auto simp: deadline_def)
  next
    case (9 i v B)
    then have "rm_responses r ! i \<notin> set (rm_results r)" using room_chans_apart(1) [OF room] r by simp
    then show ?case
      using 9 r by (intro results_frame [OF ok]) (auto simp: chan_try_send_def split: option.splits if_splits)
  next
    case (10 i out B)
    then show ?case using results_ok_recv [OF ok] by simp
  next
    case (13 B new)
    then show ?case using r by (intro results_frame [OF ok]) auto
  qed (use ok in simp_all)
qed

subsection \<open>A session only for ten acceptances\<close>

definition session_ok :: "Room \<Rightarrow> check \<Rightarrow> bool" where
  "session_ok r s \<longleftrightarrow> store_inv (ck_sessions s) \<and>
     (if co_at (ck_co s) \<noteq> Gathering \<and> co_allAccepted (ck_co s)
      then (\<exists>t. GetSession (rm_session r) (ck_sessions s) = Some t \<and> PlayerIDs t = map PlayerID (rm_players r))
           \<and> (\<forall>i < length (rm_players r). co_accepted (ck_co s) ! i)
      else GetSession (rm_session r) (ck_sessions s) = None)"

lemma session_cong:
  assumes "session_ok r s" "ck_sessions t = ck_sessions s" "co_accepted (ck_co t) = co_accepted (ck_co s)"
    and "co_at (ck_co t) \<noteq> Gathering \<and> co_allAccepted (ck_co t) \<longleftrightarrow> co_at (ck_co s) \<noteq> Gathering \<and> co_allAccepted (ck_co s)"
  shows "session_ok r t"
  using assms unfolding session_ok_def by auto

lemma RecordResult_creates_none:
  "sessions ss i = None \<Longrightarrow> sessions (fst (RecordResult now sid pid result score ss)) i = None"
  by (cases rule: RecordResult_cases [of ss sid now pid result score]) auto

lemma session_ok_step:
  assumes ok: "session_ok r s" and room: "room_ok r (ck_co s)" and idx: "index_ok (ck_co s)"
    and step: "check_step grow s t"
  shows "session_ok r t"
  using step unfolding check_step_def
proof (elim disjE co_stepE env_stepE, goal_cases)
  case (1 i co B)
  then show ?case
    by (intro session_cong [OF ok]) (auto simp: fan_in_recv_def split: if_splits prod.splits received.splits)
next
  case (2 i co)
  then show ?case by (intro session_cong [OF ok]) (auto simp: fan_in_done_def split: if_splits)
next
  case (3 co)
  then have "co_at (ck_co s) = Gathering" by (auto simp: gather_def split: if_splits)
  moreover have "co_at co = Gathering \<or> \<not> co_allAccepted co"
    using 3(2) by (auto simp: gather_def fail_room_def Let_def split: if_splits list.splits)
  ultimately show ?case using ok 3(1) by (auto simp: session_ok_def)
next
  case (4 co)
  then show ?case using ok by (auto simp: session_ok_def gather_timeout_def fail_room_def split: if_splits)
next
  case (5 now co ss)
  have at: "co_at (ck_co s) = Gathering" "\<not> co_received (ck_co s) < co_size (ck_co s)" and r: "co_room (ck_co s) = r"
    using 5(2) room by (auto simp: confirm_def room_ok_def split: if_splits)
  have ss: "ss = CreateSession now (rm_session r) (map PlayerID (rm_players r)) (ck_sessions s)"
    "co_accepted co = co_accepted (ck_co s)"
    using 5(2) r by (auto simp: confirm_def split: if_splits)
  have "store_inv ss" using ok CreateSession_inv unfolding ss session_ok_def by blast
  moreover have "GetSession (rm_session r) ss \<noteq> None" "co_at co \<noteq> Gathering" "co_allAccepted co"
    using 5(2) idx at by (auto simp: ss GetSession_def CreateSession_def confirm_def index_ok_def split: if_splits)
  ultimately show ?case
    using all_heard [OF idx at] r 5(1) by (simp add: session_ok_def ss GetSession_def CreateSession_def)
next
  case (6 co B)
  then show ?case
    by (intro session_cong [OF ok])
      (auto simp: co_defs split: co_pc.splits list.splits option.splits outcome.splits if_splits)
next
  case (7 co p)
  then show ?case by (intro session_cong [OF ok]) (auto simp: requeue_def split: co_pc.splits list.splits)
next
  case 8
  then show ?case by (intro session_cong [OF ok]) (auto simp: deadline_def)
next
  case (11 now sid pid result score)
  have "store_inv (ck_sessions s)" using ok by (simp add: session_ok_def)
  then show ?case
    using ok 11 RecordResult_inv RecordResult_keeps [OF \<open>store_inv (ck_sessions s)\<close>] RecordResult_creates_none
    unfolding session_ok_def GetSession_def by (auto split: if_splits) metis+
next
  case (14 sid now pids)
  have "co_room (ck_co s) = r" using room by (simp add: room_ok_def)
  then have "GetSession (rm_session r) (CreateSession now sid pids (ck_sessions s)) = GetSession (rm_session r) (ck_sessions s)"
    using 14(2) by (simp add: GetSession_def CreateSession_def)
  then show ?case using ok 14(1) CreateSession_inv by (simp add: session_ok_def)
qed (use ok in \<open>auto simp: session_ok_def\<close>)

subsection \<open>All together\<close>

definition check_inv :: "Room \<Rightarrow> check \<Rightarrow> bool" where
  "check_inv r s \<longleftrightarrow> room_ok r (ck_co s) \<and> index_ok (ck_co s) \<and> responses_ok r s
     \<and> results_ok r (ck_co s) (ck_bools s) \<and> session_ok r s"

lemma check_inv_init:
  assumes "check_init r s"
  shows "check_inv r s"
proof -
  have "cells (ck_bools s) (rm_responses r ! i) = Some \<lparr>ch_cap = 1, ch_buf = [], ch_closed = False\<rparr>"
    if "i < length (rm_players r)" for i
    using assms that by (auto simp: check_init_def idle_def)
  with assms show ?thesis
    by (auto simp: check_inv_def check_init_def launch_def room_ok_def index_ok_def responses_ok_def
        results_ok_def session_ok_def)
qed

lemma check_inv_step:
  assumes "check_inv r s" "check_step grow s t"
  shows "check_inv r t"
proof -
  note inv = assms(1) [unfolded check_inv_def]
  have frame: "cells B c = cells (ck_bools s) c"
    if pub: "publish (ck_co s) (ck_bools s) = Some (Ret (co, B))" and "c \<notin> set (rm_results r)" for co B c
  proof -
    obtain cs where "co_at (ck_co s) = Publishing cs" using publish_at pub by blast
    with publish_runs [of r "ck_co s" "ck_bools s" cs] inv that show ?thesis by auto
  qed
  have i: "room_ok r (ck_co s)" "index_ok (ck_co s)" "responses_ok r s" "results_ok r (ck_co s) (ck_bools s)"
    "session_ok r s"
    using inv by blast+
  show ?thesis
    unfolding check_inv_def
    by (intro conjI room_ok_step [OF i(1) assms(2)] index_ok_step [OF i(2,1) assms(2)]
        responses_ok_step [OF i(3,1,2) assms(2) frame] results_ok_step [OF i(4,1,2) assms(2)]
        session_ok_step [OF i(5,1,2) assms(2)])
qed

interpretation ready_check: inductive_invariant "check_init r" "check_step grow" "check_inv r" for r grow
  using check_inv_init check_inv_step by unfold_locales

section \<open>Progress\<close>

text \<open>What the coordinator's goroutines still have to do; nobody else can add to it.\<close>

fun pc_work :: "nat \<Rightarrow> co_pc \<Rightarrow> nat" where
  "pc_work n Gathering = 2 * n + 3"
| "pc_work n (Publishing cs) = length cs + n + 2"
| "pc_work n (Requeueing qs) = Suc (length qs)"
| "pc_work n Finished = 0"

definition co_work :: "Coordinator \<Rightarrow> nat" where
  "co_work co = 2 * length (co_listening co) + length (co_fanIn co) + pc_work (co_size co) (co_at co)"

lemma length_accepters: "length (accepters co) \<le> co_size co"
  unfolding accepters_def by (metis length_filter_le length_map length_zip min.bounded_iff)

lemma length_remove1_Suc: "i \<in> set xs \<Longrightarrow> Suc (length (remove1 i xs)) = length xs"
  by (simp add: length_remove1) (metis Suc_pred length_pos_if_in_set)

lemma co_work_step:
  assumes room: "room_ok r (ck_co s)" and step: "co_step grow s t"
  shows "co_work (ck_co t) < co_work (ck_co s)"
  using step
proof (cases rule: co_step.cases)
  case (fan_in i co B)
  then have "Suc (length (remove1 i (co_listening (ck_co s)))) = length (co_listening (ck_co s))"
    by (intro length_remove1_Suc) (auto simp: fan_in_recv_def split: if_splits)
  with fan_in show ?thesis
    by (auto simp: fan_in_recv_def co_work_def split: if_splits prod.splits received.splits)
next
  case (fan_in_end i co)
  then have "Suc (length (remove1 i (co_listening (ck_co s)))) = length (co_listening (ck_co s))"
    by (intro length_remove1_Suc) (auto simp: fan_in_done_def split: if_splits)
  with fan_in_end show ?thesis
    by (auto simp: fan_in_done_def co_work_def split: if_splits)
next
  case (published co B)
  then show ?thesis
    using length_accepters [of "ck_co s"]
    by (auto simp: publish_def co_work_def split: co_pc.splits list.splits option.splits outcome.splits)
qed (use room in \<open>auto simp: room_ok_def co_work_def gather_def gather_timeout_def confirm_def requeue_def
    fail_room_def Let_def split: if_splits list.splits co_pc.splits\<close>)

lemma co_work_env: "env_step s t \<Longrightarrow> co_work (ck_co t) = co_work (ck_co s)"
  by (erule env_stepE) (simp_all add: co_work_def deadline_def)

text \<open>Runs of the whole machine with the number of steps the coordinator has made in them.\<close>

inductive co_run :: "(nat \<Rightarrow> nat \<Rightarrow> nat) \<Rightarrow> check \<Rightarrow> nat \<Rightarrow> check \<Rightarrow> bool" for grow s where
  start: "co_run grow s 0 s"
| own: "co_run grow s k t \<Longrightarrow> co_step grow t u \<Longrightarrow> co_run grow s (Suc k) u"
| other: "co_run grow s k t \<Longrightarrow> env_step t u \<Longrightarrow> co_run grow s k u"

lemma co_run_inv:
  "co_run grow s k t \<Longrightarrow> check_inv r s \<Longrightarrow> check_inv r t \<and> k + co_work (ck_co t) \<le> co_work (ck_co s)"
proof (induction rule: co_run.induct)
  case (own k t u)
  then have "check_inv r t" "k + co_work (ck_co t) \<le> co_work (ck_co s)" by blast+
  moreover have "co_work (ck_co u) < co_work (ck_co t)"
    using co_work_step own.hyps(2) \<open>check_inv r t\<close> by (metis check_inv_def)
  ultimately show ?case using check_inv_step own.hyps(2) by (auto simp: check_step_def)
next
  case (other k t u)
  then show ?case using check_inv_step co_work_env by (auto simp: check_step_def)
qed simp

lemma co_step_enabled:
  assumes inv: "check_inv r s" and expired: "co_done (ck_co s)" and run: "co_at (ck_co s) \<noteq> Finished"
  shows "\<exists>t. co_step grow s t"
proof (cases "co_at (ck_co s)")
  case Gathering
  show ?thesis
  proof (cases "co_received (ck_co s) < co_size (ck_co s)")
    case True
    then have "gather_timeout (ck_co s) = Some (fail_room (ck_co s))"
      using Gathering expired by (simp add: gather_timeout_def)
    then show ?thesis by (metis co_step.timed_out)
  next
    case False
    then obtain co ss where "confirm 0 (ck_co s) (ck_sessions s) = Some (co, ss)"
      using Gathering by (simp add: confirm_def)
    then show ?thesis by (metis co_step.confirmed)
  qed
next
  case (Publishing cs)
  with publish_runs [of r "ck_co s" "ck_bools s"] inv show ?thesis
    by (metis check_inv_def co_step.published)
next
  case (Requeueing qs)
  then obtain co p where "requeue grow (ck_co s) (ck_pool s) = Some (co, p)"
    by (cases qs) (simp_all add: requeue_def)
  then show ?thesis by (metis co_step.requeued)
qed (use run in simp)

section \<open>Sessions, results and panics\<close>

lemma agreement:
  assumes "reachable (check_init r) (check_step grow) s"
  shows "(case GetSession (rm_session r) (ck_sessions s) of
       None \<Rightarrow> co_at (ck_co s) = Gathering \<or> \<not> co_allAccepted (ck_co s)
     | Some t \<Rightarrow> co_at (ck_co s) \<noteq> Gathering \<and> co_allAccepted (ck_co s) \<and> PlayerIDs t = map PlayerID (rm_players r)
         \<and> (\<forall>i < length (rm_players r). (rm_responses r ! i, True) \<in> set (ck_sent s)))
   \<and> (\<forall>c \<in> set (rm_results r). \<forall>v. fst (chan_recv c (ck_bools s)) = Value v \<longrightarrow>
         co_at (ck_co s) \<noteq> Gathering \<and> v = co_allAccepted (ck_co s))"
proof -
  have inv: "check_inv r s" by (rule ready_check.reachable_inv [OF assms])
  then have ok: "responses_ok r s" "results_ok r (ck_co s) (ck_bools s)" "session_ok r s"
    by (simp_all add: check_inv_def)
  then show ?thesis
    using result_is_verdict [OF ok(2)] ok(1,3) unfolding session_ok_def responses_ok_def by (auto split: option.splits if_splits)
qed

lemma publish_no_panic:
  assumes "reachable (check_init r) (check_step grow) s"
  shows "publish (ck_co s) (ck_bools s) \<noteq> Some Panic"
proof
  assume p: "publish (ck_co s) (ck_bools s) = Some Panic"
  then obtain cs where at: "co_at (ck_co s) = Publishing cs" using publish_at by metis
  have "room_ok r (ck_co s)" "results_ok r (ck_co s) (ck_bools s)"
    using ready_check.reachable_inv [OF assms] by (simp_all add: check_inv_def)
  from publish_runs [OF this at] p show False by auto
qed

section \<open>The re-enqueue loop\<close>

definition requeue_all :: "(nat \<Rightarrow> nat \<Rightarrow> nat) \<Rightarrow> QueuedPlayer list \<Rightarrow> Pool \<Rightarrow> Pool" where
  "requeue_all grow qs p = fold (\<lambda>q p. fst (ReEnqueue grow q p)) qs p"

fun requeue_loop :: "(nat \<Rightarrow> nat \<Rightarrow> nat) \<Rightarrow> nat \<Rightarrow> Coordinator \<Rightarrow> Pool \<Rightarrow> (Coordinator \<times> Pool) option" where
  "requeue_loop grow 0 co p = Some (co, p)"
| "requeue_loop grow (Suc n) co p = (case requeue grow co p of
       None \<Rightarrow> None
     | Some (co', p') \<Rightarrow> requeue_loop grow n co' p')"

lemma requeue_loop_all:
  "co_at co = Requeueing qs \<Longrightarrow>
     requeue_loop grow (Suc (length qs)) co p = Some (co\<lparr>co_at := Finished\<rparr>, requeue_all grow qs p)"
proof (induction qs arbitrary: co p)
  case Nil
  then show ?case by (simp add: requeue_def requeue_all_def)
next
  case (Cons q qs)
  have "requeue grow co p = Some (co\<lparr>co_at := Requeueing qs\<rparr>, fst (ReEnqueue grow q p))"
    using Cons.prems by (simp add: requeue_def)
  with Cons.IH [of "co\<lparr>co_at := Requeueing qs\<rparr>" "fst (ReEnqueue grow q p)"]
  show ?case by (simp only: requeue_loop.simps(2) list.size(4) plus_1_eq_Suc Nat.add_Suc_right add_0_right
        option.case prod.case) (simp add: requeue_all_def)
qed

lemma requeue_all_spec:
  assumes "pool_inv p" "distinct (map PlayerID qs)" "distinct (map MatchCh qs)"
    and "\<forall>q \<in> set qs. \<not> Contains (PlayerID q) p \<and> idle (match_heap p) (MatchCh q) \<and> MatchCh q \<notin> MatchCh ` queued p"
  shows "pool_inv (requeue_all grow qs p) \<and> queued (requeue_all grow qs p) = queued p \<union> set qs
    \<and> Size (requeue_all grow qs p) = Size p + length qs \<and> match_heap (requeue_all grow qs p) = match_heap p"
  using assms
proof (induction qs arbitrary: p)
  case Nil
  then show ?case by (simp add: requeue_all_def)
next
  case (Cons q qs)
  let ?p = "fst (ReEnqueue grow q p)"
  have none: "players p (PlayerID q) = None" using Cons.prems(4) by (simp add: Contains_def)
  then have pl: "players ?p = (players p)(PlayerID q \<mapsto> q)" and heap: "match_heap ?p = match_heap p"
    by (simp_all add: ReEnqueue_def Let_def)
  have "match_chan_ok (match_heap p) (MatchCh q)" using Cons.prems(4) by (auto simp: idle_def match_chan_ok_def)
  then have inv: "pool_inv ?p" using ReEnqueue_inv Cons.prems(1,4) by simp
  have q: "queued ?p = insert q (queued p)" using none pl by (simp add: queued_def ran_map_upd)
  have "\<forall>x \<in> set qs. \<not> Contains (PlayerID x) ?p \<and> idle (match_heap ?p) (MatchCh x) \<and> MatchCh x \<notin> MatchCh ` queued ?p"
    using Cons.prems(2-4) unfolding q heap by (auto simp: Contains_def pl image_iff)
  with Cons.IH [OF inv] Cons.prems(2,3) Size_insert [OF Cons.prems(1) none pl] q heap
  show ?case by (simp add: requeue_all_def)
qed

section \<open>Example\<close>

text \<open>A ready check of two players, the second of whom has accepted when the first declines.\<close>

definition duo :: Room where
  "duo = \<lparr>rm_session = ''s'', rm_players = demo_roster [(1200, 0), (1400, 5)], rm_responses = [0, 2], rm_results = [1, 3]\<rparr>"

definition duo_start :: check where
  "duo_start = \<lparr>ck_co = launch duo, ck_pool = NewPool, ck_sessions = NewSessionStore,
     ck_bools = fst (make_channels 2 no_chans), ck_sent = []\<rparr>"

definition duo_bools :: "bool list \<Rightarrow> bool list \<Rightarrow> bool chans" where
  "duo_bools b0 b2 = \<lparr>cells = Map.empty(0 \<mapsto> \<lparr>ch_cap = 1, ch_buf = b0, ch_closed = False\<rparr>,
     1 \<mapsto> \<lparr>ch_cap = 1, ch_buf = [], ch_closed = False\<rparr>, 2 \<mapsto> \<lparr>ch_cap = 1, ch_buf = b2, ch_closed = False\<rparr>,
     3 \<mapsto> \<lparr>ch_cap = 1, ch_buf = [], ch_closed = False\<rparr>), next_id = 4\<rparr>"

lemma duo_bools_start: "ck_bools duo_start = duo_bools [] []"
  by (simp add: duo_start_def duo_bools_def no_chans_def make_chan_def Let_def numeral_2_eq_2 numeral_3_eq_3 eval_nat_numeral)

lemma duo_init: "check_init duo duo_start"
  unfolding check_init_def duo_bools_start
  by (simp add: duo_start_def duo_def duo_bools_def idle_def GetSession_def NewSessionStore_def store_inv_def)

lemma duo_reachable: "reachable (check_init duo) (check_step grow) duo_start"
  by (rule reachable.start) (rule duo_init)

definition duo_declined :: check where
  "duo_declined = duo_start\<lparr>ck_co := (launch duo)\<lparr>co_listening := [1], co_fanIn := [(0, False)]\<rparr>,
     ck_bools := duo_bools [] [True], ck_sent := [(0, False), (2, True)]\<rparr>"

lemma duo_declined_reachable: "reachable (check_init duo) (check_step grow) duo_declined"
proof -
  let ?s1 = "duo_start\<lparr>ck_bools := duo_bools [False] [], ck_sent := [(0, False)]\<rparr>"
  let ?s2 = "duo_start\<lparr>ck_bools := duo_bools [False] [True], ck_sent := [(0, False), (2, True)]\<rparr>"
  have "chan_try_send (rm_responses (co_room (ck_co duo_start)) ! 0) False (ck_bools duo_start)
      = Ret (True, duo_bools [False] [])"
    unfolding duo_bools_start
    by (simp add: duo_start_def launch_def duo_def duo_bools_def chan_try_send_def fun_upd_twist)
  from env_step.respond [OF _ this] have s1: "check_step grow duo_start ?s1"
    by (simp add: check_step_def duo_start_def launch_def duo_def)
  have "chan_try_send (rm_responses (co_room (ck_co ?s1)) ! 1) True (ck_bools ?s1)
      = Ret (True, duo_bools [False] [True])"
    by (simp add: duo_start_def launch_def duo_def duo_bools_def chan_try_send_def fun_upd_twist)
  from env_step.respond [OF _ this] have s2: "check_step grow ?s1 ?s2"
    by (simp add: check_step_def duo_start_def launch_def duo_def)
  have "fan_in_recv 0 (ck_co ?s2) (ck_bools ?s2)
      = Some ((launch duo)\<lparr>co_listening := [1], co_fanIn := [(0, False)]\<rparr>, duo_bools [] [True])"
    by (simp add: fan_in_recv_def duo_start_def launch_def duo_def duo_bools_def chan_recv_def fun_upd_twist upt_rec)
  from co_step.fan_in [OF this, of grow] have s3: "check_step grow ?s2 duo_declined"
    by (simp add: check_step_def duo_declined_def duo_start_def)
  show ?thesis
    by (rule reachable.move [OF reachable.move [OF reachable.move [OF duo_reachable s1] s2] s3])
qed

section \<open>Properties\<close>

text \<open>A session exists exactly for a ready check that has ended with every player's acceptance, each
  of which was really sent; it lists the room's players; and whatever a gateway reads from its result
  channel is that verdict, never before it is reached. This holds in every interleaving with
  gateways, timeouts, submissions and changes of the pool.\<close>

theorem ready_check_agreement:
  assumes "reachable (check_init r) (check_step grow) s"
  shows "(case GetSession (rm_session r) (ck_sessions s) of
       None \<Rightarrow> co_at (ck_co s) = Gathering \<or> \<not> co_allAccepted (ck_co s)
     | Some t \<Rightarrow> co_at (ck_co s) \<noteq> Gathering \<and> co_allAccepted (ck_co s) \<and> PlayerIDs t = map PlayerID (rm_players r)
         \<and> (\<forall>i < length (rm_players r). (rm_responses r ! i, True) \<in> set (ck_sent s)))
   \<and> (\<forall>c \<in> set (rm_results r). \<forall>v. fst (chan_recv c (ck_bools s)) = Value v \<longrightarrow>
         co_at (ck_co s) \<noteq> Gathering \<and> v = co_allAccepted (ck_co s))"
  using agreement [OF assms] .

theorem ready_check_agreement_witness:
  "GetSession ''s'' (ck_sessions duo_declined) = None \<and> \<not> (\<exists>v. fst (chan_recv 1 (ck_bools duo_declined)) = Value v)"
proof -
  have "GetSession ''s'' (ck_sessions duo_declined) = None" "co_at (ck_co duo_declined) = Gathering"
    by (simp_all add: duo_declined_def duo_start_def launch_def NewSessionStore_def GetSession_def)
  with ready_check_agreement [OF duo_declined_reachable] show ?thesis by (simp add: duo_def)
qed

text \<open>The coordinator never panics and never waits on a channel of its own: the fan-in channel, made
  with room for one value per player, never holds more, and publishing a result always finds an
  open channel with room and closes it once.\<close>

theorem ready_check_channels:
  assumes "reachable (check_init r) (check_step grow) s"
  shows "length (co_fanIn (ck_co s)) \<le> length (rm_players r)
    \<and> publish (ck_co s) (ck_bools s) \<noteq> Some Panic
    \<and> (\<forall>cs. co_at (ck_co s) = Publishing cs \<longrightarrow> (\<exists>co B. publish (ck_co s) (ck_bools s) = Some (Ret (co, B))))"
proof -
  have ok: "room_ok r (ck_co s)" "index_ok (ck_co s)" "results_ok r (ck_co s) (ck_bools s)"
    using ready_check.reachable_inv [OF assms] by (simp_all add: check_inv_def)
  have "length (co_fanIn (ck_co s)) = card (fst ` set (co_fanIn (ck_co s)))"
    using ok(2) unfolding index_ok_def by (metis distinct_card length_map set_map)
  also have "\<dots> \<le> card {..<length (rm_players r)}"
    using ok(1,2) by (intro card_mono) (auto simp: index_ok_def room_ok_def)
  finally have "length (co_fanIn (ck_co s)) \<le> length (rm_players r)" by simp
  moreover have "\<exists>co B. publish (ck_co s) (ck_bools s) = Some (Ret (co, B))" if "co_at (ck_co s) = Publishing cs" for cs
    using publish_runs [OF ok(1,3) that] by metis
  ultimately show ?thesis using publish_at by fastforce
qed

theorem ready_check_channels_witness:
  "length (co_fanIn (ck_co duo_declined)) \<le> 2"
  using ready_check_channels [OF duo_declined_reachable] by (simp add: duo_def)

text \<open>C29: a ready check ends: in every run, however it is interleaved, the coordinator and its fan-in
  goroutines make at most \<open>4 n + 3\<close> steps for \<open>n\<close> players; and once the deadline has passed they are
  never stuck before the end.\<close>

theorem ready_check_terminates:
  assumes "check_init r s" "co_run grow s k t"
  shows "k \<le> 4 * length (rm_players r) + 3
    \<and> (co_done (ck_co t) \<and> (\<nexists>u. co_step grow t u) \<longrightarrow> co_at (ck_co t) = Finished)"
proof -
  have "check_inv r t" "k + co_work (ck_co t) \<le> co_work (ck_co s)"
    using co_run_inv [OF assms(2) check_inv_init [OF assms(1)]] by blast+
  moreover have "co_work (ck_co s) = 4 * length (rm_players r) + 3"
    using assms(1) by (simp add: check_init_def launch_def co_work_def)
  ultimately show ?thesis using co_step_enabled by fastforce
qed

theorem ready_check_terminates_witness:
  "\<exists>u. co_step (\<lambda>c n. n) (duo_start\<lparr>ck_co := deadline (ck_co duo_start)\<rparr>) u"
proof -
  have "co_run (\<lambda>c n. n) duo_start 0 (duo_start\<lparr>ck_co := deadline (ck_co duo_start)\<rparr>)"
    by (rule co_run.other [OF co_run.start env_step.expire])
  from ready_check_terminates [OF duo_init this] show ?thesis
    by (auto simp: deadline_def duo_start_def launch_def)
qed

text \<open>After a failed check the re-enqueue loop puts every player it visits back into the pool as the
  same value, so with the old join time and the old channel: the pool keeps its invariant and grows
  by exactly these players.\<close>

theorem requeue_correct:
  assumes "pool_inv p" "co_at co = Requeueing qs" "distinct (map PlayerID qs)" "distinct (map MatchCh qs)"
    and "\<forall>q \<in> set qs. \<not> Contains (PlayerID q) p \<and> idle (match_heap p) (MatchCh q) \<and> MatchCh q \<notin> MatchCh ` queued p"
  shows "\<exists>p'. requeue_loop grow (Suc (length qs)) co p = Some (co\<lparr>co_at := Finished\<rparr>, p')
    \<and> pool_inv p' \<and> queued p' = queued p \<union> set qs \<and> Size p' = Size p + length qs
    \<and> match_heap p' = match_heap p"
  using requeue_loop_all [OF assms(2)] requeue_all_spec [OF assms(1,3,4,5)] by blast

definition back_in :: Pool where
  "back_in = \<lparr>players = Map.empty, brackets = Map.empty, match_heap = match_heap (pool_of (demo_roster [(1200, 0), (1400, 5)]))\<rparr>"

theorem requeue_correct_witness:
  "\<exists>p'. requeue_loop (\<lambda>c n. n) 3 ((launch duo)\<lparr>co_at := Requeueing (rm_players duo)\<rparr>) back_in
      = Some ((launch duo)\<lparr>co_at := Finished\<rparr>, p') \<and> Size p' = 2"
proof -
  have r: "roster (rm_players duo)" using roster_of_two by (simp add: duo_def)
  have len: "length (rm_players duo) = 2" by (simp add: duo_def)
  have q: "queued back_in = {}" by (simp add: back_in_def queued_def)
  have inv: "pool_inv back_in"
    using pool_of_inv [OF roster_of_two] by (simp add: pool_inv_def q) (simp add: back_in_def index_inv_empty)
  have idle: "\<forall>x \<in> set (rm_players duo). idle (match_heap back_in) (MatchCh x)"
    using ready_pool_of [OF roster_of_two] queued_pool_of [OF roster_of_two]
    by (simp add: ready_pool_def back_in_def duo_def)
  have "distinct (map PlayerID (rm_players duo))" "distinct (map MatchCh (rm_players duo))"
    using r by (simp_all add: roster_def)
  from requeue_correct [OF inv _ this, of "(launch duo)\<lparr>co_at := Requeueing (rm_players duo)\<rparr>" "\<lambda>c n. n"] idle len
  show ?thesis by (auto simp: q Contains_def eval_nat_numeral) (auto simp: back_in_def Size_def)
qed



end
