(* ===== verification/Nexus_Gateway.thy ===== *)
theory Nexus_Gateway
  imports Nexus_Matchmaker
begin

text \<open>
  \<open>internal/services/gateway.go\<close>: the handler of one \<open>EnterMatchmaking\<close> stream and its reader goroutine.
  The local variables are the record \<open>Stream\<close>; \<open>gw_at\<close> says where the handler waits. Each function is
  the code from one \<open>select\<close> (or receive) to the next, \<open>None\<close> where that case is not ready. The clock
  and whether a \<open>stream.Send\<close> succeeds are arguments; only responses that were sent are kept.
\<close>

section \<open>State\<close>

datatype gw_pc = Selecting | Checking MatchEvent | Awaiting MatchEvent | Returning grpc_error | Returned grpc_error

record Stream =
  gw_qp :: QueuedPlayer
  gw_reading :: bool
  gw_clientDone :: bool
  gw_cancelReq :: "string list"
  gw_acceptReq :: "unit list"
  gw_ctxDone :: bool
  gw_sent :: "GatewayResponse list"
  gw_at :: gw_pc

definition pushed :: "bool \<Rightarrow> GatewayResponse \<Rightarrow> Stream \<Rightarrow> Stream" where
  "pushed ok resp st = (if ok then st\<lparr>gw_sent := gw_sent st @ [resp]\<rparr> else st)"

section \<open>Responses\<close>

definition joined_response :: "gtime \<Rightarrow> GatewayResponse" where
  "joined_response now = \<lparr>gr_Status = QUEUE_STATUS_WAITING,
     gr_Message = ''You are in the queue. Searching for opponents...'', gr_QueuePosition = 0,
     gr_ServerTimestampMs = UnixMilli now, gr_Match = None\<rparr>"

definition assignment :: "MatchEvent \<Rightarrow> MatchAssignment" where
  "assignment evt = \<lparr>ma_SessionId = evt_SessionID evt, ma_PlayerIds = evt_PlayerIDs evt,
     ma_CreatedAtMs = UnixMilli (evt_CreatedAt evt)\<rparr>"

definition check_response :: "gtime \<Rightarrow> MatchEvent \<Rightarrow> GatewayResponse" where
  "check_response now evt = \<lparr>gr_Status = QUEUE_STATUS_READY_CHECK,
     gr_Message = ''Match found! Accept within 10 seconds.'', gr_QueuePosition = 0,
     gr_ServerTimestampMs = UnixMilli now, gr_Match = Some (assignment evt)\<rparr>"

definition game_response :: "gtime \<Rightarrow> MatchEvent \<Rightarrow> GatewayResponse" where
  "game_response now evt = \<lparr>gr_Status = QUEUE_STATUS_IN_GAME,
     gr_Message = ''All players accepted. Session starting!'', gr_QueuePosition = 0,
     gr_ServerTimestampMs = UnixMilli now, gr_Match = Some (assignment evt)\<rparr>"

definition requeued_response :: "gtime \<Rightarrow> GatewayResponse" where
  "requeued_response now = \<lparr>gr_Status = QUEUE_STATUS_WAITING,
     gr_Message = ''Another player failed ready check. You have been re-queued.'', gr_QueuePosition = 0,
     gr_ServerTimestampMs = UnixMilli now, gr_Match = None\<rparr>"

definition ticker_response :: "gtime \<Rightarrow> nat \<Rightarrow> GatewayResponse" where
  "ticker_response now n = \<lparr>gr_Status = QUEUE_STATUS_WAITING, gr_Message = ''Still searching...'',
     gr_QueuePosition = word_of_nat n, gr_ServerTimestampMs = UnixMilli now, gr_Match = None\<rparr>"

definition cancelled_response :: "gtime \<Rightarrow> string \<Rightarrow> GatewayResponse" where
  "cancelled_response now msg = \<lparr>gr_Status = QUEUE_STATUS_CANCELLED, gr_Message = msg, gr_QueuePosition = 0,
     gr_ServerTimestampMs = UnixMilli now, gr_Match = None\<rparr>"

lemmas response_defs = joined_response_def check_response_def game_response_def requeued_response_def
  ticker_response_def cancelled_response_def queue_status_defs

section \<open>Joining\<close>

text \<open>The checks of the first message; \<open>None\<close> is a failed \<open>Recv\<close>.\<close>

definition join_check :: "GatewayRequest option \<Rightarrow> code + PlayerInfo" where
  "join_check firstMsg = (case firstMsg of
       None \<Rightarrow> Inl InvalidArgument
     | Some _ \<Rightarrow> (case GetJoinQueue firstMsg of
           None \<Rightarrow> Inl InvalidArgument
         | Some join \<Rightarrow> (case jq_Player join of
               None \<Rightarrow> Inl InvalidArgument
             | Some player \<Rightarrow>
                 if pi_PlayerId player = [] then Inl InvalidArgument
                 else if sint (pi_Mmr player) < 0 \<or> MaxMMR < sint (pi_Mmr player) then Inl InvalidArgument
                 else Inr player)))"

text \<open>
  From the first message to the start of the reader. \<open>joined\<close> is the clock of \<open>Enqueue\<close>, \<open>now\<close> that of
  the acknowledgment; when this cannot be sent the handler returns before the reader is started.
\<close>

definition EnterMatchmaking ::
  "(nat \<Rightarrow> nat \<Rightarrow> nat) \<Rightarrow> gtime \<Rightarrow> gtime \<Rightarrow> bool \<Rightarrow> GatewayRequest option \<Rightarrow> Pool \<Rightarrow> Pool \<times> (grpc_error + Stream)" where
  "EnterMatchmaking grow joined now ok firstMsg p = (case join_check firstMsg of
       Inl c \<Rightarrow> (p, Inl (Some c))
     | Inr player \<Rightarrow>
         (case Enqueue grow joined (pi_PlayerId player) (pi_DisplayName player) (pi_Mmr player) p of
            (p', Inl _) \<Rightarrow> (p', Inl (Some AlreadyExists))
          | (p', Inr qp) \<Rightarrow>
              (p', Inr (pushed ok (joined_response now)
                 \<lparr>gw_qp = qp, gw_reading = ok, gw_clientDone = False, gw_cancelReq = [], gw_acceptReq = [],
                  gw_ctxDone = False, gw_sent = [], gw_at = if ok then Selecting else Returning (Some Internal)\<rparr>))))"

section \<open>The reader goroutine\<close>

text \<open>
  One turn of the reader with what \<open>Recv\<close> returned. It leaves after an error and after a cancel
  request, and closes \<open>clientDone\<close> in both cases. \<open>cancelReq\<close> gets one value at most, so its send
  never waits; \<open>acceptReq\<close> holds one.
\<close>

definition reader_turn :: "GatewayRequest option \<Rightarrow> Stream \<Rightarrow> Stream option" where
  "reader_turn recv st =
     (if \<not> gw_reading st then None
      else (case recv of
          None \<Rightarrow> Some (st\<lparr>gw_reading := False, gw_clientDone := True\<rparr>)
        | Some _ \<Rightarrow>
            if GetHeartbeat recv \<noteq> None then Some st
            else if GetCancelQueue recv \<noteq> None
            then Some (st\<lparr>gw_cancelReq := gw_cancelReq st @ [PlayerID (gw_qp st)], gw_reading := False,
                         gw_clientDone := True\<rparr>)
            else if GetAcceptMatch recv \<noteq> None
            then Some (if length (gw_acceptReq st) < 1 then st\<lparr>gw_acceptReq := gw_acceptReq st @ [()]\<rparr> else st)
            else Some st))"

section \<open>The main select\<close>

definition on_match :: "gtime \<Rightarrow> bool \<Rightarrow> Stream \<Rightarrow> Pool \<Rightarrow> (Stream \<times> Pool) option" where
  "on_match now ok st p =
     (if gw_at st \<noteq> Selecting then None
      else (case chan_recv (MatchCh (gw_qp st)) (match_heap p) of
          (Blocked, _) \<Rightarrow> None
        | (Closed, heap) \<Rightarrow>
            Some ((pushed ok (cancelled_response now ''Queue cancelled.'') st)\<lparr>gw_at := Returning (Some Aborted)\<rparr>,
                  p\<lparr>match_heap := heap\<rparr>)
        | (Value evt, heap) \<Rightarrow>
            Some ((pushed ok (check_response now evt) st)
                    \<lparr>gw_at := if ok then Checking evt else Returning (Some Internal)\<rparr>,
                  p\<lparr>match_heap := heap\<rparr>)))"

definition on_ticker :: "gtime \<Rightarrow> bool \<Rightarrow> Stream \<Rightarrow> Pool \<Rightarrow> Stream option" where
  "on_ticker now ok st p =
     (if gw_at st \<noteq> Selecting then None
      else Some ((pushed ok (ticker_response now (Size p)) st)
                   \<lparr>gw_at := if ok then Selecting else Returning (Some Unavailable)\<rparr>))"

definition on_cancel :: "gtime \<Rightarrow> bool \<Rightarrow> Stream \<Rightarrow> Pool \<Rightarrow> (Stream \<times> Pool) outcome option" where
  "on_cancel now ok st p =
     (if gw_at st \<noteq> Selecting then None
      else (case gw_cancelReq st of
          [] \<Rightarrow> None
        | _ # rest \<Rightarrow> (case Dequeue (PlayerID (gw_qp st)) p of
            (p', Panic) \<Rightarrow> Some Panic
          | (p', Ret _) \<Rightarrow>
              Some (Ret ((pushed ok (cancelled_response now ''Queue cancelled by player.'')
                            (st\<lparr>gw_cancelReq := rest\<rparr>))\<lparr>gw_at := Returning (Some Canceled)\<rparr>, p')))))"

definition on_client_done :: "Stream \<Rightarrow> Stream option" where
  "on_client_done st =
     (if gw_at st = Selecting \<and> gw_clientDone st then Some (st\<lparr>gw_at := Returning (Some Aborted)\<rparr>) else None)"

definition on_ctx_done :: "Stream \<Rightarrow> Stream option" where
  "on_ctx_done st =
     (if gw_at st = Selecting \<and> gw_ctxDone st then Some (st\<lparr>gw_at := Returning (Some DeadlineExceeded)\<rparr>)
      else None)"

section \<open>The ready check\<close>

text \<open>
  The acceptance case with the guarded send of \<open>true\<close>; and the other three cases (timeout, client gone,
  context done), which send \<open>false\<close>, tell the client and return. The timer can fire at any time.
\<close>

definition check_accepted :: "Stream \<Rightarrow> bool chans \<Rightarrow> (Stream \<times> bool chans) outcome option" where
  "check_accepted st H = (case gw_at st of
       Checking evt \<Rightarrow>
         (case gw_acceptReq st of
            [] \<Rightarrow> None
          | _ # rest \<Rightarrow> Some (ret_bind (chan_try_send (ResponseCh evt) True H)
              (\<lambda>(sent, H'). Ret (st\<lparr>gw_acceptReq := rest, gw_at := Awaiting evt\<rparr>, H'))))
     | _ \<Rightarrow> None)"

datatype check_end = TimerFired | ClientGone | CtxGone

fun check_end_ready :: "check_end \<Rightarrow> Stream \<Rightarrow> bool" where
  "check_end_ready TimerFired st = True"
| "check_end_ready ClientGone st = gw_clientDone st"
| "check_end_ready CtxGone st = gw_ctxDone st"

definition check_refused ::
  "check_end \<Rightarrow> gtime \<Rightarrow> bool \<Rightarrow> Stream \<Rightarrow> bool chans \<Rightarrow> (Stream \<times> bool chans) outcome option" where
  "check_refused why now ok st H = (case gw_at st of
       Checking evt \<Rightarrow>
         (if check_end_ready why st
          then Some (ret_bind (chan_try_send (ResponseCh evt) False H)
             (\<lambda>(sent, H'). Ret ((pushed ok (cancelled_response now
                 ''Ready check failed. Returning to queue or disconnecting.'') st)\<lparr>gw_at := Returning (Some Aborted)\<rparr>, H')))
          else None)
     | _ \<Rightarrow> None)"

text \<open>The wait for the verdict.\<close>

definition on_verdict :: "gtime \<Rightarrow> bool \<Rightarrow> Stream \<Rightarrow> bool chans \<Rightarrow> (Stream \<times> bool chans) option" where
  "on_verdict now ok st H = (case gw_at st of
       Awaiting evt \<Rightarrow>
         (case chan_recv (ResultCh evt) H of
            (Blocked, _) \<Rightarrow> None
          | (Value True, H') \<Rightarrow>
              Some ((pushed ok (game_response now evt) st)
                      \<lparr>gw_at := if ok then Returning None else Returning (Some Internal)\<rparr>, H')
          | (_, H') \<Rightarrow> Some ((pushed ok (requeued_response now) st)\<lparr>gw_at := Selecting\<rparr>, H'))
     | _ \<Rightarrow> None)"

text \<open>The deferred \<open>Dequeue\<close>, on every way out.\<close>

definition deferred_dequeue :: "Stream \<Rightarrow> Pool \<Rightarrow> (Stream \<times> Pool) outcome option" where
  "deferred_dequeue st p = (case gw_at st of
       Returning err \<Rightarrow> (case Dequeue (PlayerID (gw_qp st)) p of
           (p', Panic) \<Rightarrow> Some Panic
         | (p', Ret _) \<Rightarrow> Some (Ret (st\<lparr>gw_at := Returned err\<rparr>, p')))
     | _ \<Rightarrow> None)"

section \<open>A stream among the others\<close>

record gate =
  g_stream :: Stream
  g_pool :: Pool
  g_bools :: "bool chans"

text \<open>
  The stream's own steps, labelled with the responses to the coordinator that they have sent; a send
  that finds no room leaves no label.
\<close>

definition answers :: "bool \<Rightarrow> Stream \<Rightarrow> bool chans \<Rightarrow> (chan_id \<times> bool) list" where
  "answers v st H = (case gw_at st of
       Checking evt \<Rightarrow> (case chan_try_send (ResponseCh evt) v H of
           Ret (True, _) \<Rightarrow> [(ResponseCh evt, v)]
         | _ \<Rightarrow> [])
     | _ \<Rightarrow> [])"

inductive gw_step :: "(chan_id \<times> bool) list \<Rightarrow> gate \<Rightarrow> gate \<Rightarrow> bool" where
  reader: "reader_turn msg (g_stream s) = Some st \<Longrightarrow> gw_step [] s (s\<lparr>g_stream := st\<rparr>)"
| matched: "on_match now ok (g_stream s) (g_pool s) = Some (st, p) \<Longrightarrow> gw_step [] s (s\<lparr>g_stream := st, g_pool := p\<rparr>)"
| ticked: "on_ticker now ok (g_stream s) (g_pool s) = Some st \<Longrightarrow> gw_step [] s (s\<lparr>g_stream := st\<rparr>)"
| cancelled: "on_cancel now ok (g_stream s) (g_pool s) = Some (Ret (st, p))
     \<Longrightarrow> gw_step [] s (s\<lparr>g_stream := st, g_pool := p\<rparr>)"
| client_done: "on_client_done (g_stream s) = Some st \<Longrightarrow> gw_step [] s (s\<lparr>g_stream := st\<rparr>)"
| ctx_done: "on_ctx_done (g_stream s) = Some st \<Longrightarrow> gw_step [] s (s\<lparr>g_stream := st\<rparr>)"
| accepted: "check_accepted (g_stream s) (g_bools s) = Some (Ret (st, B))
     \<Longrightarrow> gw_step (answers True (g_stream s) (g_bools s)) s (s\<lparr>g_stream := st, g_bools := B\<rparr>)"
| refused: "check_refused why now ok (g_stream s) (g_bools s) = Some (Ret (st, B))
     \<Longrightarrow> gw_step (answers False (g_stream s) (g_bools s)) s (s\<lparr>g_stream := st, g_bools := B\<rparr>)"
| verdict: "on_verdict now ok (g_stream s) (g_bools s) = Some (st, B)
     \<Longrightarrow> gw_step [] s (s\<lparr>g_stream := st, g_bools := B\<rparr>)"
| returned: "deferred_dequeue (g_stream s) (g_pool s) = Some (Ret (st, p))
     \<Longrightarrow> gw_step [] s (s\<lparr>g_stream := st, g_pool := p\<rparr>)"
| ctx_ends: "gw_step [] s (s\<lparr>g_stream := (g_stream s)\<lparr>gw_ctxDone := True\<rparr>\<rparr>)"

text \<open>Around it, the pool may change in any way that keeps its invariant, and the channels in any way.\<close>

inductive gate_step :: "gate \<Rightarrow> gate \<Rightarrow> bool" where
  own: "gw_step sent s t \<Longrightarrow> gate_step s t"
| others: "pool_inv p \<Longrightarrow> gate_step s (s\<lparr>g_pool := p, g_bools := B\<rparr>)"

inductive_cases gate_stepE: "gate_step s t"

text \<open>A stream starts with a valid first message on a pool that keeps its invariant.\<close>

definition gate_init :: "gate \<Rightarrow> bool" where
  "gate_init s \<longleftrightarrow> pool_inv (g_pool s) \<and> (\<exists>grow joined now ok msg p. pool_inv p
     \<and> EnterMatchmaking grow joined now ok msg p = (g_pool s, Inr (g_stream s)))"

section \<open>The protocol of responses\<close>

text \<open>What a client can see: the states of a stream and the response that moves it on.\<close>

datatype proto = Before | InQueue | InCheck MatchAssignment | Over

definition proto_step :: "proto \<Rightarrow> GatewayResponse \<Rightarrow> proto option" where
  "proto_step q resp =
     (if gr_Status resp = QUEUE_STATUS_WAITING \<and> q \<noteq> Over then Some InQueue
      else if gr_Status resp = QUEUE_STATUS_CANCELLED \<and> q \<notin> {Before, Over} then Some Over
      else if gr_Status resp = QUEUE_STATUS_READY_CHECK \<and> q \<notin> {Before, Over}
      then map_option InCheck (gr_Match resp)
      else if gr_Status resp = QUEUE_STATUS_IN_GAME
      then (case (q, gr_Match resp) of (InCheck a, Some b) \<Rightarrow> if a = b then Some Over else None | _ \<Rightarrow> None)
      else None)"

fun proto_run :: "proto \<Rightarrow> GatewayResponse list \<Rightarrow> proto option" where
  "proto_run q [] = Some q"
| "proto_run q (resp # resps) = (case proto_step q resp of None \<Rightarrow> None | Some q' \<Rightarrow> proto_run q' resps)"

lemma proto_run_snoc:
  "proto_run q (resps @ [resp]) = (case proto_run q resps of None \<Rightarrow> None | Some q' \<Rightarrow> proto_step q' resp)"
  by (induction resps arbitrary: q) (auto split: option.splits)

definition in_game :: "Stream \<Rightarrow> bool" where
  "in_game st \<longleftrightarrow> (\<exists>resp \<in> set (gw_sent st). gr_Status resp = QUEUE_STATUS_IN_GAME)"

fun at_proto :: "gw_pc \<Rightarrow> proto \<Rightarrow> bool" where
  "at_proto Selecting q = (q \<noteq> Before \<and> q \<noteq> Over)"
| "at_proto (Checking evt) q = (q = InCheck (assignment evt))"
| "at_proto (Awaiting evt) q = (q = InCheck (assignment evt))"
| "at_proto (Returning err) q = True"
| "at_proto (Returned err) q = True"

definition game_over :: "gw_pc \<Rightarrow> bool" where
  "game_over pc \<longleftrightarrow> pc = Returning None \<or> pc = Returned None"

definition sent_ok :: "Stream \<Rightarrow> bool" where
  "sent_ok st \<longleftrightarrow> (\<exists>q. proto_run Before (gw_sent st) = Some q \<and> at_proto (gw_at st) q)
     \<and> (in_game st \<longleftrightarrow> game_over (gw_at st))"

lemma sent_ok_cong:
  assumes "sent_ok st" "gw_sent st' = gw_sent st" "\<And>q. at_proto (gw_at st) q \<Longrightarrow> at_proto (gw_at st') q"
    and "game_over (gw_at st') = game_over (gw_at st)"
  shows "sent_ok st'"
  using assms unfolding sent_ok_def in_game_def by auto

text \<open>One response more, or one that could not be sent.\<close>

lemma sent_ok_push:
  assumes ok: "sent_ok st" and sent: "gw_sent st' = gw_sent (pushed ok resp st)"
    and pc: "\<not> game_over (gw_at st)" "game_over (gw_at st') \<longleftrightarrow> ok \<and> gr_Status resp = QUEUE_STATUS_IN_GAME"
    and step: "\<And>q. at_proto (gw_at st) q \<Longrightarrow>
          \<exists>q'. (if ok then proto_step q resp else Some q) = Some q' \<and> at_proto (gw_at st') q'"
  shows "sent_ok st'"
proof -
  obtain q where q: "proto_run Before (gw_sent st) = Some q" "at_proto (gw_at st) q" and no: "\<not> in_game st"
    using ok pc(1) by (auto simp: sent_ok_def)
  have "in_game st' \<longleftrightarrow> ok \<and> gr_Status resp = QUEUE_STATUS_IN_GAME"
    using no sent by (auto simp: in_game_def pushed_def)
  moreover have "proto_run Before (gw_sent st') = (if ok then proto_step q resp else Some q)"
    using sent q(1) by (simp add: pushed_def proto_run_snoc)
  ultimately show ?thesis using step [OF q(2)] pc(2) by (auto simp: sent_ok_def)
qed

lemma sent_ok_step:
  assumes ok: "sent_ok (g_stream s)" and step: "gw_step sent s t"
  shows "sent_ok (g_stream t)"
  using step
proof (cases rule: gw_step.cases)
  case (reader msg st)
  then show ?thesis
    by (intro sent_ok_cong [OF ok]) (auto simp: reader_turn_def split: option.splits if_splits)
next
  case (matched now ok' st p)
  then have at: "gw_at (g_stream s) = Selecting" by (simp add: on_match_def split: if_splits)
  from matched show ?thesis
    by (auto simp: on_match_def split: if_splits prod.splits received.splits
        intro!: sent_ok_push [OF ok, of _ ok'])
      (auto simp: at game_over_def proto_step_def response_defs pushed_def)
next
  case (ticked now ok' st)
  then have at: "gw_at (g_stream s) = Selecting" by (simp add: on_ticker_def split: if_splits)
  from ticked at show ?thesis
    by (intro sent_ok_push [OF ok, of _ ok' "ticker_response now (Size (g_pool s))"])
      (auto simp: on_ticker_def game_over_def proto_step_def response_defs pushed_def split: if_splits)
next
  case (cancelled now ok' st p)
  then have at: "gw_at (g_stream s) = Selecting" by (simp add: on_cancel_def split: if_splits)
  from cancelled at show ?thesis
    by (intro sent_ok_push [OF ok, of _ ok' "cancelled_response now ''Queue cancelled by player.''"])
      (auto simp: on_cancel_def game_over_def proto_step_def response_defs pushed_def
        split: if_splits list.splits prod.splits outcome.splits)
next
  case (client_done st)
  then show ?thesis
    by (intro sent_ok_cong [OF ok]) (auto simp: on_client_done_def game_over_def split: if_splits)
next
  case (ctx_done st)
  then show ?thesis
    by (intro sent_ok_cong [OF ok]) (auto simp: on_ctx_done_def game_over_def split: if_splits)
next
  case (accepted st B)
  then show ?thesis
    by (intro sent_ok_cong [OF ok]) (auto simp: check_accepted_def game_over_def split: gw_pc.splits list.splits)
next
  case (refused why now ok' st B)
  then show ?thesis
    by (intro sent_ok_push [OF ok, of _ ok' "cancelled_response now ''Ready check failed. Returning to queue or disconnecting.''"])
      (auto simp: check_refused_def game_over_def proto_step_def response_defs pushed_def split: gw_pc.splits if_splits)
next
  case (verdict now ok' st B)
  then obtain evt where at: "gw_at (g_stream s) = Awaiting evt" by (auto simp: on_verdict_def split: gw_pc.splits)
  from verdict show ?thesis
    by (auto simp: on_verdict_def at split: prod.splits received.splits bool.splits
        intro!: sent_ok_push [OF ok, of _ ok'])
      (auto simp: at game_over_def proto_step_def response_defs pushed_def split: if_splits)
next
  case (returned st p)
  then show ?thesis
    by (intro sent_ok_cong [OF ok])
      (auto simp: deferred_dequeue_def game_over_def split: gw_pc.splits prod.splits outcome.splits)
next
  case ctx_ends
  then show ?thesis by (intro sent_ok_cong [OF ok]) auto
qed

section \<open>The stream's own state\<close>

definition gw_codes :: "code set" where
  "gw_codes = {Internal, Aborted, Unavailable, Canceled, DeadlineExceeded}"

definition stream_ok :: "Stream \<Rightarrow> bool" where
  "stream_ok st \<longleftrightarrow> (gw_reading st \<longrightarrow> \<not> gw_clientDone st \<and> gw_cancelReq st = [])
     \<and> length (gw_cancelReq st) \<le> 1 \<and> length (gw_acceptReq st) \<le> 1
     \<and> (\<forall>c. gw_at st = Returning (Some c) \<or> gw_at st = Returned (Some c) \<longrightarrow> c \<in> gw_codes)"

lemma stream_ok_step:
  assumes "stream_ok (g_stream s)" "gw_step sent s t"
  shows "stream_ok (g_stream t)"
  using assms(2)
proof (cases rule: gw_step.cases)
  case (reader msg st)
  then show ?thesis using assms(1)
    by (auto simp: stream_ok_def reader_turn_def split: option.splits if_splits)
next
  case (matched now ok' st p)
  then show ?thesis using assms(1)
    by (auto simp: stream_ok_def on_match_def pushed_def gw_codes_def split: if_splits prod.splits received.splits)
next
  case (ticked now ok' st)
  then show ?thesis using assms(1) by (auto simp: stream_ok_def on_ticker_def pushed_def gw_codes_def split: if_splits)
next
  case (cancelled now ok' st p)
  then show ?thesis using assms(1)
    by (auto simp: stream_ok_def on_cancel_def pushed_def gw_codes_def split: if_splits list.splits prod.splits outcome.splits)
next
  case (client_done st)
  then show ?thesis using assms(1) by (auto simp: stream_ok_def on_client_done_def gw_codes_def split: if_splits)
next
  case (ctx_done st)
  then show ?thesis using assms(1) by (auto simp: stream_ok_def on_ctx_done_def gw_codes_def split: if_splits)
next
  case (accepted st B)
  then show ?thesis using assms(1)
    by (auto simp: stream_ok_def check_accepted_def split: gw_pc.splits list.splits)
next
  case (refused why now ok' st B)
  then show ?thesis using assms(1)
    by (auto simp: stream_ok_def check_refused_def pushed_def gw_codes_def split: gw_pc.splits if_splits)
next
  case (verdict now ok' st B)
  then show ?thesis using assms(1)
    by (auto simp: stream_ok_def on_verdict_def pushed_def gw_codes_def
        split: gw_pc.splits prod.splits received.splits bool.splits if_splits)
next
  case (returned st p)
  then show ?thesis using assms(1)
    by (auto simp: stream_ok_def deferred_dequeue_def split: gw_pc.splits prod.splits outcome.splits)
qed (use assms(1) in \<open>auto simp: stream_ok_def\<close>)

lemma gate_pool_step:
  assumes inv: "pool_inv (g_pool s)" and step: "gw_step sent s t"
  shows "pool_inv (g_pool t)"
  using step
proof (cases rule: gw_step.cases)
  case (matched now ok st p)
  then obtain r H where "chan_recv (MatchCh (gw_qp (g_stream s))) (match_heap (g_pool s)) = (r, H)"
    "p = (g_pool s)\<lparr>match_heap := H\<rparr>"
    by (auto simp: on_match_def split: if_splits prod.splits received.splits)
  then show ?thesis using pool_inv_recv [OF inv] matched by simp
next
  case (cancelled now ok st p)
  then have "p = fst (Dequeue (PlayerID (gw_qp (g_stream s))) (g_pool s))"
    by (auto simp: on_cancel_def split: if_splits list.splits prod.splits outcome.splits)
  then show ?thesis using pool_queue.leave_ok [OF inv] cancelled by simp
next
  case (returned st p)
  then have "p = fst (Dequeue (PlayerID (gw_qp (g_stream s))) (g_pool s))"
    by (auto simp: deferred_dequeue_def split: gw_pc.splits prod.splits outcome.splits)
  then show ?thesis using pool_queue.leave_ok [OF inv] returned by simp
qed (use inv in simp_all)

definition gate_inv :: "gate \<Rightarrow> bool" where
  "gate_inv s \<longleftrightarrow> sent_ok (g_stream s) \<and> stream_ok (g_stream s) \<and> pool_inv (g_pool s)"

lemma join_check_Inr:
  "join_check msg = Inr player \<longleftrightarrow> (\<exists>join. GetJoinQueue msg = Some join \<and> jq_Player join = Some player
     \<and> pi_PlayerId player \<noteq> [] \<and> 0 \<le> sint (pi_Mmr player) \<and> sint (pi_Mmr player) \<le> MaxMMR)"
  by (auto simp: join_check_def GetJoinQueue_def split: option.splits if_splits)

lemma join_check_Inl: "join_check msg = Inl c \<Longrightarrow> c = InvalidArgument"
  by (auto simp: join_check_def split: option.splits if_splits)

definition fresh_stream :: "gtime \<Rightarrow> bool \<Rightarrow> QueuedPlayer \<Rightarrow> Stream" where
  "fresh_stream now ok qp = pushed ok (joined_response now)
     \<lparr>gw_qp = qp, gw_reading = ok, gw_clientDone = False, gw_cancelReq = [], gw_acceptReq = [],
      gw_ctxDone = False, gw_sent = [], gw_at = if ok then Selecting else Returning (Some Internal)\<rparr>"

lemma EnterMatchmaking_Inr:
  assumes "EnterMatchmaking grow joined now ok msg p = (p', Inr st)"
  obtains player qp where "join_check msg = Inr player" "st = fresh_stream now ok qp"
    and "Enqueue grow joined (pi_PlayerId player) (pi_DisplayName player) (pi_Mmr player) p = (p', Inr qp)"
  using assms by (auto simp: EnterMatchmaking_def fresh_stream_def split: sum.splits prod.splits)

lemma gate_inv_init:
  assumes "gate_init s"
  shows "gate_inv s"
proof -
  obtain now ok qp where "g_stream s = fresh_stream now ok qp" and inv: "pool_inv (g_pool s)"
    using assms EnterMatchmaking_Inr by (metis gate_init_def)
  then show ?thesis
    by (cases ok) (simp_all add: gate_inv_def stream_ok_def sent_ok_def pushed_def proto_step_def in_game_def
        game_over_def gw_codes_def response_defs fresh_stream_def)
qed

lemma gate_inv_step: "gate_inv s \<Longrightarrow> gate_step s t \<Longrightarrow> gate_inv t"
  using sent_ok_step stream_ok_step gate_pool_step by (auto simp: gate_inv_def elim!: gate_stepE)

interpretation stream_machine: inductive_invariant gate_init gate_step gate_inv
  using gate_inv_init gate_inv_step by unfold_locales

section \<open>What a step does to the shared state\<close>

definition in_check :: "Stream \<Rightarrow> bool" where
  "in_check st \<longleftrightarrow> (\<exists>evt. gw_at st = Checking evt \<or> gw_at st = Awaiting evt)"

lemma gw_step_player: "gw_step sent s t \<Longrightarrow> gw_qp (g_stream t) = gw_qp (g_stream s)"
  by (erule gw_step.cases)
    (auto simp: reader_turn_def on_match_def on_ticker_def on_cancel_def on_client_done_def on_ctx_done_def
      check_accepted_def check_refused_def on_verdict_def deferred_dequeue_def pushed_def
      split: if_splits option.splits prod.splits received.splits list.splits outcome.splits gw_pc.splits bool.splits)

lemma gw_step_effect:
  assumes "gw_step sent s t"
  obtains (quiet) news where "g_pool t = g_pool s" "g_bools t = g_bools s" "sent = []"
      "gw_at (g_stream t) = gw_at (g_stream s) \<or> \<not> in_check (g_stream t)"
      "gw_sent (g_stream t) = gw_sent (g_stream s) @ news" "\<forall>resp \<in> set news. gr_Match resp = None"
  | (took) evt H news where "gw_at (g_stream s) = Selecting" "g_bools t = g_bools s" "sent = []"
      "chan_recv (MatchCh (gw_qp (g_stream s))) (match_heap (g_pool s)) = (Value evt, H)"
      "g_pool t = (g_pool s)\<lparr>match_heap := H\<rparr>"
      "gw_at (g_stream t) = Checking evt \<or> \<not> in_check (g_stream t)"
      "gw_sent (g_stream t) = gw_sent (g_stream s) @ news"
      "\<forall>resp \<in> set news. gr_Match resp = Some (assignment evt) \<and> gr_Status resp = QUEUE_STATUS_READY_CHECK"
  | (left) news where "g_pool t = fst (Dequeue (PlayerID (gw_qp (g_stream s))) (g_pool s))" "g_bools t = g_bools s"
      "sent = []" "\<not> in_check (g_stream t)"
      "gw_sent (g_stream t) = gw_sent (g_stream s) @ news" "\<forall>resp \<in> set news. gr_Match resp = None"
  | (answered) evt v b news where "gw_at (g_stream s) = Checking evt" "g_pool t = g_pool s"
      "chan_try_send (ResponseCh evt) v (g_bools s) = Ret (b, g_bools t)"
      "sent = (if b then [(ResponseCh evt, v)] else [])"
      "if v then gw_at (g_stream t) = Awaiting evt else \<not> in_check (g_stream t)"
      "gw_sent (g_stream t) = gw_sent (g_stream s) @ news" "\<forall>resp \<in> set news. gr_Match resp = None"
  | (heard) evt out news where "gw_at (g_stream s) = Awaiting evt" "g_pool t = g_pool s" "sent = []"
      "chan_recv (ResultCh evt) (g_bools s) = (out, g_bools t)" "\<not> in_check (g_stream t)"
      "gw_sent (g_stream t) = gw_sent (g_stream s) @ news"
      "\<forall>resp \<in> set news. gr_Match resp = (if out = Value True then Some (assignment evt) else None)"
  using assms
proof (cases rule: gw_step.cases)
  case (reader msg st)
  then show ?thesis
    by (intro quiet [of "[]"]) (auto simp: reader_turn_def split: if_splits option.splits)
next
  case (matched now ok st p)
  then have at: "gw_at (g_stream s) = Selecting" by (auto simp: on_match_def split: if_splits)
  obtain out H where r: "chan_recv (MatchCh (gw_qp (g_stream s))) (match_heap (g_pool s)) = (out, H)" by fastforce
  show ?thesis
  proof (cases out)
    case (Value evt)
    with matched at r show ?thesis
      by (intro took [of evt H "if ok then [check_response now evt] else []"])
        (auto simp: on_match_def in_check_def pushed_def check_response_def split: if_splits)
  next
    case Closed
    then have "H = match_heap (g_pool s)" using r by (auto simp: chan_recv_def split: option.splits list.splits)
    with matched at r Closed show ?thesis
      by (intro quiet [of "if ok then [cancelled_response now ''Queue cancelled.''] else []"])
        (auto simp: on_match_def in_check_def pushed_def cancelled_response_def)
  next
    case Blocked
    with matched at r show ?thesis by (simp add: on_match_def)
  qed
next
  case (ticked now ok st)
  then show ?thesis
    by (intro quiet [of "if ok then [ticker_response now (Size (g_pool s))] else []"])
      (auto simp: on_ticker_def pushed_def in_check_def ticker_response_def split: if_splits)
next
  case (cancelled now ok st p)
  then show ?thesis
    by (intro left [of "if ok then [cancelled_response now ''Queue cancelled by player.''] else []"])
      (auto simp: on_cancel_def pushed_def in_check_def cancelled_response_def
        split: if_splits list.splits prod.splits outcome.splits)
next
  case (client_done st)
  then show ?thesis by (intro quiet [of "[]"]) (auto simp: on_client_done_def in_check_def split: if_splits)
next
  case (ctx_done st)
  then show ?thesis by (intro quiet [of "[]"]) (auto simp: on_ctx_done_def in_check_def split: if_splits)
next
  case (accepted st B)
  then obtain evt rest u where at: "gw_at (g_stream s) = Checking evt" "gw_acceptReq (g_stream s) = u # rest"
    by (auto simp: check_accepted_def split: gw_pc.splits list.splits)
  with accepted show ?thesis
    by (cases "chan_try_send (ResponseCh evt) True (g_bools s)")
      (auto simp: check_accepted_def answers_def split: bool.splits intro!: answered [of evt True _ "[]"])
next
  case (refused why now ok st B)
  then obtain evt where at: "gw_at (g_stream s) = Checking evt" "check_end_ready why (g_stream s)"
    by (auto simp: check_refused_def split: gw_pc.splits if_splits)
  with refused show ?thesis
    by (cases "chan_try_send (ResponseCh evt) False (g_bools s)")
      (auto simp: check_refused_def answers_def in_check_def pushed_def cancelled_response_def split: bool.splits
        intro!: answered [of evt False _ "if ok then [cancelled_response now
          ''Ready check failed. Returning to queue or disconnecting.''] else []"])
next
  case (verdict now ok st B)
  then obtain evt where at: "gw_at (g_stream s) = Awaiting evt" by (auto simp: on_verdict_def split: gw_pc.splits)
  then obtain out H where r: "chan_recv (ResultCh evt) (g_bools s) = (out, H)" by fastforce
  with at verdict show ?thesis
    by (intro heard [of evt out "if \<not> ok then [] else [if out = Value True then game_response now evt else requeued_response now]"])
      (auto simp: on_verdict_def in_check_def pushed_def game_response_def requeued_response_def
        split: received.splits bool.splits if_splits)
next
  case (returned st p)
  then show ?thesis
    by (intro left [of "[]"])
      (auto simp: deferred_dequeue_def in_check_def split: gw_pc.splits prod.splits outcome.splits)
next
  case ctx_ends
  then show ?thesis by (intro quiet [of "[]"]) auto
qed

section \<open>Examples\<close>

definition ann_joins :: "GatewayRequest option" where
  "ann_joins = Some \<lparr>Action = Some (GatewayRequest_JoinQueue
     (Some \<lparr>jq_Player = Some \<lparr>pi_PlayerId = ''ann'', pi_DisplayName = ''Ann'', pi_Mmr = 1500\<rparr>\<rparr>))\<rparr>"

definition accepts :: "GatewayRequest option" where
  "accepts = Some \<lparr>Action = Some (GatewayRequest_AcceptMatch (Some \<lparr>am_PlayerId = ''ann''\<rparr>))\<rparr>"

definition cancels :: "GatewayRequest option" where
  "cancels = Some \<lparr>Action = Some (GatewayRequest_CancelQueue (Some \<lparr>cq_PlayerId = ''ann'', cq_Reason = []\<rparr>))\<rparr>"

definition ann_gate :: gate where
  "ann_gate = (case EnterMatchmaking (\<lambda>c n. n) 3 4 True ann_joins NewPool of
      (p, Inr st) \<Rightarrow> \<lparr>g_stream = st, g_pool = p, g_bools = no_chans\<rparr>)"

lemma join_ann: "join_check ann_joins = Inr \<lparr>pi_PlayerId = ''ann'', pi_DisplayName = ''Ann'', pi_Mmr = 1500\<rparr>"
  by (simp add: join_check_Inr ann_joins_def GetJoinQueue_def MaxMMR_def)

definition ann_qp :: QueuedPlayer where
  "ann_qp = \<lparr>PlayerID = ''ann'', DisplayName = ''Ann'', MMR = 1500, EnqueuedAt = 3, MatchCh = 0\<rparr>"

lemma ann_enters: "EnterMatchmaking (\<lambda>c n. n) 3 4 True ann_joins NewPool = (g_pool ann_gate, Inr (g_stream ann_gate))"
  and ann_stream: "gw_at (g_stream ann_gate) = Selecting" "gw_reading (g_stream ann_gate)"
    "gw_acceptReq (g_stream ann_gate) = []" "gw_qp (g_stream ann_gate) = ann_qp"
  and ann_pool: "players (g_pool ann_gate) = [''ann'' \<mapsto> ann_qp]"
    "match_heap (g_pool ann_gate) = fst (make_chan 1 no_chans)"
  by (simp_all add: ann_gate_def EnterMatchmaking_def join_ann Enqueue_def NewPool_def make_chan_def
      no_chans_def pushed_def Let_def ann_qp_def)

lemma ann_init: "gate_init ann_gate"
proof -
  have "g_pool ann_gate = fst (Enqueue (\<lambda>c n. n) 3 ''ann'' ''Ann'' 1500 NewPool)"
    by (simp add: ann_gate_def EnterMatchmaking_def join_ann Enqueue_def NewPool_def make_chan_def
      no_chans_def Let_def)
  then have "pool_inv (g_pool ann_gate)" using Enqueue_inv [OF pool_inv_NewPool] by simp
  then show ?thesis
    unfolding gate_init_def using ann_enters pool_inv_NewPool by blast
qed

lemma ann_reachable: "reachable gate_init gate_step ann_gate"
  by (rule reachable.start) (rule ann_init)

section \<open>Properties\<close>

text \<open>C33: joining, on every branch: a message that is missing, is no join with a player, has an empty id or
  a rating outside \<open>[0, 10000]\<close> is refused with \<open>InvalidArgument\<close>, an id that is queued with
  \<open>AlreadyExists\<close>, both without any effect on the pool; everything else enqueues exactly that player,
  with a valid rating, and acknowledges it with WAITING, or is on its way out with \<open>Internal\<close> when
  this cannot be sent.\<close>

theorem EnterMatchmaking_correct:
  assumes "pool_inv p"
  shows "(case EnterMatchmaking grow joined now ok msg p of
      (p', Inl err) \<Rightarrow> p' = p \<and> (case join_check msg of
           Inl _ \<Rightarrow> err = Some InvalidArgument
         | Inr player \<Rightarrow> err = Some AlreadyExists \<and> Contains (pi_PlayerId player) p)
    | (p', Inr st) \<Rightarrow> pool_inv p' \<and> queued p' = insert (gw_qp st) (queued p) \<and> gw_qp st \<notin> queued p
        \<and> Size p' = Suc (Size p) \<and> valid_mmr (gw_qp st) \<and> PlayerID (gw_qp st) \<noteq> [] \<and> EnqueuedAt (gw_qp st) = joined
        \<and> (if ok then gw_at st = Selecting \<and> map gr_Status (gw_sent st) = [QUEUE_STATUS_WAITING]
           else gw_at st = Returning (Some Internal) \<and> gw_sent st = []))"
proof (cases "join_check msg")
  case (Inl c)
  then show ?thesis using join_check_Inl [OF Inl] by (simp add: EnterMatchmaking_def)
next
  case (Inr player)
  obtain p' r where e: "Enqueue grow joined (pi_PlayerId player) (pi_DisplayName player) (pi_Mmr player) p = (p', r)"
    by fastforce
  show ?thesis
  proof (cases r)
    case (Inl x)
    then have "p' = p" "Contains (pi_PlayerId player) p"
      using e by (auto simp: Enqueue_def Contains_def Let_def split: if_splits prod.splits)
    with Inl Inr e show ?thesis by (simp add: EnterMatchmaking_def)
  next
    case qp: (Inr qp)
    have none: "players p (pi_PlayerId player) = None" and pl: "players p' = (players p)(pi_PlayerId player \<mapsto> qp)"
      and data: "PlayerID qp = pi_PlayerId player" "MMR qp = pi_Mmr player" "EnqueuedAt qp = joined"
      using e qp by (auto simp: Enqueue_def Let_def split: if_splits prod.splits)
    have "pool_inv p'" using Enqueue_inv [OF assms] e by (metis fst_conv)
    moreover have "queued p' = insert qp (queued p)" using none by (simp add: queued_def pl ran_map_upd)
    moreover have "qp \<notin> queued p" using none data queued_id [OF assms] by simp
    moreover have "Size p' = Suc (Size p)" by (rule Size_insert [OF assms none pl])
    ultimately show ?thesis
      using Inr e qp data Inr [unfolded join_check_Inr]
      by (auto simp: EnterMatchmaking_def valid_mmr_def pushed_def response_defs)
  qed
qed

theorem EnterMatchmaking_correct_witness:
  "queued (g_pool ann_gate) = {ann_qp} \<and> valid_mmr ann_qp"
proof -
  have "queued NewPool = {}" by (simp add: queued_def NewPool_def)
  then show ?thesis
    using EnterMatchmaking_correct [OF pool_inv_NewPool, where grow = "\<lambda>c n. n" and joined = 3 and now = 4
        and ok = True and msg = ann_joins] ann_enters ann_stream(4)
    by simp
qed

text \<open>C30: the client sees one of the documented sequences, whatever happens around the stream: WAITING
  first; READY_CHECK with an assignment; after it WAITING again, CANCELLED, or IN_GAME with the same
  assignment; and nothing after CANCELLED or IN_GAME. IN_GAME is sent exactly when the handler returns
  without an error.\<close>

theorem gateway_protocol:
  assumes "reachable gate_init gate_step s"
  shows "proto_run Before (gw_sent (g_stream s)) \<noteq> None
    \<and> ((\<exists>resp \<in> set (gw_sent (g_stream s)). gr_Status resp = QUEUE_STATUS_IN_GAME) \<longleftrightarrow>
         gw_at (g_stream s) \<in> {Returning None, Returned None})
    \<and> (\<forall>evt. gw_at (g_stream s) \<in> {Checking evt, Awaiting evt} \<longrightarrow>
         proto_run Before (gw_sent (g_stream s)) = Some (InCheck (assignment evt)))"
proof -
  have ok: "sent_ok (g_stream s)"
    using stream_machine.reachable_inv [OF assms] by (simp add: gate_inv_def)
  show ?thesis
    using ok [unfolded sent_ok_def] by (auto simp: in_game_def game_over_def)
qed

theorem gateway_protocol_witness:
  "proto_run Before (gw_sent (g_stream ann_gate)) \<noteq> None"
  using gateway_protocol [OF ann_reachable] by blast

text \<open>C31: leaving: an error of the handler is \<open>Internal\<close>, \<open>Aborted\<close>, \<open>Unavailable\<close>, \<open>Canceled\<close> or
  \<open>DeadlineExceeded\<close>; on every way out the deferred \<open>Dequeue\<close> runs without a panic, also as the second
  one after a cancel, and leaves the player out of the pool; and the reader's channels never hold
  more than their one value, so it never blocks on them.\<close>

theorem gateway_returns:
  assumes "reachable gate_init gate_step s"
  shows "(\<forall>c. gw_at (g_stream s) = Returned (Some c) \<longrightarrow>
         c \<in> {Internal, Aborted, Unavailable, Canceled, DeadlineExceeded})
    \<and> (\<forall>err. gw_at (g_stream s) = Returning err \<longrightarrow>
         (\<exists>st p. deferred_dequeue (g_stream s) (g_pool s) = Some (Ret (st, p)) \<and> gw_at st = Returned err
              \<and> pool_inv p \<and> \<not> Contains (PlayerID (gw_qp (g_stream s))) p))
    \<and> on_cancel now ok (g_stream s) (g_pool s) \<noteq> Some Panic
    \<and> length (gw_cancelReq (g_stream s)) \<le> 1 \<and> length (gw_acceptReq (g_stream s)) \<le> 1"
proof -
  let ?st = "g_stream s" and ?pid = "PlayerID (gw_qp (g_stream s))"
  have st: "stream_ok ?st" and inv: "pool_inv (g_pool s)"
    using stream_machine.reachable_inv [OF assms] by (simp_all add: gate_inv_def)
  obtain p b where d: "Dequeue ?pid (g_pool s) = (p, Ret b)" "pool_inv p" "\<not> Contains ?pid p"
    using pool_queue.leave_total [OF inv] by blast
  have "on_cancel now ok ?st (g_pool s) \<noteq> Some Panic"
    using d(1) by (auto simp: on_cancel_def split: list.splits)
  with st d show ?thesis by (auto simp: stream_ok_def gw_codes_def deferred_dequeue_def)
qed

theorem gateway_returns_witness:
  "on_cancel 5 True (g_stream ann_gate) (g_pool ann_gate) \<noteq> Some Panic
   \<and> length (gw_acceptReq (g_stream ann_gate)) \<le> 1"
  using gateway_returns [OF ann_reachable] by blast

text \<open>One ready check gives the coordinator one response: \<open>true\<close> exactly when the acceptance was taken,
  then the stream waits for the verdict; \<open>false\<close> when the timer fires, the client or the context is
  gone, then the stream tells the client and returns \<open>Aborted\<close>. Its channel, fresh from \<open>tick\<close>, has
  room for it.\<close>

theorem ready_check_signal:
  assumes "gw_at st = Checking evt" "idle H (ResponseCh evt)"
  shows "(gw_acceptReq st \<noteq> [] \<longrightarrow> (\<exists>st' H'. check_accepted st H = Some (Ret (st', H'))
         \<and> holds H' (ResponseCh evt) True \<and> gw_at st' = Awaiting evt \<and> gw_acceptReq st' = tl (gw_acceptReq st)
         \<and> gw_sent st' = gw_sent st))
    \<and> (gw_acceptReq st = [] \<longrightarrow> check_accepted st H = None)
    \<and> (check_end_ready why st \<longrightarrow> (\<exists>st' H'. check_refused why now ok st H = Some (Ret (st', H'))
         \<and> holds H' (ResponseCh evt) False \<and> gw_at st' = Returning (Some Aborted)))"
proof -
  obtain H1 where t: "chan_try_send (ResponseCh evt) True H = Ret (True, H1)" "holds H1 (ResponseCh evt) True"
    using try_send_idle [OF assms(2)] by metis
  obtain H2 where f: "chan_try_send (ResponseCh evt) False H = Ret (True, H2)" "holds H2 (ResponseCh evt) False"
    using try_send_idle [OF assms(2)] by metis
  show ?thesis
    using assms(1) t f by (auto simp: check_accepted_def check_refused_def split: list.splits)
qed

definition ann_event :: MatchEvent where
  "ann_event = \<lparr>evt_SessionID = ''s'', evt_PlayerIDs = [''ann''], evt_CreatedAt = 8, ResponseCh = 0, ResultCh = 1\<rparr>"

theorem ready_check_signal_witness:
  "\<exists>st' H'. check_refused TimerFired 9 True ((g_stream ann_gate)\<lparr>gw_at := Checking ann_event\<rparr>) (fst (make_chan 1 no_chans))
      = Some (Ret (st', H')) \<and> holds H' 0 False"
proof -
  have "gw_at ((g_stream ann_gate)\<lparr>gw_at := Checking ann_event\<rparr>) = Checking ann_event" by simp
  moreover have "idle (fst (make_chan 1 no_chans)) (ResponseCh ann_event)"
    by (simp add: idle_def make_chan_def no_chans_def ann_event_def)
  ultimately show ?thesis
    using ready_check_signal [of _ ann_event _ TimerFired] by (fastforce simp: ann_event_def)
qed

text \<open>An acceptance that arrives while the player still waits is kept, and it accepts the next ready
  check at once, for the client unseen: the coordinator receives \<open>true\<close> for an event that the client
  had not been told of when it sent the message.\<close>

theorem early_accept_counts:
  assumes "gw_reading st" "gw_at st = Selecting" "gw_acceptReq st = []"
    and "msg = Some m" "GetAcceptMatch msg \<noteq> None"
    and "chan_recv (MatchCh (gw_qp st)) (match_heap p) = (Value evt, heap)" "idle H (ResponseCh evt)"
  shows "\<exists>st1 st2 p2 st3 H3. reader_turn msg st = Some st1 \<and> gw_at st1 = Selecting
    \<and> on_match now True st1 p = Some (st2, p2) \<and> gw_at st2 = Checking evt
    \<and> check_accepted st2 H = Some (Ret (st3, H3)) \<and> gw_at st3 = Awaiting evt \<and> holds H3 (ResponseCh evt) True"
proof -
  have "GetHeartbeat msg = None" "GetCancelQueue msg = None"
    using assms(4,5) by (auto simp: oneof_getters split: option.splits isGatewayRequest_Action.splits)
  then have r: "reader_turn msg st = Some (st\<lparr>gw_acceptReq := [()]\<rparr>)"
    using assms(1,3-5) by (simp add: reader_turn_def)
  obtain H3 where "chan_try_send (ResponseCh evt) True H = Ret (True, H3)" "holds H3 (ResponseCh evt) True"
    using try_send_idle [OF assms(7)] by metis
  with r show ?thesis
    using assms(2,6) by (simp add: on_match_def pushed_def check_accepted_def)
qed

theorem early_accept_counts_witness:
  "\<exists>st1. reader_turn accepts (g_stream ann_gate) = Some st1
     \<and> (\<exists>st2 p2 st3 H3. on_match 9 True st1 ((g_pool ann_gate)\<lparr>match_heap := \<lparr>cells =
            [0 \<mapsto> \<lparr>ch_cap = 1, ch_buf = [ann_event], ch_closed = False\<rparr>], next_id = 1\<rparr>\<rparr>) = Some (st2, p2)
          \<and> check_accepted st2 (fst (make_chan 1 no_chans)) = Some (Ret (st3, H3)) \<and> gw_at st3 = Awaiting ann_event)"
proof -
  let ?p = "(g_pool ann_gate)\<lparr>match_heap := \<lparr>cells =
            [0 \<mapsto> \<lparr>ch_cap = 1, ch_buf = [ann_event], ch_closed = False\<rparr>], next_id = 1\<rparr>\<rparr>"
  have "\<exists>m. accepts = Some m" "GetAcceptMatch accepts \<noteq> None" by (simp_all add: accepts_def GetAcceptMatch_def)
  moreover have "\<exists>heap. chan_recv (MatchCh (gw_qp (g_stream ann_gate))) (match_heap ?p) = (Value ann_event, heap)"
    by (simp add: ann_stream ann_qp_def chan_recv_def)
  moreover have "idle (fst (make_chan 1 no_chans)) (ResponseCh ann_event)"
    by (simp add: idle_def make_chan_def no_chans_def ann_event_def)
  ultimately show ?thesis
    using early_accept_counts [OF ann_stream(2,1,3), of accepts _ ?p ann_event] by (elim exE) blast
qed

text \<open>A cancel request races with its own end: the reader leaves after it and closes \<open>clientDone\<close>, so
  the \<open>select\<close> may take either case. One answers CANCELLED and returns \<open>Canceled\<close>, the other returns
  \<open>Aborted\<close> and sends nothing.\<close>

theorem cancel_race:
  assumes "pool_inv p" "gw_reading st" "gw_at st = Selecting" "gw_cancelReq st = []"
    and "msg = Some m" "GetCancelQueue msg \<noteq> None"
  shows "\<exists>st1. reader_turn msg st = Some st1
    \<and> (\<exists>st2 p2. on_cancel now True st1 p = Some (Ret (st2, p2)) \<and> gw_at st2 = Returning (Some Canceled)
         \<and> \<not> Contains (PlayerID (gw_qp st)) p2 \<and> gw_sent st2 = gw_sent st @ [cancelled_response now ''Queue cancelled by player.''])
    \<and> (\<exists>st3. on_client_done st1 = Some st3 \<and> gw_at st3 = Returning (Some Aborted) \<and> gw_sent st3 = gw_sent st)"
proof -
  have "GetHeartbeat msg = None"
    using assms(5,6) by (auto simp: oneof_getters split: option.splits isGatewayRequest_Action.splits)
  then have r: "reader_turn msg st = Some (st\<lparr>gw_cancelReq := [PlayerID (gw_qp st)], gw_reading := False, gw_clientDone := True\<rparr>)"
    using assms(2,4-6) by (simp add: reader_turn_def)
  obtain p2 b where "Dequeue (PlayerID (gw_qp st)) p = (p2, Ret b)" "\<not> Contains (PlayerID (gw_qp st)) p2"
    using pool_queue.leave_total [OF assms(1)] by blast
  with r assms(3) show ?thesis by (simp add: on_cancel_def on_client_done_def pushed_def)
qed

theorem cancel_race_witness:
  "\<exists>st1 st3. reader_turn cancels (g_stream ann_gate) = Some st1 \<and> on_client_done st1 = Some st3
     \<and> gw_at st3 = Returning (Some Aborted)"
proof -
  have "pool_inv (g_pool ann_gate)" using ann_init by (simp add: gate_init_def)
  moreover have "gw_cancelReq (g_stream ann_gate) = []"
    using stream_machine.reachable_inv [OF ann_reachable] ann_stream(2) by (simp add: gate_inv_def stream_ok_def)
  moreover have "\<exists>m. cancels = Some m" "GetCancelQueue cancels \<noteq> None" by (simp_all add: cancels_def GetCancelQueue_def)
  ultimately show ?thesis
    using cancel_race [OF _ ann_stream(2,1)] by blast
qed

text \<open>The deferred \<open>Dequeue\<close> goes by the id: when the id is queued again by another stream, as \<open>Enqueue\<close>
  allows while the first player is out of the pool in a ready check, the returning stream takes that
  other player out and closes its channel, and the other stream ends with \<open>Aborted\<close>.\<close>

theorem foreign_dequeue:
  assumes "pool_inv p" "gw_at st = Returning err"
    and "other \<in> queued p" "PlayerID other = PlayerID (gw_qp st)" "idle (match_heap p) (MatchCh other)"
    and "gw_at st' = Selecting" "gw_qp st' = other"
  shows "\<exists>st1 p1 st2 p2. deferred_dequeue st p = Some (Ret (st1, p1)) \<and> other \<notin> queued p1
    \<and> on_match now ok st' p1 = Some (st2, p2) \<and> gw_at st2 = Returning (Some Aborted)"
proof -
  have at: "players p (PlayerID (gw_qp st)) = Some other" using assms(1,3,4) queued_id by metis
  obtain heap where cl: "chan_close (MatchCh other) (match_heap p) = Ret heap"
    and d: "Dequeue (PlayerID (gw_qp st)) p = (p\<lparr>brackets := unbracket (bk_of other) (PlayerID (gw_qp st)) (brackets p),
            match_heap := heap, players := (players p)(PlayerID (gw_qp st) := None)\<rparr>, Ret True)"
    using Dequeue_present [OF assms(1) at] by blast
  have "chan_recv (MatchCh other) heap = (Closed, heap)"
    using cl assms(5) by (auto simp: idle_def chan_close_def chan_recv_def)
  moreover have "other \<notin> ran ((players p)(PlayerID (gw_qp st) := None))"
    using queued_remove [OF assms(1) at] by simp
  ultimately show ?thesis
    using assms(2,6,7) by (simp add: deferred_dequeue_def d queued_def on_match_def)
qed

theorem foreign_dequeue_witness:
  "\<exists>st1 p1. deferred_dequeue ((g_stream ann_gate)\<lparr>gw_qp := ann_qp\<lparr>MatchCh := 7\<rparr>, gw_at := Returning None\<rparr>) (g_pool ann_gate)
      = Some (Ret (st1, p1)) \<and> ann_qp \<notin> queued p1"
proof -
  have "ann_qp \<in> queued (g_pool ann_gate)" by (simp add: queued_def ann_pool)
  moreover have "idle (match_heap (g_pool ann_gate)) (MatchCh ann_qp)"
    by (simp add: ann_pool idle_def make_chan_def no_chans_def ann_qp_def)
  moreover have "pool_inv (g_pool ann_gate)" using ann_init by (simp add: gate_init_def)
  moreover have "PlayerID ann_qp = PlayerID (gw_qp ((g_stream ann_gate)\<lparr>gw_qp := ann_qp\<lparr>MatchCh := 7\<rparr>, gw_at := Returning None\<rparr>))"
    by simp
  ultimately show ?thesis
    using foreign_dequeue [where st = "(g_stream ann_gate)\<lparr>gw_qp := ann_qp\<lparr>MatchCh := 7\<rparr>, gw_at := Returning None\<rparr>"
        and p = "g_pool ann_gate" and other = ann_qp and err = None and st' = "g_stream ann_gate"] ann_stream(1,4)
    by fastforce
qed

end
