(* ===== verification/Nexus_System.thy ===== *)
theory Nexus_System
  imports Nexus_Tracker Nexus_ReadyCheck Nexus_Gateway
begin

text \<open>
  The whole server: every stream's goroutines, the ticks of worker and \<open>ForceMatch\<close> cut at every send,
  every coordinator with its fan-in goroutines, and the tracker, interleaved in any order over one pool,
  one session store and one heap of \<open>bool\<close> channels. A room is a ready check from its extraction on;
  \<open>rp_told\<close> counts the turns of the notifying loop, \<open>rp_launched\<close> the \<open>go readyCheckCoordinator\<close>.
\<close>

section \<open>State\<close>

record RoomProc =
  rp_now :: gtime
  rp_told :: nat
  rp_launched :: bool
  rp_co :: Coordinator

abbreviation rp_room :: "RoomProc \<Rightarrow> Room" where
  "rp_room rp \<equiv> co_room (rp_co rp)"

record System =
  sy_pool :: Pool
  sy_sessions :: SessionStore
  sy_bools :: "bool chans"
  sy_streams :: "nat \<rightharpoonup> Stream"
  sy_rooms :: "nat \<rightharpoonup> RoomProc"
  sy_created :: i64
  sy_missed :: "string list"
  sy_log :: "(nat \<times> chan_id \<times> bool) list"

definition sys_start :: System where
  "sys_start = \<lparr>sy_pool = NewPool, sy_sessions = NewSessionStore, sy_bools = no_chans, sy_streams = Map.empty,
     sy_rooms = Map.empty, sy_created = 0, sy_missed = [], sy_log = []\<rparr>"

text \<open>What one stream, and what one ready check, sees of the server.\<close>

definition stream_view :: "Stream \<Rightarrow> System \<Rightarrow> gate" where
  "stream_view st s = \<lparr>g_stream = st, g_pool = sy_pool s, g_bools = sy_bools s\<rparr>"

definition room_view :: "RoomProc \<Rightarrow> System \<Rightarrow> check" where
  "room_view rp s = \<lparr>ck_co = rp_co rp, ck_pool = sy_pool s, ck_sessions = sy_sessions s, ck_bools = sy_bools s,
     ck_sent = map snd (sy_log s)\<rparr>"

section \<open>Steps\<close>

text \<open>
  A room as \<open>tick\<close> sets it up after an extraction: the id, the clock, two channels per player. A new
  UUID is one that no room has. Then one turn of the loop that sends the events, and the launch with
  the counter.
\<close>

definition open_room :: "string \<Rightarrow> gtime \<Rightarrow> QueuedPlayer list \<Rightarrow> bool chans \<Rightarrow> bool chans \<times> RoomProc" where
  "open_room sid now qs H = (case make_channels (length qs) H of
       (H', resps, ress) \<Rightarrow>
         (H', \<lparr>rp_now = now, rp_told = 0, rp_launched = False,
               rp_co = launch \<lparr>rm_session = sid, rm_players = qs, rm_responses = resps, rm_results = ress\<rparr>\<rparr>))"

definition rp_player :: "RoomProc \<Rightarrow> nat \<Rightarrow> QueuedPlayer" where
  "rp_player rp i = rm_players (rp_room rp) ! i"

definition rp_event :: "RoomProc \<Rightarrow> nat \<Rightarrow> MatchEvent" where
  "rp_event rp i = room_event (rp_now rp) (rp_room rp) i"

definition notify_next :: "RoomProc \<Rightarrow> MatchEvent chans \<Rightarrow> (RoomProc \<times> MatchEvent chans \<times> string list) outcome option" where
  "notify_next rp H =
     (if rp_told rp < length (rm_players (rp_room rp))
      then Some (ret_bind (chan_try_send (MatchCh (rp_player rp (rp_told rp))) (rp_event rp (rp_told rp)) H)
             (\<lambda>(sent, H'). Ret (rp\<lparr>rp_told := Suc (rp_told rp)\<rparr>, H',
                 if sent then [] else [PlayerID (rp_player rp (rp_told rp))])))
      else None)"

definition launch_next :: "RoomProc \<Rightarrow> RoomProc option" where
  "launch_next rp =
     (if rp_told rp = length (rm_players (rp_room rp)) \<and> \<not> rp_launched rp then Some (rp\<lparr>rp_launched := True\<rparr>) else None)"

definition fresh_id :: "string \<Rightarrow> System \<Rightarrow> bool" where
  "fresh_id sid s \<longleftrightarrow> (\<forall>k rp. sy_rooms s k = Some rp \<longrightarrow> rm_session (rp_room rp) \<noteq> sid)"

inductive sys_step :: "(nat \<Rightarrow> nat \<Rightarrow> nat) \<Rightarrow> match_sorter \<Rightarrow> System \<Rightarrow> System \<Rightarrow> bool" for grow srt where
  refuses: "EnterMatchmaking grow joined now ok msg (sy_pool s) = (p, Inl e)
     \<Longrightarrow> sys_step grow srt s (s\<lparr>sy_pool := p\<rparr>)"
| joins: "EnterMatchmaking grow joined now ok msg (sy_pool s) = (p, Inr st) \<Longrightarrow> sy_streams s n = None
     \<Longrightarrow> sys_step grow srt s (s\<lparr>sy_pool := p, sy_streams := (sy_streams s)(n \<mapsto> st)\<rparr>)"
| streams: "sy_streams s n = Some st \<Longrightarrow> gw_step sent (stream_view st s) g
     \<Longrightarrow> sys_step grow srt s (s\<lparr>sy_pool := g_pool g, sy_bools := g_bools g,
           sy_streams := (sy_streams s)(n \<mapsto> g_stream g), sy_log := sy_log s @ map (Pair n) sent\<rparr>)"
| no_match: "ExtractMatch srt ks now (sy_pool s) = (p, None) \<Longrightarrow> covers ks (brackets (sy_pool s))
     \<Longrightarrow> sys_step grow srt s (s\<lparr>sy_pool := p\<rparr>)"
| extracts: "ExtractMatch srt ks now (sy_pool s) = (p, Some qs) \<Longrightarrow> covers ks (brackets (sy_pool s))
     \<Longrightarrow> fresh_id sid s \<Longrightarrow> sy_rooms s k = None \<Longrightarrow> open_room sid later qs (sy_bools s) = (B, rp)
     \<Longrightarrow> sys_step grow srt s (s\<lparr>sy_pool := p, sy_bools := B, sy_rooms := (sy_rooms s)(k \<mapsto> rp)\<rparr>)"
| notifies: "sy_rooms s k = Some rp \<Longrightarrow> notify_next rp (match_heap (sy_pool s)) = Some (Ret (rp', H, missed))
     \<Longrightarrow> sys_step grow srt s (s\<lparr>sy_pool := (sy_pool s)\<lparr>match_heap := H\<rparr>, sy_rooms := (sy_rooms s)(k \<mapsto> rp'),
           sy_missed := sy_missed s @ missed\<rparr>)"
| launches: "sy_rooms s k = Some rp \<Longrightarrow> launch_next rp = Some rp'
     \<Longrightarrow> sys_step grow srt s (s\<lparr>sy_rooms := (sy_rooms s)(k \<mapsto> rp'), sy_created := sy_created s + 1\<rparr>)"
| coordinates: "sy_rooms s k = Some rp \<Longrightarrow> rp_launched rp \<Longrightarrow> co_step grow (room_view rp s) c
     \<Longrightarrow> sys_step grow srt s (s\<lparr>sy_pool := ck_pool c, sy_sessions := ck_sessions c, sy_bools := ck_bools c,
           sy_rooms := (sy_rooms s)(k \<mapsto> rp\<lparr>rp_co := ck_co c\<rparr>)\<rparr>)"
| expires: "sy_rooms s k = Some rp \<Longrightarrow> rp_launched rp
     \<Longrightarrow> sys_step grow srt s (s\<lparr>sy_rooms := (sy_rooms s)(k \<mapsto> rp\<lparr>rp_co := deadline (rp_co rp)\<rparr>)\<rparr>)"
| submits: "SubmitResult RecordResult ctx_done now req (sy_sessions s) = (ss, reply)
     \<Longrightarrow> sys_step grow srt s (s\<lparr>sy_sessions := ss\<rparr>)"

text \<open>Reads of the pool, the store and the counter (\<open>GetQueueStats\<close>, \<open>GetSession\<close>) change nothing.\<close>

section \<open>The invariant\<close>

text \<open>The players a coordinator may still put back.\<close>

definition claims :: "Coordinator \<Rightarrow> QueuedPlayer set" where
  "claims co = (case co_at co of
       Gathering \<Rightarrow> set (rm_players (co_room co))
     | Publishing _ \<Rightarrow> if co_allAccepted co then {} else set (accepters co)
     | Requeueing qs \<Rightarrow> set qs
     | Finished \<Rightarrow> {})"

definition confirmed :: "Coordinator \<Rightarrow> bool" where
  "confirmed co \<longleftrightarrow> co_at co \<noteq> Gathering \<and> co_allAccepted co"

definition answered :: "System \<Rightarrow> chan_id \<Rightarrow> bool" where
  "answered s c \<longleftrightarrow> c \<in> fst ` snd ` set (sy_log s)"

abbreviation heap_of :: "System \<Rightarrow> MatchEvent chans" where
  "heap_of s \<equiv> match_heap (sy_pool s)"

abbreviation rp_resp :: "RoomProc \<Rightarrow> nat \<Rightarrow> chan_id" where
  "rp_resp rp i \<equiv> rm_responses (rp_room rp) ! i"

definition members :: "System \<Rightarrow> QueuedPlayer set" where
  "members s = gw_qp ` ran (sy_streams s)"

text \<open>Stream \<open>st\<close> has been told of slot \<open>i\<close> of a room.\<close>

definition serves :: "System \<Rightarrow> QueuedPlayer \<Rightarrow> RoomProc \<Rightarrow> nat \<Rightarrow> bool" where
  "serves s q rp i \<longleftrightarrow> rp \<in> ran (sy_rooms s) \<and> i < rp_told rp \<and> q = rp_player rp i"

definition proc_ok :: "RoomProc \<Rightarrow> bool" where
  "proc_ok rp \<longleftrightarrow> length (rm_players (rp_room rp)) = 10 \<and> distinct (map PlayerID (rm_players (rp_room rp)))
     \<and> rp_told rp \<le> 10
     \<and> (\<not> rp_launched rp \<longrightarrow> rp_co rp = launch (rp_room rp)) \<and> (rp_launched rp \<longrightarrow> rp_told rp = 10)
     \<and> (\<forall>qs. co_at (rp_co rp) = Requeueing qs \<longrightarrow> distinct qs \<and> set qs \<subseteq> set (accepters (rp_co rp)))"

definition slot_ok :: "System \<Rightarrow> RoomProc \<Rightarrow> nat \<Rightarrow> bool" where
  "slot_ok s rp i \<longleftrightarrow> (rp_told rp \<le> i \<longrightarrow> \<not> answered s (rp_resp rp i))
     \<and> (rp_player rp i \<in> claims (rp_co rp) \<longrightarrow> idle (heap_of s) (MatchCh (rp_player rp i))
          \<or> i < rp_told rp \<and> holds (heap_of s) (MatchCh (rp_player rp i)) (rp_event rp i) \<and> \<not> answered s (rp_resp rp i))"

definition room_inv :: "(nat \<Rightarrow> nat \<Rightarrow> nat) \<Rightarrow> System \<Rightarrow> RoomProc \<Rightarrow> bool" where
  "room_inv grow s rp \<longleftrightarrow> proc_ok rp \<and> reachable (check_init (rp_room rp)) (check_step grow) (room_view rp s)
     \<and> set (rm_players (rp_room rp)) \<subseteq> members s \<and> claims (rp_co rp) \<inter> queued (sy_pool s) = {}
     \<and> (\<forall>i < 10. slot_ok s rp i)"

definition apart :: "RoomProc \<Rightarrow> RoomProc \<Rightarrow> bool" where
  "apart rp rp' \<longleftrightarrow> claims (rp_co rp) \<inter> claims (rp_co rp') = {} \<and> rm_session (rp_room rp) \<noteq> rm_session (rp_room rp')
     \<and> set (room_chans (rp_room rp)) \<inter> set (room_chans (rp_room rp')) = {}"

definition stream_inv :: "System \<Rightarrow> nat \<Rightarrow> Stream \<Rightarrow> bool" where
  "stream_inv s n st \<longleftrightarrow> reachable gate_init gate_step (stream_view st s)
     \<and> valid_mmr (gw_qp st) \<and> cells (heap_of s) (MatchCh (gw_qp st)) \<noteq> None
     \<and> (\<forall>evt. gw_at st = Checking evt \<longrightarrow> (\<exists>rp i. serves s (gw_qp st) rp i \<and> evt = rp_event rp i
          \<and> \<not> answered s (rp_resp rp i)
          \<and> (gw_qp st \<in> claims (rp_co rp) \<longrightarrow> idle (heap_of s) (MatchCh (gw_qp st)))))
     \<and> (\<forall>evt. gw_at st = Awaiting evt \<longrightarrow> (\<exists>rp i. serves s (gw_qp st) rp i \<and> evt = rp_event rp i
          \<and> (n, rp_resp rp i, True) \<in> set (sy_log s)))
     \<and> (\<forall>resp \<in> set (gw_sent st). \<forall>a. gr_Match resp = Some a \<longrightarrow> (\<exists>rp i. serves s (gw_qp st) rp i
          \<and> a = assignment (rp_event rp i)
          \<and> (gr_Status resp = QUEUE_STATUS_IN_GAME \<longrightarrow> confirmed (rp_co rp))))"

definition event_ok :: "System \<Rightarrow> chan_id \<Rightarrow> MatchEvent \<Rightarrow> bool" where
  "event_ok s c evt \<longleftrightarrow> (\<exists>rp i. serves s (rp_player rp i) rp i \<and> evt = rp_event rp i
     \<and> c = MatchCh (rp_player rp i) \<and> \<not> answered s (rp_resp rp i))
     \<and> (\<forall>st \<in> ran (sy_streams s). gw_at st \<noteq> Checking evt)"

definition events_inv :: "System \<Rightarrow> bool" where
  "events_inv s \<longleftrightarrow> (\<forall>c ch. \<forall>evt \<in> set (ch_buf ch). cells (heap_of s) c = Some ch \<longrightarrow> event_ok s c evt)"

definition log_inv :: "System \<Rightarrow> bool" where
  "log_inv s \<longleftrightarrow> distinct (map (fst \<circ> snd) (sy_log s))
     \<and> (\<forall>(n, c, v) \<in> set (sy_log s). \<exists>st rp i. sy_streams s n = Some st \<and> serves s (gw_qp st) rp i \<and> c = rp_resp rp i)"

definition one_slot :: "'a chans \<Rightarrow> bool" where
  "one_slot H \<longleftrightarrow> (\<forall>c ch. cells H c = Some ch \<longrightarrow> ch_cap ch = 1)"

definition base_inv :: "System \<Rightarrow> bool" where
  "base_inv s \<longleftrightarrow> ready_pool (sy_pool s) \<and> chans_ok (sy_bools s) \<and> store_inv (sy_sessions s)
     \<and> queued (sy_pool s) \<subseteq> members s \<and> sy_missed s = [] \<and> one_slot (heap_of s)
     \<and> (\<forall>n m st st'. sy_streams s n = Some st \<longrightarrow> sy_streams s m = Some st' \<longrightarrow>
          MatchCh (gw_qp st) = MatchCh (gw_qp st') \<longrightarrow> n = m)
     \<and> (\<forall>sid. GetSession sid (sy_sessions s) \<noteq> None \<longrightarrow> \<not> fresh_id sid s)"

definition sys_inv :: "(nat \<Rightarrow> nat \<Rightarrow> nat) \<Rightarrow> System \<Rightarrow> bool" where
  "sys_inv grow s \<longleftrightarrow> base_inv s \<and> events_inv s \<and> log_inv s
     \<and> (\<forall>k rp. sy_rooms s k = Some rp \<longrightarrow> room_inv grow s rp)
     \<and> (\<forall>k k' rp rp'. sy_rooms s k = Some rp \<longrightarrow> sy_rooms s k' = Some rp' \<longrightarrow> k \<noteq> k' \<longrightarrow> apart rp rp')
     \<and> (\<forall>n st. sy_streams s n = Some st \<longrightarrow> stream_inv s n st)"

section \<open>Time passes\<close>

text \<open>What never goes back in a room.\<close>

definition later :: "RoomProc \<Rightarrow> RoomProc \<Rightarrow> bool" where
  "later rp rp' \<longleftrightarrow> rp_now rp' = rp_now rp \<and> rp_room rp' = rp_room rp \<and> rp_told rp \<le> rp_told rp'
     \<and> claims (rp_co rp') \<subseteq> claims (rp_co rp) \<and> (confirmed (rp_co rp) \<longrightarrow> confirmed (rp_co rp'))"

lemma later_refl [simp]: "later rp rp"
  by (simp add: later_def)

lemma later_same: "later rp rp' \<Longrightarrow> rp_player rp' i = rp_player rp i \<and> rp_event rp' i = rp_event rp i"
  by (simp add: later_def rp_player_def rp_event_def)

definition rooms_later :: "System \<Rightarrow> System \<Rightarrow> bool" where
  "rooms_later s t \<longleftrightarrow> (\<forall>k rp. sy_rooms s k = Some rp \<longrightarrow> (\<exists>rp'. sy_rooms t k = Some rp' \<and> later rp rp'))"

lemma rooms_later_same: "sy_rooms t = sy_rooms s \<Longrightarrow> rooms_later s t"
  by (simp add: rooms_later_def)

lemma rooms_later_upd: "sy_rooms t = (sy_rooms s)(k \<mapsto> rp') \<Longrightarrow> sy_rooms s k = None \<or> (\<exists>rp. sy_rooms s k = Some rp \<and> later rp rp')
   \<Longrightarrow> rooms_later s t"
  by (auto simp: rooms_later_def)

lemma serves_later:
  assumes "serves s q rp i" "rooms_later s t"
  obtains rp' where "serves t q rp' i" "later rp rp'"
proof -
  obtain k where k: "sy_rooms s k = Some rp" "i < rp_told rp" "q = rp_player rp i"
    using assms(1) by (auto simp: serves_def ran_def)
  obtain rp' where rp': "sy_rooms t k = Some rp'" "later rp rp'"
    using k(1) assms(2) unfolding rooms_later_def by blast
  then have "serves t q rp' i"
    using k later_same [OF rp'(2)] by (auto simp: serves_def later_def intro: ranI)
  from this rp'(2) show thesis by (rule that)
qed

lemma rp_event_simps [simp]: "ResponseCh (rp_event rp i) = rp_resp rp i"
  "ResultCh (rp_event rp i) = rm_results (rp_room rp) ! i"
  "evt_SessionID (rp_event rp i) = rm_session (rp_room rp)"
  "evt_PlayerIDs (rp_event rp i) = map PlayerID (rm_players (rp_room rp))"
  by (simp_all add: rp_event_def room_event_def)


section \<open>Frames\<close>

lemma stream_facts:
  assumes "stream_inv s n st"
  shows "reachable gate_init gate_step (stream_view st s)" "valid_mmr (gw_qp st)"
    and "cells (heap_of s) (MatchCh (gw_qp st)) \<noteq> None"
  using assms by (simp_all add: stream_inv_def)

lemma stream_checking:
  assumes "stream_inv s n st" "gw_at st = Checking evt"
  obtains rp i where "serves s (gw_qp st) rp i" "evt = rp_event rp i" "\<not> answered s (rp_resp rp i)"
    and "gw_qp st \<in> claims (rp_co rp) \<Longrightarrow> idle (heap_of s) (MatchCh (gw_qp st))"
  using assms unfolding stream_inv_def by blast

lemma stream_awaiting:
  assumes "stream_inv s n st" "gw_at st = Awaiting evt"
  obtains rp i where "serves s (gw_qp st) rp i" "evt = rp_event rp i" "(n, rp_resp rp i, True) \<in> set (sy_log s)"
  using assms by (auto simp: stream_inv_def)

lemma stream_assigned:
  assumes "stream_inv s n st" "resp \<in> set (gw_sent st)" "gr_Match resp = Some a"
  obtains rp i where "serves s (gw_qp st) rp i" "a = assignment (rp_event rp i)"
    and "gr_Status resp = QUEUE_STATUS_IN_GAME \<Longrightarrow> confirmed (rp_co rp)"
  using assms unfolding stream_inv_def by blast

lemma stream_frame:
  assumes inv: "stream_inv s n st" and rooms: "rooms_later s t" and log: "set (sy_log s) \<subseteq> set (sy_log t)"
    and pool: "pool_inv (sy_pool t)"
    and cell: "cells (heap_of s) (MatchCh (gw_qp st)) \<noteq> None \<Longrightarrow> cells (heap_of t) (MatchCh (gw_qp st)) \<noteq> None"
    and idle: "\<And>rp i. gw_at st = Checking (rp_event rp i) \<Longrightarrow> serves s (gw_qp st) rp i \<Longrightarrow> gw_qp st \<in> claims (rp_co rp)
        \<Longrightarrow> idle (heap_of s) (MatchCh (gw_qp st)) \<Longrightarrow> idle (heap_of t) (MatchCh (gw_qp st))"
    and mute: "\<And>evt. gw_at st = Checking evt \<Longrightarrow> \<not> answered s (ResponseCh evt) \<Longrightarrow> \<not> answered t (ResponseCh evt)"
  shows "stream_inv t n st"
  unfolding stream_inv_def
proof (intro conjI allI ballI impI)
  have "gate_step (stream_view st s) (stream_view st t)"
    using gate_step.others [OF pool, of "stream_view st s" "sy_bools t"] by (simp add: stream_view_def)
  then show "reachable gate_init gate_step (stream_view st t)"
    by (rule reachable.move [OF stream_facts(1) [OF inv]])
  show "valid_mmr (gw_qp st)" using inv by (simp add: stream_inv_def)
  show "cells (heap_of t) (MatchCh (gw_qp st)) \<noteq> None" using inv cell by (simp add: stream_inv_def)
next
  fix evt
  assume at: "gw_at st = Checking evt"
  obtain rp i where sv: "serves s (gw_qp st) rp i" and e: "evt = rp_event rp i" "\<not> answered s (rp_resp rp i)"
    and q: "gw_qp st \<in> claims (rp_co rp) \<Longrightarrow> idle (heap_of s) (MatchCh (gw_qp st))"
    using stream_checking [OF inv at] by blast
  obtain rp' where rp': "serves t (gw_qp st) rp' i" "later rp rp'" using serves_later [OF sv rooms] by blast
  have same: "rp_event rp' i = rp_event rp i" "rp_resp rp' i = rp_resp rp i"
    using rp'(2) later_same by (auto simp: later_def)
  have "\<not> answered t (rp_resp rp' i)" using mute [OF at] e same by simp
  moreover have "gw_qp st \<in> claims (rp_co rp') \<longrightarrow> idle (heap_of t) (MatchCh (gw_qp st))"
    using q idle sv at e(1) rp'(2) by (auto simp: later_def)
  ultimately show "\<exists>rp i. serves t (gw_qp st) rp i \<and> evt = rp_event rp i \<and> \<not> answered t (rp_resp rp i)
      \<and> (gw_qp st \<in> claims (rp_co rp) \<longrightarrow> idle (heap_of t) (MatchCh (gw_qp st)))"
    using rp'(1) e(1) same by metis
next
  fix evt
  assume at: "gw_at st = Awaiting evt"
  obtain rp i where sv: "serves s (gw_qp st) rp i" and e: "evt = rp_event rp i"
    and l: "(n, rp_resp rp i, True) \<in> set (sy_log s)"
    by (rule stream_awaiting [OF inv at])
  obtain rp' where rp': "serves t (gw_qp st) rp' i" "later rp rp'" using serves_later [OF sv rooms] by blast
  have same: "rp_event rp' i = rp_event rp i" "rp_resp rp' i = rp_resp rp i"
    using rp'(2) later_same by (auto simp: later_def)
  show "\<exists>rp i. serves t (gw_qp st) rp i \<and> evt = rp_event rp i \<and> (n, rp_resp rp i, True) \<in> set (sy_log t)"
    using rp'(1) e same log l by (metis subsetD)
next
  fix resp a
  assume resp: "resp \<in> set (gw_sent st)" "gr_Match resp = Some a"
  obtain rp i where sv: "serves s (gw_qp st) rp i" and e: "a = assignment (rp_event rp i)"
    and c: "gr_Status resp = QUEUE_STATUS_IN_GAME \<Longrightarrow> confirmed (rp_co rp)"
    using stream_assigned [OF inv resp] by blast
  obtain rp' where rp': "serves t (gw_qp st) rp' i" "later rp rp'" using serves_later [OF sv rooms] by blast
  have same: "rp_event rp' i = rp_event rp i" using rp'(2) later_same by blast
  have "gr_Status resp = QUEUE_STATUS_IN_GAME \<longrightarrow> confirmed (rp_co rp')" using c rp'(2) by (auto simp: later_def)
  then show "\<exists>rp i. serves t (gw_qp st) rp i \<and> a = assignment (rp_event rp i)
      \<and> (gr_Status resp = QUEUE_STATUS_IN_GAME \<longrightarrow> confirmed (rp_co rp))"
    using rp'(1) e same by metis
qed


lemma view_env:
  assumes "reachable (check_init r) (check_step grow) v" "env_step v w"
  shows "reachable (check_init r) (check_step grow) w"
  by (rule reachable.move [OF assms(1)]) (simp add: check_step_def assms(2))

lemma view_frame:
  assumes view: "reachable (check_init r) (check_step grow) (room_view rp s)"
    and bools: "\<And>c. c \<in> set (room_chans (rp_room rp)) \<Longrightarrow> cells (sy_bools t) c = cells (sy_bools s) c"
    and log: "sy_log t = sy_log s @ new" "\<And>n c v. (n, c, v) \<in> set new \<Longrightarrow> c \<notin> set (rm_responses (rp_room rp))"
    and sess: "sy_sessions t = sy_sessions s
      \<or> (\<exists>now sid pids. sid \<noteq> rm_session (rp_room rp) \<and> sy_sessions t = CreateSession now sid pids (sy_sessions s))
      \<or> (\<exists>now sid pid result score. sy_sessions t = fst (RecordResult now sid pid result score (sy_sessions s)))"
  shows "reachable (check_init r) (check_step grow) (room_view rp t)"
proof -
  let ?v = "room_view rp s"
  let ?v1 = "?v\<lparr>ck_bools := sy_bools t, ck_sent := ck_sent ?v @ map snd new\<rparr>"
  let ?v2 = "?v1\<lparr>ck_sessions := sy_sessions t\<rparr>"
  have "env_step ?v ?v1"
  proof (rule env_step.elsewhere)
    show "cells (sy_bools t) c = cells (ck_bools ?v) c" if "c \<in> set (room_chans (co_room (ck_co ?v)))" for c
      using bools that by (simp add: room_view_def)
    show "c \<notin> set (rm_responses (co_room (ck_co ?v)))" if "(c, v) \<in> set (map snd new)" for c v
      using log(2) that by (force simp: room_view_def)
  qed
  from view_env [OF view this] have v1: "reachable (check_init r) (check_step grow) ?v1" .
  have v2: "reachable (check_init r) (check_step grow) ?v2"
    using sess
  proof (elim disjE exE conjE)
    assume "sy_sessions t = sy_sessions s"
    then have "?v2 = ?v1" by (simp add: room_view_def)
    with v1 show ?thesis by simp
  next
    fix now sid pids
    assume "sid \<noteq> rm_session (rp_room rp)" "sy_sessions t = CreateSession now sid pids (sy_sessions s)"
    with view_env [OF v1 env_step.other_session [of sid ?v1 now pids]] show ?thesis by (simp add: room_view_def)
  next
    fix now sid pid result score
    assume "sy_sessions t = fst (RecordResult now sid pid result score (sy_sessions s))"
    with view_env [OF v1 env_step.record_result [of ?v1 now sid pid result score]] show ?thesis by (simp add: room_view_def)
  qed
  have "room_view rp t = ?v2\<lparr>ck_pool := sy_pool t\<rparr>" using log by (simp add: room_view_def)
  then show ?thesis using view_env [OF v2 env_step.pool_changes] by simp
qed

lemma room_check:
  assumes "room_inv grow s rp"
  shows "check_inv (rp_room rp) (room_view rp s)"
proof (rule ready_check.reachable_inv)
  show "reachable (check_init (rp_room rp)) (check_step grow) (room_view rp s)"
    using assms by (simp add: room_inv_def)
qed

lemma room_shape:
  assumes "room_inv grow s rp"
  shows "room_ok (rp_room rp) (rp_co rp)" "length (rm_players (rp_room rp)) = 10"
    and "length (rm_responses (rp_room rp)) = 10" "length (rm_results (rp_room rp)) = 10"
    and "distinct (rm_players (rp_room rp))"
proof -
  show ok: "room_ok (rp_room rp) (rp_co rp)"
    using room_check [OF assms] by (simp add: check_inv_def room_view_def)
  show n: "length (rm_players (rp_room rp)) = 10"
    using assms by (simp add: room_inv_def proc_ok_def)
  show "distinct (rm_players (rp_room rp))"
    using assms by (simp add: room_inv_def proc_ok_def distinct_map)
  show "length (rm_responses (rp_room rp)) = 10" "length (rm_results (rp_room rp)) = 10"
    using ok n(1) by (simp_all add: room_ok_def)
qed

lemma slot_frame:
  assumes "slot_ok s rp i" and "\<not> answered s (rp_resp rp i) \<Longrightarrow> \<not> answered t (rp_resp rp i)"
    and "rp_player rp i \<in> claims (rp_co rp)
      \<Longrightarrow> cells (heap_of t) (MatchCh (rp_player rp i)) = cells (heap_of s) (MatchCh (rp_player rp i))"
  shows "slot_ok t rp i"
  using assms unfolding slot_ok_def idle_def holds_def by auto

lemma slot_later:
  assumes "slot_ok s rp i" "later rp rp'" "sy_log t = sy_log s" "heap_of t = heap_of s"
    and "rp_told rp' = rp_told rp"
  shows "slot_ok t rp' i"
  using assms later_same [OF assms(2)] unfolding slot_ok_def answered_def later_def by auto

text \<open>A room that does not move while the rest of the server does.\<close>

lemma room_frame_view:
  assumes "room_inv grow s rp" and "reachable (check_init (rp_room rp)) (check_step grow) (room_view rp t)"
    and "members s \<subseteq> members t" "claims (rp_co rp) \<inter> queued (sy_pool t) = {}"
    and "\<And>i. i < 10 \<Longrightarrow> slot_ok s rp i \<Longrightarrow> slot_ok t rp i"
  shows "room_inv grow t rp"
  using assms unfolding room_inv_def by blast

lemma room_frame:
  assumes inv: "room_inv grow s rp"
    and bools: "\<And>c. c \<in> set (room_chans (rp_room rp)) \<Longrightarrow> cells (sy_bools t) c = cells (sy_bools s) c"
    and log: "sy_log t = sy_log s @ new" "\<And>n c v. (n, c, v) \<in> set new \<Longrightarrow> c \<notin> set (rm_responses (rp_room rp))"
    and sess: "sy_sessions t = sy_sessions s
      \<or> (\<exists>now sid pids. sid \<noteq> rm_session (rp_room rp) \<and> sy_sessions t = CreateSession now sid pids (sy_sessions s))
      \<or> (\<exists>now sid pid result score. sy_sessions t = fst (RecordResult now sid pid result score (sy_sessions s)))"
    and who: "members s \<subseteq> members t" "claims (rp_co rp) \<inter> queued (sy_pool t) = {}"
    and cell: "\<And>q. q \<in> claims (rp_co rp) \<Longrightarrow> cells (heap_of t) (MatchCh q) = cells (heap_of s) (MatchCh q)"
  shows "room_inv grow t rp"
proof (rule room_frame_view [OF inv _ who])
  have "reachable (check_init (rp_room rp)) (check_step grow) (room_view rp s)" using inv by (simp add: room_inv_def)
  then show "reachable (check_init (rp_room rp)) (check_step grow) (room_view rp t)"
    by (rule view_frame [OF _ _ log(1) _ sess]) (use bools log(2) in auto)
next
  fix i :: nat
  assume i: "i < 10" and ok: "slot_ok s rp i"
  show "slot_ok t rp i"
  proof (rule slot_frame [OF ok])
    have "rp_resp rp i \<in> set (rm_responses (rp_room rp))"
      using i room_shape(3) [OF inv] by simp
    then show "\<not> answered s (rp_resp rp i) \<Longrightarrow> \<not> answered t (rp_resp rp i)"
      using log unfolding answered_def by fastforce
  qed (rule cell)
qed

end
