(* ===== verification/Nexus_System_Streams.thy ===== *)
theory Nexus_System_Streams
  imports Nexus_System
begin

text \<open>
  The invariant of the whole server under the steps of its streams: what it says about players, rooms
  and channels, and one lemma per effect a stream's step can have (\<open>gw_step_effect\<close>).
\<close>

section \<open>Consequences of the invariant\<close>

lemma sys_facts:
  assumes "sys_inv grow s"
  shows "base_inv s" "events_inv s" "log_inv s"
    and "sy_rooms s k = Some rp \<Longrightarrow> room_inv grow s rp"
    and "sy_rooms s k = Some rp \<Longrightarrow> sy_rooms s k' = Some rp' \<Longrightarrow> k \<noteq> k' \<Longrightarrow> apart rp rp'"
    and "sy_streams s n = Some st \<Longrightarrow> stream_inv s n st"
  using assms by (simp_all add: sys_inv_def)

lemma base_facts:
  assumes "base_inv s"
  shows "ready_pool (sy_pool s)" "chans_ok (sy_bools s)" "store_inv (sy_sessions s)" "queued (sy_pool s) \<subseteq> members s"
    and "sy_missed s = []" "sy_streams s n = Some st \<Longrightarrow> sy_streams s m = Some st' \<Longrightarrow>
          MatchCh (gw_qp st) = MatchCh (gw_qp st') \<Longrightarrow> n = m"
    and "GetSession sid (sy_sessions s) \<noteq> None \<Longrightarrow> \<not> fresh_id sid s" "pool_inv (sy_pool s)"
    and "one_slot (heap_of s)"
  using assms unfolding base_inv_def ready_pool_def by blast+

lemma claims_players:
  assumes "proc_ok rp"
  shows "claims (rp_co rp) \<subseteq> set (rm_players (rp_room rp))"
proof -
  have "set (accepters (rp_co rp)) \<subseteq> set (rm_players (rp_room rp))"
    by (auto simp: accepters_def dest: set_zip_leftD)
  then show ?thesis
    using assms by (auto simp: claims_def proc_ok_def split: co_pc.splits)
qed

lemma claimed_slot:
  assumes "proc_ok rp" "q \<in> claims (rp_co rp)"
  obtains i where "i < 10" "q = rp_player rp i"
proof -
  have "q \<in> set (rm_players (rp_room rp))" using claims_players [OF assms(1)] assms(2) by blast
  then show thesis using assms(1) that by (auto simp: proc_ok_def rp_player_def in_set_conv_nth)
qed

lemma members_inj:
  assumes "base_inv s"
  shows "inj_on MatchCh (members s)"
proof (rule inj_onI)
  fix q q'
  assume "q \<in> members s" "q' \<in> members s" and eq: "MatchCh q = MatchCh q'"
  then obtain n m st st' where *: "sy_streams s n = Some st" "sy_streams s m = Some st'" "q = gw_qp st" "q' = gw_qp st'"
    by (auto simp: members_def ran_def)
  then have "n = m" using base_facts(6) [OF assms] eq by blast
  with * show "q = q'" by simp
qed

lemma claims_members:
  assumes "room_inv grow s rp"
  shows "claims (rp_co rp) \<subseteq> members s"
  using assms claims_players [of rp] by (auto simp: room_inv_def)

lemma player_slot:
  assumes "room_inv grow s rp" "i < 10"
  shows "rp_player rp i \<in> members s" "j < 10 \<Longrightarrow> rp_player rp j = rp_player rp i \<longleftrightarrow> j = i"
    and "rp_resp rp i \<in> set (rm_responses (rp_room rp))" "rp_resp rp i \<in> set (room_chans (rp_room rp))"
    and "j < 10 \<Longrightarrow> rp_resp rp j = rp_resp rp i \<longleftrightarrow> j = i"
    and "rm_results (rp_room rp) ! i \<in> set (rm_results (rp_room rp))"
proof -
  note sh = room_shape [OF assms(1)]
  have sub: "set (rm_players (rp_room rp)) \<subseteq> members s" using assms(1) by (simp add: room_inv_def)
  show "rp_player rp i \<in> members s" using sub sh(2) assms(2) by (auto simp: rp_player_def)
  show "rp_player rp j = rp_player rp i \<longleftrightarrow> j = i" if "j < 10"
    using that assms(2) sh(2,5) by (simp add: rp_player_def nth_eq_iff_index_eq)
  show "rp_resp rp i \<in> set (rm_responses (rp_room rp))" using sh(3) assms(2) by simp
  then show "rp_resp rp i \<in> set (room_chans (rp_room rp))" by simp
  have "distinct (rm_responses (rp_room rp))" using sh(1) by (simp add: room_ok_def)
  then show "rp_resp rp j = rp_resp rp i \<longleftrightarrow> j = i" if "j < 10"
    using that assms(2) sh(3) by (simp add: nth_eq_iff_index_eq)
  show "rm_results (rp_room rp) ! i \<in> set (rm_results (rp_room rp))" using sh(4) assms(2) by simp
qed

lemma serves_room:
  assumes "sys_inv grow s" "serves s q rp i"
  obtains k where "sy_rooms s k = Some rp" "room_inv grow s rp" "i < 10" "q = rp_player rp i"
proof -
  obtain k where k: "sy_rooms s k = Some rp" "i < rp_told rp" "q = rp_player rp i"
    using assms(2) by (auto simp: serves_def ran_def)
  then have r: "room_inv grow s rp" using sys_facts(4) [OF assms(1)] by blast
  then have "rp_told rp \<le> 10" by (simp add: room_inv_def proc_ok_def)
  then show thesis using k r by (intro that) auto
qed

text \<open>A channel of a room names the room; a response channel also the slot.\<close>

lemma same_room:
  assumes inv: "sys_inv grow s" and k: "sy_rooms s k = Some rp" "sy_rooms s k' = Some rp'"
    and c: "c \<in> set (room_chans (rp_room rp))" "c \<in> set (room_chans (rp_room rp'))"
  shows "k = k' \<and> rp = rp'"
proof (rule ccontr)
  assume "\<not> ?thesis"
  with k have "k \<noteq> k'" by auto
  with sys_facts(5) [OF inv k] c show False by (auto simp: apart_def)
qed

lemma same_slot:
  assumes inv: "sys_inv grow s" and sv: "serves s q rp i" "serves s q' rp' j" and c: "rp_resp rp i = rp_resp rp' j"
  shows "rp = rp' \<and> i = j \<and> q = q'"
proof -
  obtain k k' where k: "sy_rooms s k = Some rp" "room_inv grow s rp" "i < 10" "q = rp_player rp i"
    and k': "sy_rooms s k' = Some rp'" "room_inv grow s rp'" "j < 10" "q' = rp_player rp' j"
    using serves_room [OF inv sv(1)] serves_room [OF inv sv(2)] by metis
  have "rp_resp rp i \<in> set (room_chans (rp_room rp'))" using player_slot(4) [OF k'(2,3)] c by metis
  with same_room [OF inv k(1) k'(1) player_slot(4) [OF k(2,3)]] have "rp = rp'" by blast
  with c k k' player_slot(5) [OF k(2,3)] show ?thesis by auto
qed

lemma same_stream:
  assumes inv: "sys_inv grow s" and s: "sy_streams s n = Some st" "sy_streams s m = Some st'"
    and e: "gw_at st = Checking evt" "gw_at st' = Checking evt"
  shows "n = m"
proof -
  obtain rp i where a: "serves s (gw_qp st) rp i" "evt = rp_event rp i"
    using stream_checking [OF sys_facts(6) [OF inv s(1)] e(1)] by metis
  obtain rp' j where b: "serves s (gw_qp st') rp' j" "evt = rp_event rp' j"
    using stream_checking [OF sys_facts(6) [OF inv s(2)] e(2)] by metis
  have "rp_resp rp i = rp_resp rp' j" using a(2) b(2) by (metis rp_event_simps(1))
  then have "gw_qp st = gw_qp st'" using same_slot [OF inv a(1) b(1)] by blast
  then show ?thesis using base_facts(6) [OF sys_facts(1) [OF inv] s] by simp
qed

lemma members_iff: "q \<in> members s \<longleftrightarrow> (\<exists>n st. sy_streams s n = Some st \<and> gw_qp st = q)"
  by (auto simp: members_def ran_def)

lemma log_entry:
  assumes "log_inv s" "(n, c, v) \<in> set (sy_log s)"
  obtains st rp i where "sy_streams s n = Some st" "serves s (gw_qp st) rp i" "c = rp_resp rp i"
  using assms by (fastforce simp: log_inv_def)

section \<open>Steps of a stream\<close>

lemma stream_moved:
  assumes inv: "stream_inv s n st" and step: "gw_step sent (stream_view st s) g"
    and view: "stream_view (g_stream g) t = g"
    and rooms: "sy_rooms t = sy_rooms s"
    and cell: "cells (heap_of t) (MatchCh (gw_qp st)) \<noteq> None"
    and ck: "\<And>evt. gw_at (g_stream g) = Checking evt \<Longrightarrow> (\<exists>rp i. serves s (gw_qp st) rp i \<and> evt = rp_event rp i
          \<and> \<not> answered t (rp_resp rp i)
          \<and> (gw_qp st \<in> claims (rp_co rp) \<longrightarrow> idle (heap_of t) (MatchCh (gw_qp st))))"
    and aw: "\<And>evt. gw_at (g_stream g) = Awaiting evt \<Longrightarrow> (\<exists>rp i. serves s (gw_qp st) rp i \<and> evt = rp_event rp i
          \<and> (n, rp_resp rp i, True) \<in> set (sy_log t))"
    and sent: "gw_sent (g_stream g) = gw_sent st @ news"
      "\<And>resp a. resp \<in> set news \<Longrightarrow> gr_Match resp = Some a \<Longrightarrow> (\<exists>rp i. serves s (gw_qp st) rp i
          \<and> a = assignment (rp_event rp i) \<and> (gr_Status resp = QUEUE_STATUS_IN_GAME \<longrightarrow> confirmed (rp_co rp)))"
  shows "stream_inv t n (g_stream g)"
proof -
  have qp: "gw_qp (g_stream g) = gw_qp st" using gw_step_player [OF step] by (simp add: stream_view_def)
  have sv: "serves t q rp i = serves s q rp i" for q rp i by (simp add: serves_def rooms)
  have "gate_step (stream_view st s) g" using step by (rule gate_step.own)
  then have "reachable gate_init gate_step (stream_view (g_stream g) t)"
    unfolding view using reachable.move stream_facts(1) [OF inv] by metis
  moreover have "\<exists>rp i. serves s (gw_qp st) rp i \<and> a = assignment (rp_event rp i)
      \<and> (gr_Status resp = QUEUE_STATUS_IN_GAME \<longrightarrow> confirmed (rp_co rp))"
    if "resp \<in> set (gw_sent (g_stream g))" "gr_Match resp = Some a" for resp a
  proof (cases "resp \<in> set (gw_sent st)")
    case True
    with stream_assigned [OF inv this that(2)] show ?thesis by blast
  next
    case False
    with that sent show ?thesis by simp
  qed
  ultimately show ?thesis
    using stream_facts(2) [OF inv] cell ck aw unfolding stream_inv_def qp sv by blast
qed

definition stream_next :: "nat \<Rightarrow> gate \<Rightarrow> (chan_id \<times> bool) list \<Rightarrow> System \<Rightarrow> System" where
  "stream_next n g sent s = s\<lparr>sy_pool := g_pool g, sy_bools := g_bools g,
     sy_streams := (sy_streams s)(n \<mapsto> g_stream g), sy_log := sy_log s @ map (Pair n) sent\<rparr>"

lemma stream_next_simps [simp]:
  "sy_pool (stream_next n g sent s) = g_pool g" "sy_bools (stream_next n g sent s) = g_bools g"
  "sy_streams (stream_next n g sent s) = (sy_streams s)(n \<mapsto> g_stream g)"
  "sy_log (stream_next n g sent s) = sy_log s @ map (Pair n) sent"
  "sy_rooms (stream_next n g sent s) = sy_rooms s" "sy_sessions (stream_next n g sent s) = sy_sessions s"
  "sy_missed (stream_next n g sent s) = sy_missed s" "stream_view (g_stream g) (stream_next n g sent s) = g"
  by (simp_all add: stream_next_def stream_view_def)

lemma stream_next_serves [simp]: "serves (stream_next n g sent s) = serves s"
  by (simp add: serves_def fun_eq_iff)

lemma stream_next_back:
  assumes "sy_streams s n = Some st" "gw_step sent (stream_view st s) g"
    and "((sy_streams s)(n \<mapsto> g_stream g)) m = Some x"
  obtains y where "sy_streams s m = Some y" "gw_qp y = gw_qp x"
proof -
  have "gw_qp (g_stream g) = gw_qp st" using gw_step_player [OF assms(2)] by (simp add: stream_view_def)
  then show thesis using assms(1,3) that by (cases "m = n") auto
qed

lemma stream_next_members:
  assumes "sy_streams s n = Some st" "gw_step sent (stream_view st s) g"
  shows "members (stream_next n g sent s) = members s"
proof -
  have qp: "gw_qp (g_stream g) = gw_qp st" using gw_step_player [OF assms(2)] by (simp add: stream_view_def)
  have ins: "ran (f(n \<mapsto> x)) = insert x (ran (f(n := None)))" for f :: "nat \<rightharpoonup> Stream" and x
    by (auto simp: ran_def)
  have "sy_streams s = (sy_streams s)(n \<mapsto> st)" using assms(1) by auto
  then have "gw_qp ` ran (sy_streams s) = insert (gw_qp st) (gw_qp ` ran ((sy_streams s)(n := None)))"
    using ins by (metis image_insert)
  then show ?thesis by (simp add: members_def ins qp)
qed

lemma stream_next_inv:
  assumes inv: "sys_inv grow s" and st: "sy_streams s n = Some st" and step: "gw_step sent (stream_view st s) g"
    and pool: "ready_pool (g_pool g)" "queued (g_pool g) \<subseteq> queued (sy_pool s)" "one_slot (match_heap (g_pool g))" and bools: "chans_ok (g_bools g)"
    and ev: "events_inv (stream_next n g sent s)" and log: "log_inv (stream_next n g sent s)"
    and rooms: "\<And>k rp. sy_rooms s k = Some rp \<Longrightarrow> room_inv grow (stream_next n g sent s) rp"
    and others: "\<And>m st'. m \<noteq> n \<Longrightarrow> sy_streams s m = Some st' \<Longrightarrow> stream_inv (stream_next n g sent s) m st'"
    and self: "stream_inv (stream_next n g sent s) n (g_stream g)"
  shows "sys_inv grow (stream_next n g sent s)"
proof -
  note b = base_facts [OF sys_facts(1) [OF inv]]
  have qp: "gw_qp (g_stream g) = gw_qp st" using gw_step_player [OF step] by (simp add: stream_view_def)
  have fresh: "\<forall>sid. GetSession sid (sy_sessions s) \<noteq> None \<longrightarrow> \<not> fresh_id sid (stream_next n g sent s)"
    using b(7) by (simp add: fresh_id_def)
  have inj: "m = m'" if x: "((sy_streams s)(n \<mapsto> g_stream g)) m = Some x"
      "((sy_streams s)(n \<mapsto> g_stream g)) m' = Some x'" "MatchCh (gw_qp x) = MatchCh (gw_qp x')" for m m' x x'
  proof -
    obtain y y' where "sy_streams s m = Some y" "gw_qp y = gw_qp x" "sy_streams s m' = Some y'" "gw_qp y' = gw_qp x'"
      using stream_next_back [OF st step x(1)] stream_next_back [OF st step x(2)] by metis
    then show ?thesis using b(6) x(3) by metis
  qed
  have "base_inv (stream_next n g sent s)"
    unfolding base_inv_def stream_next_simps stream_next_members [OF st step]
    by (intro conjI pool(1,3) bools b(3,5) fresh order_trans [OF pool(2) b(4)] allI impI) (rule inj)
  then show ?thesis
    using ev log rooms others self sys_facts(5) [OF inv] unfolding sys_inv_def by simp
qed

lemma answered_next: "answered (stream_next n g sent s) c \<longleftrightarrow> answered s c \<or> c \<in> fst ` set sent"
  by (simp add: answered_def image_Un image_image)

lemma answered_quiet [simp]: "answered (stream_next n g [] s) = answered s"
  by (simp add: fun_eq_iff answered_next)

lemma log_next:
  assumes inv: "sys_inv grow s" and st: "sy_streams s n = Some st" and step: "gw_step sent (stream_view st s) g"
    and new: "sent = [] \<or> (\<exists>rp i v. sent = [(rp_resp rp i, v)] \<and> \<not> answered s (rp_resp rp i) \<and> serves s (gw_qp st) rp i)"
  shows "log_inv (stream_next n g sent s)"
proof -
  let ?t = "stream_next n g sent s"
  have qp: "gw_qp (g_stream g) = gw_qp st" using gw_step_player [OF step] by (simp add: stream_view_def)
  have old: "\<exists>x rp i. sy_streams ?t m = Some x \<and> serves s (gw_qp x) rp i \<and> c = rp_resp rp i"
    if l: "(m, c, v) \<in> set (sy_log s)" for m c v
  proof -
    obtain x rp i where x: "sy_streams s m = Some x" "serves s (gw_qp x) rp i" "c = rp_resp rp i"
      by (rule log_entry [OF sys_facts(3) [OF inv] l])
    then show ?thesis using qp st by (cases "m = n") auto
  qed
  have d: "distinct (map (fst \<circ> snd) (sy_log s))" using sys_facts(3) [OF inv] by (simp add: log_inv_def)
  from new show ?thesis
  proof (elim disjE exE conjE)
    assume "sent = []"
    then show ?thesis using d old by (auto simp: log_inv_def)
  next
    fix rp i v
    assume new: "sent = [(rp_resp rp i, v)]" "\<not> answered s (rp_resp rp i)" "serves s (gw_qp st) rp i"
    have "rp_resp rp i \<notin> set (map (fst \<circ> snd) (sy_log s))"
      using new(2) unfolding answered_def by (simp add: image_comp)
    moreover have "\<exists>x rp' j. sy_streams ?t n = Some x \<and> serves s (gw_qp x) rp' j \<and> rp_resp rp i = rp_resp rp' j"
      using new(3) qp by auto
    ultimately show ?thesis using d old new(1) unfolding log_inv_def stream_next_serves by auto
  qed
qed

lemmas log_same = log_next [where sent = "[]", simplified]

lemma eventsD: "events_inv s \<Longrightarrow> cells (heap_of s) c = Some ch \<Longrightarrow> evt \<in> set (ch_buf ch) \<Longrightarrow> event_ok s c evt"
  unfolding events_inv_def by blast

text \<open>An event stays where it is unless its stream starts to check it.\<close>

lemma event_ok_next:
  assumes "event_ok s c evt" "gw_at (g_stream g) \<noteq> Checking evt" "ResponseCh evt \<notin> fst ` set sent"
  shows "event_ok (stream_next n g sent s) c evt"
proof -
  have "x \<in> ran (sy_streams s)" if "x \<in> ran (sy_streams (stream_next n g sent s))" "x \<noteq> g_stream g" for x
    using that by (auto simp: ran_def split: if_splits)
  moreover have "rp_resp rp i \<notin> fst ` set sent" if "evt = rp_event rp i" for rp i
    using assms(3) that by simp
  ultimately show ?thesis
    using assms(1,2) unfolding event_ok_def stream_next_serves answered_next by metis
qed

lemma stream_quiet_inv:
  assumes inv: "sys_inv grow s" and st: "sy_streams s n = Some st" and step: "gw_step [] (stream_view st s) g"
    and same: "g_pool g = sy_pool s" "g_bools g = sy_bools s"
    and at: "gw_at (g_stream g) = gw_at st \<or> \<not> in_check (g_stream g)"
    and sent: "gw_sent (g_stream g) = gw_sent st @ news" "\<forall>resp \<in> set news. gr_Match resp = None"
  shows "sys_inv grow (stream_next n g [] s)"
proof (rule stream_next_inv [OF inv st step])
  let ?t = "stream_next n g [] s"
  note b = base_facts [OF sys_facts(1) [OF inv]]
  note f = stream_facts [OF sys_facts(6) [OF inv st]]
  show "ready_pool (g_pool g)" "queued (g_pool g) \<subseteq> queued (sy_pool s)" "one_slot (match_heap (g_pool g))"
    "chans_ok (g_bools g)"
    using b same by simp_all
  show "log_inv ?t" by (rule log_same [OF inv st step])
  show "events_inv ?t"
    unfolding events_inv_def
  proof (intro allI ballI impI)
    fix c ch evt
    assume "evt \<in> set (ch_buf ch)" "cells (heap_of ?t) c = Some ch"
    then have ok: "event_ok s c evt" using eventsD [OF sys_facts(2) [OF inv]] same by simp
    moreover have "gw_at (g_stream g) \<noteq> Checking evt"
      using ok at st unfolding event_ok_def in_check_def by (metis ranI)
    ultimately show "event_ok ?t c evt" by (intro event_ok_next) auto
  qed
  show "room_inv grow ?t rp" if "sy_rooms s k = Some rp" for k rp
    by (rule room_frame [OF sys_facts(4) [OF inv that], of _ "[]"])
      (use same that sys_facts(4) [OF inv that] stream_next_members [OF st step] in \<open>simp_all add: room_inv_def\<close>)
  show "stream_inv ?t m x" if "m \<noteq> n" "sy_streams s m = Some x" for m x
    by (rule stream_frame [OF sys_facts(6) [OF inv that(2)]])
      (use b(8) same in \<open>simp_all add: rooms_later_same\<close>)
  show "stream_inv ?t n (g_stream g)"
  proof (rule stream_moved [OF sys_facts(6) [OF inv st] step _ _ _ _ _ sent(1)])
    fix evt
    assume e: "gw_at (g_stream g) = Checking evt"
    then have e': "gw_at st = Checking evt" using at by (auto simp: in_check_def)
    show "\<exists>rp i. serves s (gw_qp st) rp i \<and> evt = rp_event rp i \<and> \<not> answered ?t (rp_resp rp i)
        \<and> (gw_qp st \<in> claims (rp_co rp) \<longrightarrow> idle (heap_of ?t) (MatchCh (gw_qp st)))"
      using stream_checking [OF sys_facts(6) [OF inv st] e'] same by simp metis
  next
    fix evt
    assume e: "gw_at (g_stream g) = Awaiting evt"
    then have e': "gw_at st = Awaiting evt" using at by (auto simp: in_check_def)
    show "\<exists>rp i. serves s (gw_qp st) rp i \<and> evt = rp_event rp i \<and> (n, rp_resp rp i, True) \<in> set (sy_log ?t)"
      using stream_awaiting [OF sys_facts(6) [OF inv st] e'] by simp metis
  qed (use f same sent(2) in auto)
qed

text \<open>A verdict is read from a channel of the room that the stream serves.\<close>

lemma stream_heard_inv:
  assumes inv: "sys_inv grow s" and st: "sy_streams s n = Some st" and step: "gw_step [] (stream_view st s) g"
    and at: "gw_at st = Awaiting evt" "\<not> in_check (g_stream g)" and pool: "g_pool g = sy_pool s"
    and recv: "chan_recv (ResultCh evt) (sy_bools s) = (out, g_bools g)"
    and sent: "gw_sent (g_stream g) = gw_sent st @ news"
      "\<forall>resp \<in> set news. gr_Match resp = (if out = Value True then Some (assignment evt) else None)"
  shows "sys_inv grow (stream_next n g [] s)"
proof (rule stream_next_inv [OF inv st step])
  let ?t = "stream_next n g [] s"
  note b = base_facts [OF sys_facts(1) [OF inv]]
  note f = stream_facts [OF sys_facts(6) [OF inv st]]
  obtain rp i where sv: "serves s (gw_qp st) rp i" "evt = rp_event rp i"
    using stream_awaiting [OF sys_facts(6) [OF inv st] at(1)] by metis
  obtain k where k: "sy_rooms s k = Some rp" and r: "room_inv grow s rp" and i: "i < 10"
    using serves_room [OF inv sv(1)] by metis
  let ?c = "rm_results (rp_room rp) ! i"
  have c: "?c \<in> set (rm_results (rp_room rp))" by (rule player_slot(6) [OF r i])
  have recv': "chan_recv ?c (sy_bools s) = (out, g_bools g)" using recv sv(2) by simp
  have keep: "cells (g_bools g) d = cells (sy_bools s) d" if "d \<noteq> ?c" for d
    by (rule chan_recv_other [OF recv' that])
  show "ready_pool (g_pool g)" "queued (g_pool g) \<subseteq> queued (sy_pool s)" "one_slot (match_heap (g_pool g))"
    using b pool by simp_all
  show "chans_ok (g_bools g)" by (rule chan_recv_ok [OF b(2) recv])
  show "log_inv ?t" by (rule log_same [OF inv st step])
  show "events_inv ?t"
    unfolding events_inv_def
  proof (intro allI ballI impI)
    fix c ch e
    assume "e \<in> set (ch_buf ch)" "cells (heap_of ?t) c = Some ch"
    then have "event_ok s c e" using eventsD [OF sys_facts(2) [OF inv]] pool by simp
    then show "event_ok ?t c e" by (rule event_ok_next) (use at(2) in \<open>auto simp: in_check_def\<close>)
  qed
  show "room_inv grow ?t rp'" if k': "sy_rooms s k' = Some rp'" for k' rp'
  proof (cases "k' = k")
    case True
    then have eq: "rp' = rp" using k k' by simp
    have "reachable (check_init (rp_room rp)) (check_step grow) (room_view rp s)" using r by (simp add: room_inv_def)
    moreover have "env_step (room_view rp s) ((room_view rp s)\<lparr>ck_bools := g_bools g\<rparr>)"
      by (rule env_step.take_result [of i _ out]) (use recv' i room_shape [OF r] in \<open>simp_all add: room_view_def\<close>)
    moreover have "(room_view rp s)\<lparr>ck_bools := g_bools g\<rparr> = room_view rp ?t" using pool by (simp add: room_view_def)
    ultimately have "reachable (check_init (rp_room rp)) (check_step grow) (room_view rp ?t)" using view_env by metis
    then show ?thesis
      unfolding eq
      by (rule room_frame_view [OF r])
        (use r pool stream_next_members [OF st step] in \<open>simp_all add: room_inv_def slot_ok_def\<close>)
  next
    case False
    have "d \<noteq> ?c" if "d \<in> set (room_chans (rp_room rp'))" for d
      using same_room [OF inv k k', of d] False c that by auto
    then show ?thesis
      by (intro room_frame [OF sys_facts(4) [OF inv k'], of _ "[]"])
        (use keep pool sys_facts(4) [OF inv k'] stream_next_members [OF st step] in \<open>auto simp: room_inv_def\<close>)
  qed
  show "stream_inv ?t m x" if "m \<noteq> n" "sy_streams s m = Some x" for m x
    by (rule stream_frame [OF sys_facts(6) [OF inv that(2)]])
      (use b(8) pool in \<open>simp_all add: rooms_later_same\<close>)
  show "stream_inv ?t n (g_stream g)"
  proof (rule stream_moved [OF sys_facts(6) [OF inv st] step _ _ _ _ _ sent(1)])
    fix resp a
    assume "resp \<in> set news" "gr_Match resp = Some a"
    then have "out = Value True" "a = assignment evt" using sent(2) by (auto split: if_splits)
    moreover from this have "confirmed (rp_co rp)"
      using result_is_verdict [of "rp_room rp" "rp_co rp" "sy_bools s", OF _ c] recv' room_check [OF r]
      by (simp add: confirmed_def check_inv_def room_view_def)
    ultimately show "\<exists>rp i. serves s (gw_qp st) rp i \<and> a = assignment (rp_event rp i)
      \<and> (gr_Status resp = QUEUE_STATUS_IN_GAME \<longrightarrow> confirmed (rp_co rp))"
      using sv by blast
  qed (use f pool at(2) in \<open>auto simp: in_check_def\<close>)
qed

text \<open>A stream takes the event out of its channel.\<close>

lemma one_slot_recv: "one_slot H \<Longrightarrow> chan_recv c H = (out, H') \<Longrightarrow> one_slot H'"
  unfolding one_slot_def by (auto simp: chan_recv_def split: option.splits list.splits if_splits)

lemma recv_from_slot:
  assumes "one_slot H" "chans_ok H" "chan_recv c H = (Value v, H')"
  obtains ch where "cells H c = Some ch" "ch_buf ch = [v]" "cells H' c = Some (ch\<lparr>ch_buf := []\<rparr>)"
proof -
  obtain ch vs where ch: "cells H c = Some ch" "ch_buf ch = v # vs" "cells H' c = Some (ch\<lparr>ch_buf := vs\<rparr>)"
    using assms(3) by (auto simp: chan_recv_def split: option.splits list.splits if_splits)
  then have "ch_cap ch = 1" "length (ch_buf ch) \<le> ch_cap ch"
    using assms(1,2) unfolding one_slot_def chans_ok_def by blast+
  with ch show thesis by (intro that) auto
qed

lemma stream_took_inv:
  assumes inv: "sys_inv grow s" and st: "sy_streams s n = Some st" and step: "gw_step [] (stream_view st s) g"
    and bools: "g_bools g = sy_bools s"
    and recv: "chan_recv (MatchCh (gw_qp st)) (heap_of s) = (Value evt, H)"
    and pool: "g_pool g = (sy_pool s)\<lparr>match_heap := H\<rparr>"
    and at: "gw_at st = Selecting" "gw_at (g_stream g) = Checking evt \<or> \<not> in_check (g_stream g)"
    and sent: "gw_sent (g_stream g) = gw_sent st @ news"
      "\<forall>resp \<in> set news. gr_Match resp = Some (assignment evt) \<and> gr_Status resp = QUEUE_STATUS_READY_CHECK"
  shows "sys_inv grow (stream_next n g [] s)"
proof (rule stream_next_inv [OF inv st step])
  let ?t = "stream_next n g [] s" and ?c = "MatchCh (gw_qp st)"
  note b = base_facts [OF sys_facts(1) [OF inv]]
  note f = stream_facts [OF sys_facts(6) [OF inv st]]
  have heap: "heap_of ?t = H" and q: "queued (g_pool g) = queued (sy_pool s)" using pool by (simp_all add: queued_def)
  note keep = chan_recv_other [OF recv] and idle = idle_recv_any [OF _ recv]
  obtain ch0 where ch0: "cells (heap_of s) ?c = Some ch0" "ch_buf ch0 = [evt]" "cells H ?c = Some (ch0\<lparr>ch_buf := []\<rparr>)"
    by (rule recv_from_slot [OF b(9) pool_heap [OF b(8)] recv])
  have ok: "event_ok s ?c evt" by (rule eventsD [OF sys_facts(2) [OF inv] ch0(1)]) (simp add: ch0)
  then obtain rp i where sv: "serves s (rp_player rp i) rp i" and evt: "evt = rp_event rp i" "?c = MatchCh (rp_player rp i)"
    and mute: "\<not> answered s (rp_resp rp i)"
    unfolding event_ok_def by blast
  obtain k where k: "sy_rooms s k = Some rp" and r: "room_inv grow s rp" and i: "i < 10"
    using serves_room [OF inv sv] by metis
  have mine: "x = gw_qp st" if "x \<in> members s" "MatchCh x = ?c" for x
    by (rule inj_onD [OF members_inj [OF sys_facts(1) [OF inv]] that(2,1)]) (use st in \<open>auto simp: members_iff\<close>)
  have qp: "rp_player rp i = gw_qp st" using mine player_slot(1) [OF r i] evt(2) by simp
  have sv': "serves s (gw_qp st) rp i" using sv qp by simp
  show "ready_pool (g_pool g)" unfolding pool by (rule ready_recv [OF b(1) recv])
  show "queued (g_pool g) \<subseteq> queued (sy_pool s)" "chans_ok (g_bools g)" using q b bools by simp_all
  show "one_slot (match_heap (g_pool g))" using one_slot_recv [OF b(9) recv] pool by simp
  show "log_inv ?t" by (rule log_same [OF inv st step])
  show "events_inv ?t"
    unfolding events_inv_def heap
  proof (intro allI ballI impI)
    fix c ch e
    assume e: "e \<in> set (ch_buf ch)" "cells H c = Some ch"
    then have c: "c \<noteq> ?c" using ch0(3) by auto
    then have old: "event_ok s c e" using e keep eventsD [OF sys_facts(2) [OF inv]] by simp
    have "e \<noteq> evt"
    proof
      assume "e = evt"
      with old obtain rp' j where "serves s (rp_player rp' j) rp' j" "evt = rp_event rp' j" "c = MatchCh (rp_player rp' j)"
        unfolding event_ok_def by blast
      with same_slot [OF inv sv this(1)] evt c show False by (metis rp_event_simps(1))
    qed
    then show "event_ok ?t c e" using at(2) by (intro event_ok_next [OF old]) (auto simp: in_check_def)
  qed
  show "room_inv grow ?t rp'" if k': "sy_rooms s k' = Some rp'" for k' rp'
  proof (rule room_frame_view [OF sys_facts(4) [OF inv k']])
    note r' = sys_facts(4) [OF inv k']
    show "reachable (check_init (rp_room rp')) (check_step grow) (room_view rp' ?t)"
      by (rule view_frame [of _ _ _ s _ "[]"]) (use r' bools in \<open>simp_all add: room_inv_def\<close>)
    show "members s \<subseteq> members ?t" "claims (rp_co rp') \<inter> queued (sy_pool ?t) = {}"
      using r' q stream_next_members [OF st step] by (simp_all add: room_inv_def)
    fix j :: nat
    assume j: "j < 10" and sj: "slot_ok s rp' j"
    show "slot_ok ?t rp' j"
    proof (cases "MatchCh (rp_player rp' j) = ?c")
      case True
      have "idle H ?c" if "idle (heap_of s) ?c \<or> holds (heap_of s) ?c e" for e
        using that ch0 by (auto simp: idle_def holds_def)
      then show ?thesis using sj True unfolding slot_ok_def heap answered_quiet by metis
    next
      case False
      then show ?thesis using sj keep by (intro slot_frame [OF sj]) (simp_all add: pool)
    qed
  qed
  show "stream_inv ?t m x" if m: "m \<noteq> n" "sy_streams s m = Some x" for m x
  proof (rule stream_frame [OF sys_facts(6) [OF inv m(2)]])
    show "pool_inv (sy_pool ?t)" using pool_inv_recv [OF b(8) recv] pool by simp
    have "MatchCh (gw_qp x) \<noteq> ?c" using b(6) [OF m(2) st] m(1) by blast
    then show "cells (heap_of s) (MatchCh (gw_qp x)) \<noteq> None \<Longrightarrow> cells (heap_of ?t) (MatchCh (gw_qp x)) \<noteq> None"
      by (simp add: pool keep)
  qed (use idle in \<open>simp_all add: rooms_later_same pool\<close>)
  show "stream_inv ?t n (g_stream g)"
  proof (rule stream_moved [OF sys_facts(6) [OF inv st] step _ _ _ _ _ sent(1)])
    fix e
    assume "gw_at (g_stream g) = Checking e"
    then have "e = evt" using at(2) by (auto simp: in_check_def)
    have "gw_qp st \<in> claims (rp_co rp) \<longrightarrow> idle H ?c"
    proof
      assume "gw_qp st \<in> claims (rp_co rp)"
      moreover have "slot_ok s rp i" using r i by (simp add: room_inv_def)
      ultimately show "idle H ?c" using ch0 unfolding slot_ok_def qp by (auto simp: idle_def holds_def)
    qed
    then show "\<exists>rp i. serves s (gw_qp st) rp i \<and> e = rp_event rp i \<and> \<not> answered ?t (rp_resp rp i)
        \<and> (gw_qp st \<in> claims (rp_co rp) \<longrightarrow> idle (heap_of ?t) ?c)"
      unfolding \<open>e = evt\<close> using sv' evt(1) mute
      by (intro exI [of _ rp] exI [of _ i] conjI) (simp_all add: pool)
  next
    fix resp a
    assume "resp \<in> set news" "gr_Match resp = Some a"
    then show "\<exists>rp i. serves s (gw_qp st) rp i \<and> a = assignment (rp_event rp i)
      \<and> (gr_Status resp = QUEUE_STATUS_IN_GAME \<longrightarrow> confirmed (rp_co rp))"
      using sent(2) sv' evt(1) by (intro exI [of _ rp] exI [of _ i] conjI) (auto simp: queue_status_defs)
  qed (use ch0 at(2) in \<open>auto simp: in_check_def pool\<close>)
qed

text \<open>A stream takes a player with its id out of the pool.\<close>

lemma same_bufs:
  assumes "\<And>c. map_option (\<lambda>ch. (ch_cap ch, ch_buf ch)) (cells H' c) = map_option (\<lambda>ch. (ch_cap ch, ch_buf ch)) (cells H c)"
  shows "cells H' c = Some ch \<Longrightarrow> \<exists>ch0. cells H c = Some ch0 \<and> ch_cap ch = ch_cap ch0 \<and> ch_buf ch = ch_buf ch0"
    and "cells H' c = None \<longleftrightarrow> cells H c = None" and "one_slot H \<Longrightarrow> one_slot H'"
proof -
  show eq: "\<exists>ch0. cells H c = Some ch0 \<and> ch_cap ch = ch_cap ch0 \<and> ch_buf ch = ch_buf ch0" if "cells H' c = Some ch" for c ch
    using assms [of c] that by (cases "cells H c") auto
  show "cells H' c = None \<longleftrightarrow> cells H c = None" using assms [of c] by (cases "cells H c"; cases "cells H' c") simp_all
  show "one_slot H'" if one: "one_slot H"
    unfolding one_slot_def
  proof (intro allI impI)
    fix c ch
    assume "cells H' c = Some ch"
    from eq [OF this] show "ch_cap ch = 1" using one unfolding one_slot_def by auto
  qed
qed

lemma stream_left_inv:
  assumes inv: "sys_inv grow s" and st: "sy_streams s n = Some st" and step: "gw_step [] (stream_view st s) g"
    and bools: "g_bools g = sy_bools s" and pool: "g_pool g = fst (Dequeue pid (sy_pool s))"
    and at: "\<not> in_check (g_stream g)"
    and sent: "gw_sent (g_stream g) = gw_sent st @ news" "\<forall>resp \<in> set news. gr_Match resp = None"
  shows "sys_inv grow (stream_next n g [] s)"
proof (rule stream_next_inv [OF inv st step])
  let ?t = "stream_next n g [] s"
  note b = base_facts [OF sys_facts(1) [OF inv]]
  note f = stream_facts [OF sys_facts(6) [OF inv st]]
  note d = ready_Dequeue [OF b(1), where pid = pid, folded pool]
  note bufs = same_bufs [OF d(4)]
  have keep: "cells (match_heap (g_pool g)) (MatchCh q) = cells (heap_of s) (MatchCh q)"
    if "sy_rooms s k = Some rp" "q \<in> claims (rp_co rp)" for k rp q
  proof (rule d(3))
    note r = sys_facts(4) [OF inv that(1)]
    have q: "q \<in> members s" "q \<notin> queued (sy_pool s)" using claims_members [OF r] r that(2) by (auto simp: room_inv_def)
    show "MatchCh q \<notin> MatchCh ` queued (sy_pool s)"
      using q b(4) members_inj [OF sys_facts(1) [OF inv]] by (auto dest: inj_onD)
  qed
  show "ready_pool (g_pool g)" "queued (g_pool g) \<subseteq> queued (sy_pool s)" "one_slot (match_heap (g_pool g))"
    "chans_ok (g_bools g)"
    using d b bufs(3) bools by simp_all
  show "log_inv ?t" by (rule log_same [OF inv st step])
  show "events_inv ?t"
    unfolding events_inv_def
  proof (intro allI ballI impI)
    fix c ch e
    assume "e \<in> set (ch_buf ch)" "cells (heap_of ?t) c = Some ch"
    then have "event_ok s c e" using bufs(1) eventsD [OF sys_facts(2) [OF inv]] by fastforce
    then show "event_ok ?t c e" by (rule event_ok_next) (use at in \<open>auto simp: in_check_def\<close>)
  qed
  show "room_inv grow ?t rp" if "sy_rooms s k = Some rp" for k rp
    by (rule room_frame [OF sys_facts(4) [OF inv that], of _ "[]"])
      (use keep [OF that] bools d(2) sys_facts(4) [OF inv that] stream_next_members [OF st step]
        in \<open>auto simp: room_inv_def\<close>)
  show "stream_inv ?t m x" if m: "m \<noteq> n" "sy_streams s m = Some x" for m x
  proof (rule stream_frame [OF sys_facts(6) [OF inv m(2)]])
    show "pool_inv (sy_pool ?t)" using d(1) by (simp add: ready_pool_def)
    fix rp i
    assume "serves s (gw_qp x) rp i" "gw_qp x \<in> claims (rp_co rp)" "idle (heap_of s) (MatchCh (gw_qp x))"
    then show "idle (heap_of ?t) (MatchCh (gw_qp x))"
      using keep by (auto simp: serves_def ran_def idle_def)
  qed (use bufs(2) in \<open>simp_all add: rooms_later_same\<close>)
  show "stream_inv ?t n (g_stream g)"
    by (rule stream_moved [OF sys_facts(6) [OF inv st] step _ _ _ _ _ sent(1)])
      (use f bufs(2) at sent(2) in \<open>auto simp: in_check_def\<close>)
qed

text \<open>
  A stream answers. Nobody has answered on the response channel before, so it is empty and takes the
  response.
\<close>

lemma response_room:
  assumes r: "room_inv grow s rp" and i: "i < 10" and mute: "\<not> answered s (rp_resp rp i)"
  shows "idle (sy_bools s) (rp_resp rp i)"
proof -
  have n: "i < length (rm_players (rp_room rp))" using i room_shape [OF r] by simp
  obtain ch where ch: "cells (sy_bools s) (rp_resp rp i) = Some ch" "ch_cap ch = 1" "\<not> ch_closed ch"
    "\<forall>v \<in> set (ch_buf ch). (rp_resp rp i, v) \<in> set (map snd (sy_log s))"
    using room_check [OF r] n unfolding check_inv_def responses_ok_def by (auto simp: room_view_def)
  have "ch_buf ch = []"
  proof (rule ccontr)
    assume "ch_buf ch \<noteq> []"
    then have "(rp_resp rp i, hd (ch_buf ch)) \<in> snd ` set (sy_log s)" using ch(4) by simp
    then show False using mute unfolding answered_def by (metis fst_conv image_eqI)
  qed
  with ch show ?thesis by (simp add: idle_def)
qed

lemma stream_answered_inv:
  assumes inv: "sys_inv grow s" and st: "sy_streams s n = Some st" and step: "gw_step sent (stream_view st s) g"
    and pool: "g_pool g = sy_pool s" and at: "gw_at st = Checking evt"
    and send: "chan_try_send (ResponseCh evt) v (sy_bools s) = Ret (b, g_bools g)"
    and label: "sent = (if b then [(ResponseCh evt, v)] else [])"
    and at': "if v then gw_at (g_stream g) = Awaiting evt else \<not> in_check (g_stream g)"
    and news: "gw_sent (g_stream g) = gw_sent st @ news" "\<forall>resp \<in> set news. gr_Match resp = None"
  shows "b \<and> sys_inv grow (stream_next n g sent s)"
proof (rule conjI, goal_cases)
  note bs = base_facts [OF sys_facts(1) [OF inv]]
  note f = stream_facts [OF sys_facts(6) [OF inv st]]
  obtain rp i where sv: "serves s (gw_qp st) rp i" and evt: "evt = rp_event rp i" and mute: "\<not> answered s (rp_resp rp i)"
    and quiet: "gw_qp st \<in> claims (rp_co rp) \<Longrightarrow> idle (heap_of s) (MatchCh (gw_qp st))"
    using stream_checking [OF sys_facts(6) [OF inv st] at] by metis
  obtain k where k: "sy_rooms s k = Some rp" and r: "room_inv grow s rp" and i: "i < 10" and qp: "gw_qp st = rp_player rp i"
    using serves_room [OF inv sv] by metis
  have e: "ResponseCh evt = rp_resp rp i" using evt by simp
  obtain B where "chan_try_send (rp_resp rp i) v (sy_bools s) = Ret (True, B)"
    using try_send_idle [OF response_room [OF r i mute]] by metis
  then have b: "b" and send': "chan_try_send (rp_resp rp i) v (sy_bools s) = Ret (True, g_bools g)"
    using send e by simp_all
  case 1
  show ?case by (rule b)
  case 2
  have sent: "sent = [(rp_resp rp i, v)]" using label b e by simp
  let ?t = "stream_next n g sent s"
  note keep = chan_try_send_other [OF send']
  have only: "rp' = rp \<and> j = i" if "sy_rooms s k' = Some rp'" "j < 10" "rp_resp rp' j = rp_resp rp i" for k' rp' j
    using same_room [OF inv k that(1) player_slot(4) [OF r i]] player_slot(4) [OF sys_facts(4) [OF inv that(1)] that(2)]
      player_slot(5) [OF r i that(2)] that(3) by simp
  have ans: "answered ?t c \<longleftrightarrow> answered s c \<or> c = rp_resp rp i" for c by (simp add: answered_next sent)
  show ?case
  proof (rule stream_next_inv [OF inv st step])
    show "ready_pool (g_pool g)" "queued (g_pool g) \<subseteq> queued (sy_pool s)" "one_slot (match_heap (g_pool g))"
      using bs pool by simp_all
    show "chans_ok (g_bools g)" by (rule chan_try_send_ok [OF bs(2) send'])
    show "log_inv ?t"
      by (rule log_next [OF inv st step]) (use sent mute sv in blast)
    show "events_inv ?t"
      unfolding events_inv_def
    proof (intro allI ballI impI)
      fix c ch x
      assume "x \<in> set (ch_buf ch)" "cells (heap_of ?t) c = Some ch"
      then have ok: "event_ok s c x" using eventsD [OF sys_facts(2) [OF inv]] pool by simp
      then obtain rp' j where x: "serves s (rp_player rp' j) rp' j" "x = rp_event rp' j" unfolding event_ok_def by blast
      have "x \<noteq> evt" using ok at st unfolding event_ok_def by (metis ranI)
      then have "rp_resp rp' j \<noteq> rp_resp rp i"
        using same_slot [OF inv x(1) sv] x(2) evt by blast
      moreover have "gw_at (g_stream g) \<noteq> Checking x" using at' by (auto simp: in_check_def split: if_splits)
      ultimately show "event_ok ?t c x" using x(2) by (intro event_ok_next [OF ok]) (auto simp: sent)
    qed
    show "room_inv grow ?t rp'" if k': "sy_rooms s k' = Some rp'" for k' rp'
    proof (cases "k' = k")
      case True
      then have eq: "rp' = rp" using k k' by simp
      have co: "co_room (ck_co (room_view rp s)) = rp_room rp" by (simp add: room_view_def)
      have "env_step (room_view rp s) ((room_view rp s)\<lparr>ck_bools := g_bools g,
          ck_sent := ck_sent (room_view rp s) @ [(rm_responses (co_room (ck_co (room_view rp s))) ! i, v)]\<rparr>)"
        by (rule env_step.respond) (use send' i room_shape [OF r] in \<open>simp_all add: room_view_def\<close>)
      moreover have "(room_view rp s)\<lparr>ck_bools := g_bools g,
          ck_sent := ck_sent (room_view rp s) @ [(rm_responses (co_room (ck_co (room_view rp s))) ! i, v)]\<rparr> = room_view rp ?t"
        using pool by (simp add: room_view_def sent)
      moreover have "reachable (check_init (rp_room rp)) (check_step grow) (room_view rp s)" using r by (simp add: room_inv_def)
      ultimately have "reachable (check_init (rp_room rp)) (check_step grow) (room_view rp ?t)" using view_env by metis
      moreover have "slot_ok ?t rp j" if j: "j < 10" "slot_ok s rp j" for j
      proof (cases "j = i")
        case True
        then show ?thesis using sv quiet qp pool unfolding slot_ok_def by (auto simp: serves_def)
      next
        case False
        then have "rp_resp rp j \<noteq> rp_resp rp i" using player_slot(5) [OF r i j(1)] by simp
        then show ?thesis using pool by (intro slot_frame [OF j(2)]) (simp_all add: ans)
      qed
      ultimately show ?thesis
        unfolding eq using r pool stream_next_members [OF st step]
        by (intro room_frame_view [OF r]) (simp_all add: room_inv_def)
    next
      case False
      have "d \<noteq> rp_resp rp i" if "d \<in> set (room_chans (rp_room rp'))" for d
        using same_room [OF inv k k' player_slot(4) [OF r i]] False that by auto
      then show ?thesis
        by (intro room_frame [OF sys_facts(4) [OF inv k'], of _ "map (Pair n) sent"])
          (use keep pool sys_facts(4) [OF inv k'] stream_next_members [OF st step] in \<open>auto simp: room_inv_def sent\<close>)
    qed
    show "stream_inv ?t m x" if m: "m \<noteq> n" "sy_streams s m = Some x" for m x
    proof (rule stream_frame [OF sys_facts(6) [OF inv m(2)]])
      show "\<not> answered ?t (ResponseCh y)" if y: "gw_at x = Checking y" "\<not> answered s (ResponseCh y)" for y
      proof -
        obtain rp' j where y': "serves s (gw_qp x) rp' j" "y = rp_event rp' j"
          using stream_checking [OF sys_facts(6) [OF inv m(2)] y(1)] by metis
        have "y \<noteq> evt" using same_stream [OF inv m(2) st y(1)] at m(1) by blast
        then have "rp_resp rp' j \<noteq> rp_resp rp i" using same_slot [OF inv y'(1) sv] y'(2) evt by blast
        then show ?thesis using y(2) y'(2) by (simp add: ans)
      qed
    qed (use bs(8) pool in \<open>auto simp: rooms_later_same\<close>)
    show "stream_inv ?t n (g_stream g)"
    proof (rule stream_moved [OF sys_facts(6) [OF inv st] step _ _ _ _ _ news(1)])
      fix x
      assume "gw_at (g_stream g) = Awaiting x"
      then have "v" "x = evt" using at' by (auto simp: in_check_def split: if_splits)
      then show "\<exists>rp i. serves s (gw_qp st) rp i \<and> x = rp_event rp i \<and> (n, rp_resp rp i, True) \<in> set (sy_log ?t)"
        using sv evt by (intro exI [of _ rp] exI [of _ i] conjI) (simp_all add: sent)
    qed (use f pool at' news(2) in \<open>auto simp: in_check_def split: if_splits\<close>)
  qed
qed

lemma stream_step_inv:
  assumes inv: "sys_inv grow s" and st: "sy_streams s n = Some st" and step: "gw_step sent (stream_view st s) g"
  shows "sys_inv grow (stream_next n g sent s)"
proof -
  have v: "g_stream (stream_view st s) = st" "g_pool (stream_view st s) = sy_pool s" "g_bools (stream_view st s) = sy_bools s"
    by (simp_all add: stream_view_def)
  from step show ?thesis
  proof (cases rule: gw_step_effect)
    case (quiet news)
    then show ?thesis using stream_quiet_inv [OF inv st] step unfolding v by simp
  next
    case (took evt H news)
    then show ?thesis using stream_took_inv [OF inv st] step unfolding v by simp
  next
    case (left news)
    then show ?thesis using stream_left_inv [OF inv st] step unfolding v by simp
  next
    case (answered evt w b news)
    then show ?thesis using stream_answered_inv [OF inv st step] unfolding v by blast
  next
    case (heard evt out news)
    then show ?thesis using stream_heard_inv [OF inv st] step unfolding v by simp
  qed
qed

end
