(* ===== verification/Nexus_System_Rooms.thy ===== *)
theory Nexus_System_Rooms
  imports Nexus_System_Streams
begin

text \<open>
  The invariant of the whole server under the steps of its rooms (notifying, launching, the coordinator
  and its timer), under joins, extractions and submissions; hence it holds in every reachable state.
\<close>

section \<open>What a coordinator does to the rest\<close>

lemma distinct_accepters: "distinct (rm_players (co_room co)) \<Longrightarrow> distinct (accepters co)"
proof -
  assume "distinct (rm_players (co_room co))"
  then have "distinct (map fst (zip (rm_players (co_room co)) (co_accepted co)))"
    by (simp add: map_fst_zip_take)
  then show ?thesis unfolding accepters_def by (rule distinct_map_filter)
qed

lemma accepters_players: "set (accepters co) \<subseteq> set (rm_players (co_room co))"
  by (auto simp: accepters_def dest: set_zip_leftD)

lemma accepters_cong: "co_room co' = co_room co \<Longrightarrow> co_accepted co' = co_accepted co \<Longrightarrow> accepters co' = accepters co"
  by (simp add: accepters_def)

lemma gather_cases:
  assumes "gather co = Some co'"
  obtains (on) "co_at co = Gathering" "co_at co' = Gathering" "co_room co' = co_room co"
  | (failed) "co_at co = Gathering" "\<not> co_allAccepted co'" "co_at co' = Publishing (rm_results (co_room co))"
      "co_room co' = co_room co"
  using assms by (auto simp: gather_def fail_room_def Let_def split: if_splits list.splits)

lemma co_step_room: "co_step grow v w \<Longrightarrow> co_room (ck_co w) = co_room (ck_co v) \<and> ck_sent w = ck_sent v"
  by (erule co_stepE)
    (auto simp: co_defs split: if_splits list.splits prod.splits received.splits co_pc.splits option.splits outcome.splits)

lemma co_step_claims:
  assumes step: "co_step grow v w" and dist: "distinct (rm_players (co_room (ck_co v)))"
    and re: "\<forall>qs. co_at (ck_co v) = Requeueing qs \<longrightarrow> distinct qs \<and> set qs \<subseteq> set (accepters (ck_co v))"
  shows "claims (ck_co w) \<subseteq> claims (ck_co v)"
    "\<forall>qs. co_at (ck_co w) = Requeueing qs \<longrightarrow> distinct qs \<and> set qs \<subseteq> set (accepters (ck_co w))"
    "confirmed (ck_co v) \<longrightarrow> confirmed (ck_co w)"
proof -
  note room = co_step_room [OF step]
  have same: "claims co' = claims co \<and> confirmed co' = confirmed co"
    if "co_at co' = co_at co" "co_room co' = co_room co" "co_accepted co' = co_accepted co" "co_allAccepted co' = co_allAccepted co"
    for co co'
    using that accepters_cong [OF that(2,3)] by (simp add: claims_def confirmed_def split: co_pc.split)
  have "claims (ck_co w) \<subseteq> claims (ck_co v)
    \<and> (\<forall>qs. co_at (ck_co w) = Requeueing qs \<longrightarrow> distinct qs \<and> set qs \<subseteq> set (accepters (ck_co w)))
    \<and> (confirmed (ck_co v) \<longrightarrow> confirmed (ck_co w))"
    using step
  proof (cases rule: co_step.cases)
    case (fan_in i co B)
    then have "co_at co = co_at (ck_co v)" "co_room co = co_room (ck_co v)" "co_accepted co = co_accepted (ck_co v)"
      "co_allAccepted co = co_allAccepted (ck_co v)"
      by (auto simp: fan_in_recv_def split: if_splits prod.splits received.splits)
    with same [OF this] accepters_cong [OF this(2,3)] re fan_in show ?thesis by simp
  next
    case (fan_in_end i co)
    then have "co_at co = co_at (ck_co v)" "co_room co = co_room (ck_co v)" "co_accepted co = co_accepted (ck_co v)"
      "co_allAccepted co = co_allAccepted (ck_co v)"
      by (auto simp: fan_in_done_def split: if_splits)
    with same [OF this] accepters_cong [OF this(2,3)] re fan_in_end show ?thesis by simp
  next
    case (gathered co)
    from gathered(2) show ?thesis
      by (cases rule: gather_cases)
        (use gathered(1) accepters_players [of co] in \<open>auto simp: claims_def confirmed_def\<close>)
  next
    case (timed_out co)
    then show ?thesis
      using accepters_players [of co] by (auto simp: gather_timeout_def fail_room_def claims_def confirmed_def split: if_splits)
  next
    case (confirmed now co ss)
    then show ?thesis
      using accepters_players [of co] by (auto simp: confirm_def claims_def confirmed_def split: if_splits)
  next
    case (published co B)
    then have "co_room co = co_room (ck_co v)" "co_accepted co = co_accepted (ck_co v)"
      by (auto simp: publish_def split: co_pc.splits list.splits option.splits outcome.splits)
    then have acc: "accepters co = accepters (ck_co v)" by (rule accepters_cong)
    obtain cs where at: "co_at (ck_co v) = Publishing cs" using publish_at published(2) by blast
    then have "co_allAccepted co = co_allAccepted (ck_co v)
        \<and> co_at co = (case cs of c # cs' \<Rightarrow> Publishing cs'
             | [] \<Rightarrow> if co_allAccepted co then Finished else Requeueing (accepters (ck_co v)))"
      using published(2) by (auto simp: publish_def split: list.splits option.splits outcome.splits)
    then show ?thesis
      using acc at published(1) distinct_accepters [OF dist]
      by (cases cs) (auto simp: claims_def confirmed_def)
  next
    case (requeued co p)
    then have "accepters co = accepters (ck_co v)"
      by (intro accepters_cong) (auto simp: requeue_def split: co_pc.splits list.splits)
    then show ?thesis
      using requeued re by (auto simp: requeue_def claims_def confirmed_def split: co_pc.splits list.splits)
  qed
  then show "claims (ck_co w) \<subseteq> claims (ck_co v)"
    "\<forall>qs. co_at (ck_co w) = Requeueing qs \<longrightarrow> distinct qs \<and> set qs \<subseteq> set (accepters (ck_co w))"
    "confirmed (ck_co v) \<longrightarrow> confirmed (ck_co w)" by blast+
qed

lemma co_step_effect:
  assumes "co_step grow v w" "check_inv r v"
  obtains (inner) "ck_pool w = ck_pool v" "ck_sessions w = ck_sessions v"
      "\<And>c. c \<notin> set (room_chans r) \<Longrightarrow> cells (ck_bools w) c = cells (ck_bools v) c"
      "chans_ok (ck_bools v) \<Longrightarrow> chans_ok (ck_bools w)"
  | (creates) now where "ck_pool w = ck_pool v" "ck_bools w = ck_bools v"
      "ck_sessions w = CreateSession now (rm_session r) (map PlayerID (rm_players r)) (ck_sessions v)"
  | (requeues) q qs where "ck_sessions w = ck_sessions v" "ck_bools w = ck_bools v"
      "co_at (ck_co v) = Requeueing (q # qs)" "co_at (ck_co w) = Requeueing qs"
      "ck_pool w = fst (ReEnqueue grow q (ck_pool v))"
proof -
  have ok: "room_ok r (ck_co v)" "index_ok (ck_co v)" "results_ok r (ck_co v) (ck_bools v)"
    using assms(2) by (simp_all add: check_inv_def)
  have r: "co_room (ck_co v) = r" using ok(1) by (simp add: room_ok_def)
  from assms(1) show thesis
  proof (cases rule: co_step.cases)
    case (fan_in i co B)
    then have i: "i < length (rm_players r)" using ok(2) r by (auto simp: fan_in_recv_def index_ok_def split: if_splits)
    obtain out where recv: "chan_recv (rm_responses r ! i) (ck_bools v) = (out, B)"
      using fan_in r by (auto simp: fan_in_recv_def split: if_splits prod.splits received.splits)
    have mem: "rm_responses r ! i \<in> set (room_chans r)" using room_chans_apart(2) [OF ok(1) i] by simp
    show thesis
    proof (rule inner)
      show "cells (ck_bools w) c = cells (ck_bools v) c" if "c \<notin> set (room_chans r)" for c
      proof -
        have "c \<noteq> rm_responses r ! i" using that mem by metis
        then show ?thesis using chan_recv_other [OF recv] fan_in(1) by simp
      qed
      show "chans_ok (ck_bools w)" if "chans_ok (ck_bools v)" using chan_recv_ok [OF that recv] fan_in by simp
    qed (use fan_in in simp_all)
  next
    case (published co B)
    obtain cs where at: "co_at (ck_co v) = Publishing cs" using publish_at published(2) by blast
    show thesis
    proof (rule inner)
      show "cells (ck_bools w) c = cells (ck_bools v) c" if "c \<notin> set (room_chans r)" for c
        using publish_runs [OF ok(1,3) at] published that by auto
      show "chans_ok (ck_bools w)" if "chans_ok (ck_bools v)"
        using published that at
        by (auto simp: publish_def chan_send_def split: list.splits option.splits outcome.splits prod.splits if_splits
            dest!: chan_close_ok [rotated] chan_try_send_ok [rotated])
    qed (use published in simp_all)
  next
    case (confirmed now co ss)
    then show thesis using r by (intro creates [of now]) (auto simp: confirm_def split: if_splits)
  next
    case (requeued co p)
    show thesis
    proof (cases "co_at (ck_co v)")
      case (Requeueing qs)
      show thesis
      proof (cases qs)
        case Nil
        with requeued Requeueing show thesis by (intro inner) (auto simp: requeue_def)
      next
        case (Cons q qs')
        with requeued Requeueing show thesis by (intro requeues [of q qs']) (auto simp: requeue_def)
      qed
    qed (use requeued in \<open>auto simp: requeue_def\<close>)
  qed (auto intro: inner)
qed

section \<open>Steps of a room\<close>

lemma fresh_later: "rooms_later s t \<Longrightarrow> \<not> fresh_id sid s \<Longrightarrow> \<not> fresh_id sid t"
  unfolding fresh_id_def rooms_later_def later_def by metis

lemma log_later:
  assumes "log_inv s" "sy_log t = sy_log s" "sy_streams t = sy_streams s" "rooms_later s t"
  shows "log_inv t"
proof -
  have "\<exists>st rp i. sy_streams t n = Some st \<and> serves t (gw_qp st) rp i \<and> c = rp_resp rp i"
    if l: "(n, c, v) \<in> set (sy_log s)" for n c v
  proof -
    obtain st rp i where st: "sy_streams s n = Some st" and sv: "serves s (gw_qp st) rp i" and c: "c = rp_resp rp i"
      by (rule log_entry [OF assms(1) l])
    obtain rp' where "serves t (gw_qp st) rp' i" "later rp rp'" by (rule serves_later [OF sv assms(4)])
    moreover from this have "c = rp_resp rp' i" using c by (simp add: later_def)
    ultimately show ?thesis using st assms(3) by auto
  qed
  then show ?thesis using assms(1,2) by (auto simp: log_inv_def)
qed

lemma event_ok_later:
  assumes "event_ok s c evt" "sy_log t = sy_log s" "sy_streams t = sy_streams s" "rooms_later s t"
  shows "event_ok t c evt"
proof -
  obtain rp i where sv: "serves s (rp_player rp i) rp i" and e: "evt = rp_event rp i" "c = MatchCh (rp_player rp i)"
    "\<not> answered s (rp_resp rp i)" using assms(1) unfolding event_ok_def by blast
  obtain rp' where rp': "serves t (rp_player rp i) rp' i" "later rp rp'" by (rule serves_later [OF sv assms(4)])
  have "rp_player rp' i = rp_player rp i" "rp_event rp' i = rp_event rp i" "rp_resp rp' i = rp_resp rp i"
    using later_same [OF rp'(2)] rp'(2) by (auto simp: later_def)
  then show ?thesis
    using rp'(1) e assms(1-3) unfolding event_ok_def answered_def by metis
qed

lemma room_next_inv:
  assumes inv: "sys_inv grow s" and k: "sy_rooms s k = Some rp" and lt: "later rp rp'"
    and t: "sy_rooms t = (sy_rooms s)(k \<mapsto> rp')" "sy_streams t = sy_streams s" "sy_log t = sy_log s" "sy_missed t = []"
    and pool: "ready_pool (sy_pool t)" "queued (sy_pool t) \<subseteq> members s" "one_slot (heap_of t)"
    and shared: "chans_ok (sy_bools t)" "store_inv (sy_sessions t)"
      "\<And>sid. GetSession sid (sy_sessions t) \<noteq> None \<Longrightarrow> \<not> fresh_id sid s"
    and ev: "events_inv t" and self: "room_inv grow t rp'"
    and others: "\<And>k' x. sy_rooms s k' = Some x \<Longrightarrow> k' \<noteq> k \<Longrightarrow> room_inv grow t x"
    and cell: "\<And>c. cells (heap_of s) c \<noteq> None \<Longrightarrow> cells (heap_of t) c \<noteq> None"
    and idle: "\<And>q x i. serves s q x i \<Longrightarrow> q \<in> claims (rp_co x) \<Longrightarrow> idle (heap_of s) (MatchCh q) \<Longrightarrow> idle (heap_of t) (MatchCh q)"
  shows "sys_inv grow t"
proof -
  note b = base_facts [OF sys_facts(1) [OF inv]]
  have rl: "rooms_later s t" by (rule rooms_later_upd [OF t(1)]) (use k lt in blast)
  have j: "members t = members s" by (simp add: members_def t(2))
  have "base_inv t"
    unfolding base_inv_def j
    using pool shared t(4) b(6) fresh_later [OF rl] unfolding t(2) by blast
  moreover have "log_inv t" by (rule log_later [OF sys_facts(3) [OF inv] t(3,2) rl])
  moreover have "room_inv grow t x" if "sy_rooms t k' = Some x" for k' x
    using that self others by (cases "k' = k") (auto simp: t(1))
  moreover have "apart x y" if "sy_rooms t k1 = Some x" "sy_rooms t k2 = Some y" "k1 \<noteq> k2" for k1 k2 x y
  proof -
    have a: "apart rp' z" "apart z rp'" if "sy_rooms s l = Some z" "l \<noteq> k" for l z
      using sys_facts(5) [OF inv k that(1)] sys_facts(5) [OF inv that(1) k] that(2) lt unfolding apart_def later_def by auto
    show ?thesis
      using that a sys_facts(5) [OF inv, of k1 x k2 y] by (cases "k1 = k"; cases "k2 = k") (auto simp: t(1))
  qed
  moreover have "stream_inv t n st" if "sy_streams t n = Some st" for n st
  proof (rule stream_frame)
    show "stream_inv s n st" using sys_facts(6) [OF inv] that t(2) by simp
    show "pool_inv (sy_pool t)" using pool(1) by (simp add: ready_pool_def)
  qed (use rl cell idle t(3) in \<open>auto simp: answered_def\<close>)
  ultimately show ?thesis using ev unfolding sys_inv_def by blast
qed

lemma events_later:
  assumes "events_inv s" "heap_of t = heap_of s" "sy_log t = sy_log s" "sy_streams t = sy_streams s" "rooms_later s t"
  shows "events_inv t"
  unfolding events_inv_def
proof (intro allI ballI impI)
  fix c ch e
  assume "e \<in> set (ch_buf ch)" "cells (heap_of t) c = Some ch"
  then have "event_ok s c e" using eventsD [OF assms(1)] assms(2) by simp
  then show "event_ok t c e" by (rule event_ok_later [OF _ assms(3-5)])
qed

lemma room_view_reachable: "room_inv grow s rp \<Longrightarrow> reachable (check_init (rp_room rp)) (check_step grow) (room_view rp s)"
  by (simp add: room_inv_def)

lemma room_proc: "room_inv grow s rp \<Longrightarrow> proc_ok rp"
  by (simp add: room_inv_def)

lemma proc_requeueing:
  "proc_ok rp \<Longrightarrow> \<forall>qs. co_at (rp_co rp) = Requeueing qs \<longrightarrow> distinct qs \<and> set qs \<subseteq> set (accepters (rp_co rp))"
  unfolding proc_ok_def by blast

text \<open>The launch and the timer.\<close>

lemma room_quiet_inv:
  assumes inv: "sys_inv grow s" and k: "sy_rooms s k = Some rp" and lt: "later rp rp'"
    and proc: "proc_ok rp'" "rp_told rp' = rp_told rp"
    and view: "rp_co rp' = rp_co rp \<or> rp_co rp' = deadline (rp_co rp)"
  shows "sys_inv grow (s\<lparr>sy_rooms := (sy_rooms s)(k \<mapsto> rp'), sy_created := n\<rparr>)" (is "sys_inv grow ?t")
proof (rule room_next_inv [OF inv k lt])
  note b = base_facts [OF sys_facts(1) [OF inv]] and r = sys_facts(4) [OF inv k]
  have rl: "rooms_later s ?t" by (rule rooms_later_upd [of _ _ k rp']) (use k lt in auto)
  show "events_inv ?t" by (rule events_later [OF sys_facts(2) [OF inv] _ _ _ rl]) simp_all
  show "room_inv grow ?t rp'"
    unfolding room_inv_def
  proof (intro conjI allI impI)
    have room: "rp_room rp' = rp_room rp" using lt by (simp add: later_def)
    show "reachable (check_init (rp_room rp')) (check_step grow) (room_view rp' ?t)"
      unfolding room using view
    proof (elim disjE)
      assume "rp_co rp' = rp_co rp"
      then have "room_view rp' ?t = room_view rp s" by (simp add: room_view_def)
      then show "reachable (check_init (rp_room rp)) (check_step grow) (room_view rp' ?t)"
        using room_view_reachable [OF r] by simp
    next
      assume "rp_co rp' = deadline (rp_co rp)"
      then have "room_view rp' ?t = (room_view rp s)\<lparr>ck_co := deadline (ck_co (room_view rp s))\<rparr>"
        by (simp add: room_view_def)
      then show "reachable (check_init (rp_room rp)) (check_step grow) (room_view rp' ?t)"
        using view_env [OF room_view_reachable [OF r] env_step.expire] by simp
    qed
    show "set (rm_players (rp_room rp')) \<subseteq> members ?t" "claims (rp_co rp') \<inter> queued (sy_pool ?t) = {}"
      using r lt room by (auto simp: room_inv_def members_def later_def)
    show "slot_ok ?t rp' i" if "i < 10" for i
      by (rule slot_later [of s rp i, OF _ lt]) (use r that proc in \<open>simp_all add: room_inv_def\<close>)
  qed (rule proc)
  show "room_inv grow ?t x" if "sy_rooms s k' = Some x" "k' \<noteq> k" for k' x
    by (rule room_frame [OF sys_facts(4) [OF inv that(1)], of _ "[]"])
      (use sys_facts(4) [OF inv that(1)] in \<open>simp_all add: room_inv_def members_def\<close>)
qed (use base_facts [OF sys_facts(1) [OF inv]] in simp_all)

lemma launches_inv:
  assumes inv: "sys_inv grow s" and k: "sy_rooms s k = Some rp" and l: "launch_next rp = Some rp'"
  shows "sys_inv grow (s\<lparr>sy_rooms := (sy_rooms s)(k \<mapsto> rp'), sy_created := sy_created s + 1\<rparr>)"
proof -
  have "rp' = rp\<lparr>rp_launched := True\<rparr>" "rp_told rp = length (rm_players (rp_room rp))"
    using l by (auto simp: launch_next_def split: if_splits)
  then show ?thesis
    using room_proc [OF sys_facts(4) [OF inv k]]
    by (intro room_quiet_inv [OF inv k]) (auto simp: later_def proc_ok_def)
qed

lemma expires_inv:
  assumes inv: "sys_inv grow s" and k: "sy_rooms s k = Some rp" and l: "rp_launched rp"
  shows "sys_inv grow (s\<lparr>sy_rooms := (sy_rooms s)(k \<mapsto> rp\<lparr>rp_co := deadline (rp_co rp)\<rparr>)\<rparr>)"
proof -
  have "claims (deadline (rp_co rp)) = claims (rp_co rp)" "confirmed (deadline (rp_co rp)) = confirmed (rp_co rp)"
    "accepters (deadline (rp_co rp)) = accepters (rp_co rp)"
    by (simp_all add: deadline_def claims_def confirmed_def accepters_def split: co_pc.split)
  moreover have "co_room (deadline (rp_co rp)) = rp_room rp" "co_at (deadline (rp_co rp)) = co_at (rp_co rp)"
    by (simp_all add: deadline_def)
  ultimately have "sys_inv grow (s\<lparr>sy_rooms := (sy_rooms s)(k \<mapsto> rp\<lparr>rp_co := deadline (rp_co rp)\<rparr>), sy_created := sy_created s\<rparr>)"
    using room_proc [OF sys_facts(4) [OF inv k]] l
    by (intro room_quiet_inv [OF inv k]) (simp_all add: later_def proc_ok_def)
  then show ?thesis by simp
qed

text \<open>
  The coordinator's own steps. A player it puts back has answered, so its channel is empty, and is
  nobody else's.
\<close>

lemma requeued_idle:
  assumes inv: "sys_inv grow s" and k: "sy_rooms s k = Some rp"
    and at: "co_at (rp_co rp) = Requeueing (q # qs)"
  shows "idle (heap_of s) (MatchCh q)" "q \<in> members s" "q \<notin> queued (sy_pool s)" "q \<in> claims (rp_co rp)"
proof -
  note r = sys_facts(4) [OF inv k]
  show c: "q \<in> claims (rp_co rp)" using at by (simp add: claims_def)
  then show "q \<in> members s" "q \<notin> queued (sy_pool s)" using claims_members [OF r] r by (auto simp: room_inv_def)
  have "q \<in> set (accepters (rp_co rp))" using proc_requeueing [OF room_proc [OF r]] at by fastforce
  then obtain i where i: "i < length (rm_players (rp_room rp))" "q = rp_player rp i" "co_accepted (rp_co rp) ! i"
    by (auto simp: accepters_def set_zip rp_player_def)
  have "(rp_resp rp i, True) \<in> set (map snd (sy_log s))"
    using room_check [OF r] i unfolding check_inv_def responses_ok_def by (simp add: room_view_def)
  then have "answered s (rp_resp rp i)" unfolding answered_def by force
  moreover have "slot_ok s rp i" using r i(1) room_shape(2) [OF r] by (simp add: room_inv_def)
  ultimately show "idle (heap_of s) (MatchCh q)" using c i(2) unfolding slot_ok_def by blast
qed

lemma coordinates_inv:
  assumes inv: "sys_inv grow s" and k: "sy_rooms s k = Some rp" and l: "rp_launched rp"
    and step: "co_step grow (room_view rp s) c"
  shows "sys_inv grow (s\<lparr>sy_pool := ck_pool c, sy_sessions := ck_sessions c, sy_bools := ck_bools c,
           sy_rooms := (sy_rooms s)(k \<mapsto> rp\<lparr>rp_co := ck_co c\<rparr>)\<rparr>)" (is "sys_inv grow ?t")
proof -
  note b = base_facts [OF sys_facts(1) [OF inv]] and r = sys_facts(4) [OF inv k]
  let ?r = "rp_room rp"
  have v: "ck_co (room_view rp s) = rp_co rp" "ck_pool (room_view rp s) = sy_pool s"
    "ck_sessions (room_view rp s) = sy_sessions s" "ck_bools (room_view rp s) = sy_bools s"
    by (simp_all add: room_view_def)
  have room: "co_room (ck_co c) = ?r" "ck_sent c = map snd (sy_log s)"
    using co_step_room [OF step] by (simp_all add: room_view_def)
  note cl = co_step_claims [OF step, unfolded v, OF room_shape(5) [OF r] proc_requeueing [OF room_proc [OF r]]]
  have lt: "later rp (rp\<lparr>rp_co := ck_co c\<rparr>)" using room cl by (simp add: later_def)
  have rl: "rooms_later s ?t" by (rule rooms_later_upd [of _ _ k "rp\<lparr>rp_co := ck_co c\<rparr>"]) (use k lt in auto)
  have "c = room_view (rp\<lparr>rp_co := ck_co c\<rparr>) ?t" using room by (simp add: room_view_def)
  moreover have "reachable (check_init ?r) (check_step grow) c"
    by (rule reachable.move [OF room_view_reachable [OF r]]) (simp add: check_step_def step)
  ultimately have view: "reachable (check_init ?r) (check_step grow) (room_view (rp\<lparr>rp_co := ck_co c\<rparr>) ?t)" by simp
  have proc: "proc_ok (rp\<lparr>rp_co := ck_co c\<rparr>)"
    using room_proc [OF r] room l cl(2) by (simp add: proc_ok_def)
  note away = b(7)
  have effect: "ready_pool (ck_pool c) \<and> match_heap (ck_pool c) = heap_of s
      \<and> queued (ck_pool c) \<subseteq> queued (sy_pool s) \<union> (claims (rp_co rp) - claims (ck_co c))
    \<and> chans_ok (ck_bools c) \<and> (\<forall>d. d \<notin> set (room_chans ?r) \<longrightarrow> cells (ck_bools c) d = cells (sy_bools s) d)
    \<and> (ck_sessions c = sy_sessions s
        \<or> (\<exists>now. ck_sessions c = CreateSession now (rm_session ?r) (map PlayerID (rm_players ?r)) (sy_sessions s)))"
    using step room_check [OF r]
  proof (cases rule: co_step_effect)
    case inner
    then show ?thesis using b(1,2) unfolding v by simp
  next
    case (creates now)
    then show ?thesis using b(1,2) unfolding v by auto
  next
    case (requeues q qs)
    note q = requeued_idle [OF inv k requeues(3) [unfolded v]]
    have "distinct (q # qs)" using proc_requeueing [OF room_proc [OF r]] requeues(3) unfolding v by blast
    then have "q \<in> claims (rp_co rp) - claims (ck_co c)" using q(4) requeues(4) by (simp add: claims_def)
    moreover have "MatchCh q \<in> MatchCh ` queued (sy_pool s) \<Longrightarrow> q \<in> queued (sy_pool s)"
      using q(2) b(4) members_inj [OF sys_facts(1) [OF inv]] by (auto dest: inj_onD)
    ultimately show ?thesis
      using ready_ReEnqueue [OF b(1) q(1), of grow] requeues b(2) unfolding v by auto
  qed
  have sess: "store_inv (ck_sessions c)" using effect b(3) CreateSession_inv by auto
  have named: "\<not> fresh_id (rm_session ?r) s" using k by (auto simp: fresh_id_def)
  show ?thesis
  proof (rule room_next_inv [OF inv k lt])
    show "queued (sy_pool ?t) \<subseteq> members s" using effect b(4) claims_members [OF r] by auto
    show "\<not> fresh_id sid s" if "GetSession sid (sy_sessions ?t) \<noteq> None" for sid
      using that effect b(7) [of sid] named by (auto simp: GetSession_def CreateSession_def split: if_splits)
    show "events_inv ?t" by (rule events_later [OF sys_facts(2) [OF inv] _ _ _ rl]) (use effect in simp_all)
    show "room_inv grow ?t (rp\<lparr>rp_co := ck_co c\<rparr>)"
      unfolding room_inv_def
    proof (intro conjI allI impI)
      show "slot_ok ?t (rp\<lparr>rp_co := ck_co c\<rparr>) i" if "i < 10" for i
        by (rule slot_later [of s rp i, OF _ lt]) (use r that effect in \<open>simp_all add: room_inv_def\<close>)
    qed (use proc view room r cl effect in \<open>auto simp: room_inv_def members_def\<close>)
    show "room_inv grow ?t x" if x: "sy_rooms s k' = Some x" "k' \<noteq> k" for k' x
    proof -
      have ap: "apart rp x" using sys_facts(5) [OF inv k x(1)] x(2) by blast
      show ?thesis
      proof (rule room_frame [OF sys_facts(4) [OF inv x(1)], of _ "[]"])
        show "cells (sy_bools ?t) d = cells (sy_bools s) d" if "d \<in> set (room_chans (rp_room x))" for d
          using effect ap that by (auto simp: apart_def)
        show "sy_sessions ?t = sy_sessions s
          \<or> (\<exists>now sid pids. sid \<noteq> rm_session (rp_room x) \<and> sy_sessions ?t = CreateSession now sid pids (sy_sessions s))
          \<or> (\<exists>now sid pid result score. sy_sessions ?t = fst (RecordResult now sid pid result score (sy_sessions s)))"
          using effect ap unfolding apart_def by simp metis
        show "claims (rp_co x) \<inter> queued (sy_pool ?t) = {}"
          using effect ap sys_facts(4) [OF inv x(1)] by (auto simp: apart_def room_inv_def)
      qed (use effect in \<open>simp_all add: members_def\<close>)
    qed
  qed (use effect b sess in simp_all)
qed

text \<open>One turn of the notifying loop: the send always finds room.\<close>

lemma pool_inv_send:
  assumes "pool_inv p" "chan_try_send c v (match_heap p) = Ret (b, H)"
  shows "pool_inv (p\<lparr>match_heap := H\<rparr>)"
proof -
  have "match_chan_ok H d" if "match_chan_ok (match_heap p) d" for d
    using that assms(2) by (auto simp: match_chan_ok_def chan_try_send_def split: option.splits if_splits)
  then show ?thesis
    using assms chan_try_send_ok unfolding pool_inv_def by (auto simp: queued_def)
qed

lemma notify_turn:
  assumes inv: "sys_inv grow s" and k: "sy_rooms s k = Some rp" and i: "rp_told rp < length (rm_players (rp_room rp))"
  obtains H where "chan_try_send (MatchCh (rp_player rp (rp_told rp))) (rp_event rp (rp_told rp)) (heap_of s) = Ret (True, H)"
    and "holds H (MatchCh (rp_player rp (rp_told rp))) (rp_event rp (rp_told rp))"
    and "\<And>d. d \<noteq> MatchCh (rp_player rp (rp_told rp)) \<Longrightarrow> cells H d = cells (heap_of s) d"
    and "\<not> rp_launched rp" "claims (rp_co rp) = set (rm_players (rp_room rp))" "rp_told rp < 10"
    and "rp_player rp (rp_told rp) \<in> claims (rp_co rp)" "\<not> answered s (rp_resp rp (rp_told rp))"
proof -
  note r = sys_facts(4) [OF inv k]
  have i10: "rp_told rp < 10" using i room_shape(2) [OF r] by simp
  have l: "\<not> rp_launched rp" using room_proc [OF r] i10 by (auto simp: proc_ok_def)
  then have "rp_co rp = launch (rp_room rp)" using room_proc [OF r] by (simp add: proc_ok_def)
  then have at: "co_at (rp_co rp) = Gathering" by (metis launch_def Coordinator.select_convs(8))
  then have cl: "claims (rp_co rp) = set (rm_players (rp_room rp))" by (simp add: claims_def)
  then have mem: "rp_player rp (rp_told rp) \<in> claims (rp_co rp)" using i by (simp add: rp_player_def)
  have "slot_ok s rp (rp_told rp)" using r i10 by (simp add: room_inv_def)
  then have "idle (heap_of s) (MatchCh (rp_player rp (rp_told rp)))" and mute: "\<not> answered s (rp_resp rp (rp_told rp))"
    using mem unfolding slot_ok_def by auto
  then obtain H where "chan_try_send (MatchCh (rp_player rp (rp_told rp))) (rp_event rp (rp_told rp)) (heap_of s) = Ret (True, H)"
    "holds H (MatchCh (rp_player rp (rp_told rp))) (rp_event rp (rp_told rp))"
    "\<And>d. d \<noteq> MatchCh (rp_player rp (rp_told rp)) \<Longrightarrow> cells H d = cells (heap_of s) d"
    by (metis try_send_idle)
  then show thesis by (rule that [OF _ _ _ l cl i10 mem mute])
qed

lemma notifies_inv:
  assumes inv: "sys_inv grow s" and k: "sy_rooms s k = Some rp"
    and n: "notify_next rp (heap_of s) = Some (Ret (rp', H, missed))"
  shows "sys_inv grow (s\<lparr>sy_pool := (sy_pool s)\<lparr>match_heap := H\<rparr>, sy_rooms := (sy_rooms s)(k \<mapsto> rp'),
           sy_missed := sy_missed s @ missed\<rparr>)" (is "sys_inv grow ?t")
proof -
  note b = base_facts [OF sys_facts(1) [OF inv]] and r = sys_facts(4) [OF inv k]
  let ?i = "rp_told rp"
  let ?q = "rp_player rp ?i"
  have i: "?i < length (rm_players (rp_room rp))" using n by (auto simp: notify_next_def split: if_splits)
  obtain H1 where send: "chan_try_send (MatchCh ?q) (rp_event rp ?i) (heap_of s) = Ret (True, H1)"
    and holds: "holds H1 (MatchCh ?q) (rp_event rp ?i)"
    and keep: "\<And>d. d \<noteq> MatchCh ?q \<Longrightarrow> cells H1 d = cells (heap_of s) d"
    and l: "\<not> rp_launched rp" and cl: "claims (rp_co rp) = set (rm_players (rp_room rp))" and i10: "?i < 10"
    and mem: "?q \<in> claims (rp_co rp)" and mute: "\<not> answered s (rp_resp rp ?i)"
    using notify_turn [OF inv k i] by metis
  have out: "rp' = rp\<lparr>rp_told := Suc ?i\<rparr>" "H = H1" "missed = []"
    using n send i by (simp_all add: notify_next_def)
  have lt: "later rp rp'" by (simp add: out later_def)
  have rl: "rooms_later s ?t" by (rule rooms_later_upd [of _ _ k rp']) (use k lt in auto)
  have q: "?q \<in> members s" by (rule player_slot(1) [OF r i10])
  have elsewhere: "cells H (MatchCh x) = cells (heap_of s) (MatchCh x)" if "x \<in> members s" "x \<noteq> ?q" for x
    using keep inj_onD [OF members_inj [OF sys_facts(1) [OF inv]] _ that(1) q] that(2) out(2) by auto
  have "x \<noteq> ?q" if "x \<in> queued (sy_pool s)" for x using that mem r by (auto simp: room_inv_def)
  then have wait: "idle H (MatchCh x)" if "x \<in> queued (sy_pool s)" for x
    using that b(1,4) elsewhere [of x] by (auto simp: ready_pool_def idle_def)
  have unserved: "j = ?i \<Longrightarrow> False" if "serves s x rp j" for x j using that by (simp add: serves_def)
  show ?thesis
  proof (rule room_next_inv [OF inv k lt])
    show "ready_pool (sy_pool ?t)"
      using pool_inv_send [OF b(8) send] wait out(2) by (simp add: ready_pool_def queued_def)
    show "queued (sy_pool ?t) \<subseteq> members s" using b(4) by (simp add: queued_def)
    have "ch_cap ch = 1" if "cells H c = Some ch" for c ch
      using that b(9) keep [of c] holds out(2) by (cases "c = MatchCh ?q") (auto simp: one_slot_def holds_def)
    then show "one_slot (heap_of ?t)" by (simp add: one_slot_def)
    show "events_inv ?t"
      unfolding events_inv_def
    proof (intro allI ballI impI)
      fix c ch e
      assume e: "e \<in> set (ch_buf ch)" "cells (heap_of ?t) c = Some ch"
      show "event_ok ?t c e"
      proof (cases "c = MatchCh ?q")
        case False
        then have "event_ok s c e" using e keep out(2) eventsD [OF sys_facts(2) [OF inv]] by simp
        then show ?thesis by (rule event_ok_later [OF _ _ _ rl]) simp_all
      next
        case True
        then have eq: "e = rp_event rp' ?i" using e holds out(1,2) later_same [OF lt] by (auto simp: holds_def)
        have "serves ?t ?q rp' ?i" by (auto simp: serves_def ran_def out(1) rp_player_def)
        moreover have "rp_player rp' ?i = ?q" "rp_resp rp' ?i = rp_resp rp ?i" using later_same [OF lt] by (simp_all add: out(1))
        moreover have "gw_at st \<noteq> Checking e" if ran: "st \<in> ran (sy_streams s)" for st
        proof
          assume at: "gw_at st = Checking e"
          obtain m where m: "sy_streams s m = Some st" using ran by (auto simp: ran_def)
          obtain x j where sv: "serves s (gw_qp st) x j" "e = rp_event x j"
            using stream_checking [OF sys_facts(6) [OF inv m] at] by metis
          obtain k' where x: "sy_rooms s k' = Some x" "room_inv grow s x" "j < 10" using serves_room [OF inv sv(1)] by metis
          have same: "rp_resp x j = rp_resp rp ?i"
            using sv(2) eq \<open>rp_resp rp' ?i = rp_resp rp ?i\<close> by (metis rp_event_simps(1))
          then have "x = rp"
            using same_room [OF inv x(1) k player_slot(4) [OF x(2,3)]] player_slot(4) [OF r i10] by simp
          then have "j = ?i" using same player_slot(5) [OF r i10 x(3)] by simp
          with sv(1) \<open>x = rp\<close> show False by (simp add: serves_def)
        qed
        ultimately show ?thesis
          unfolding event_ok_def using eq True mute
          by (intro conjI exI [of _ rp'] exI [of _ ?i]) (simp_all add: answered_def)
      qed
    qed
    show "room_inv grow ?t rp'"
      unfolding room_inv_def
    proof (intro conjI allI impI)
      have "rp_co rp' = rp_co rp" by (simp add: out(1))
      then have "room_view rp' ?t = (room_view rp s)\<lparr>ck_pool := (sy_pool s)\<lparr>match_heap := H\<rparr>\<rparr>"
        by (simp add: room_view_def)
      then show "reachable (check_init (rp_room rp')) (check_step grow) (room_view rp' ?t)"
        using view_env [OF room_view_reachable [OF r] env_step.pool_changes] by (simp add: out(1))
      show "proc_ok rp'" using room_proc [OF r] i10 l by (simp add: proc_ok_def out(1))
      show "set (rm_players (rp_room rp')) \<subseteq> members ?t" "claims (rp_co rp') \<inter> queued (sy_pool ?t) = {}"
        using r by (simp_all add: room_inv_def members_def queued_def out(1))
      fix j :: nat
      assume j: "j < 10"
      have sj: "slot_ok s rp j" using r j by (simp add: room_inv_def)
      have same: "rp_player rp' j = rp_player rp j" "rp_event rp' j = rp_event rp j" using later_same [OF lt] by auto
      show "slot_ok ?t rp' j"
      proof (cases "j = ?i")
        case True
        then show ?thesis
          using holds mute out(2) same unfolding slot_ok_def by (simp add: out(1) answered_def)
      next
        case False
        then have "rp_player rp j \<noteq> ?q" using player_slot(2) [OF r i10 j] by simp
        then have "cells H (MatchCh (rp_player rp j)) = cells (heap_of s) (MatchCh (rp_player rp j))"
          by (rule elsewhere [OF player_slot(1) [OF r j]])
        then show ?thesis
          using sj same False unfolding slot_ok_def idle_def holds_def by (auto simp: out(1) answered_def)
      qed
    qed
    show "room_inv grow ?t x" if x: "sy_rooms s k' = Some x" "k' \<noteq> k" for k' x
    proof (rule room_frame [OF sys_facts(4) [OF inv x(1)], of _ "[]"])
      have ap: "apart rp x" using sys_facts(5) [OF inv k x(1)] x(2) by blast
      show "cells (heap_of ?t) (MatchCh y) = cells (heap_of s) (MatchCh y)" if "y \<in> claims (rp_co x)" for y
        using elsewhere [of y] that ap mem claims_members [OF sys_facts(4) [OF inv x(1)]] by (auto simp: apart_def)
    qed (use sys_facts(4) [OF inv x(1)] in \<open>simp_all add: room_inv_def members_def queued_def\<close>)
    show "cells (heap_of ?t) c \<noteq> None" if "cells (heap_of s) c \<noteq> None" for c
      using that keep holds out(2) by (cases "c = MatchCh ?q") (auto simp: holds_def)
    show "idle (heap_of ?t) (MatchCh y)" if y: "serves s y x j" "y \<in> claims (rp_co x)" "idle (heap_of s) (MatchCh y)" for y x j
    proof -
      have x: "room_inv grow s x" "j < 10" "y = rp_player x j" using serves_room [OF inv y(1)] by metis+
      have "y \<noteq> ?q"
      proof
        assume "y = ?q"
        obtain k' where k': "sy_rooms s k' = Some x" using y(1) by (auto simp: serves_def ran_def)
        have "x = rp"
          using sys_facts(5) [OF inv k' k] k k' y(2) mem \<open>y = ?q\<close> by (cases "k' = k") (auto simp: apart_def)
        then show False using y(1) x \<open>y = ?q\<close> player_slot(2) [OF r i10 x(2)] by (auto simp: serves_def)
      qed
      then show ?thesis using y(3) elsewhere [of y] player_slot(1) [OF x(1,2)] x(3) by (simp add: idle_def)
    qed
  qed (use b out(3) in simp_all)
qed

section \<open>Steps of the server\<close>

lemma submits_inv:
  assumes inv: "sys_inv grow s" and sub: "SubmitResult RecordResult ctx_done now req (sy_sessions s) = (ss, reply)"
  shows "sys_inv grow (s\<lparr>sy_sessions := ss\<rparr>)" (is "sys_inv grow ?t")
proof -
  note b = base_facts [OF sys_facts(1) [OF inv]]
  have ss: "ss = sy_sessions s \<or> (\<exists>now sid pid result score. ss = fst (RecordResult now sid pid result score (sy_sessions s)))"
    using sub by (auto simp: SubmitResult_def split: if_splits prod.splits sum.splits dest: arg_cong [of _ _ fst])
      (metis fst_conv)+
  have none: "GetSession sid ss \<noteq> None \<Longrightarrow> GetSession sid (sy_sessions s) \<noteq> None" for sid
    using ss RecordResult_creates_none [of "sy_sessions s" sid] unfolding GetSession_def
    by (cases "sessions (sy_sessions s) sid") auto
  have "store_inv ss" using ss b(3) RecordResult_inv by auto
  then have "base_inv ?t"
    using b none by (simp add: base_inv_def members_def fresh_id_def)
  moreover have "events_inv ?t" by (rule events_later [OF sys_facts(2) [OF inv]]) (simp_all add: rooms_later_same)
  moreover have "log_inv ?t" by (rule log_later [OF sys_facts(3) [OF inv]]) (simp_all add: rooms_later_same)
  moreover have "room_inv grow ?t rp" if "sy_rooms s k = Some rp" for k rp
    by (rule room_frame [OF sys_facts(4) [OF inv that], of _ "[]"])
      (use ss sys_facts(4) [OF inv that] in \<open>auto simp: room_inv_def members_def\<close>)
  moreover have "stream_inv ?t n st" if "sy_streams s n = Some st" for n st
    by (rule stream_frame [OF sys_facts(6) [OF inv that]])
      (use b in \<open>simp_all add: rooms_later_same answered_def\<close>)
  ultimately show ?thesis using sys_facts(5) [OF inv] unfolding sys_inv_def by simp
qed

text \<open>Joining: a new player with a new channel.\<close>

lemma enter_ready:
  assumes ready: "ready_pool p" and e: "EnterMatchmaking grow joined now ok msg p = (p', Inr st)"
  shows "ready_pool p'" "queued p' = insert (gw_qp st) (queued p)" "valid_mmr (gw_qp st)"
    and "cells (match_heap p) (MatchCh (gw_qp st)) = None"
    and "cells (match_heap p') = (cells (match_heap p))(MatchCh (gw_qp st) \<mapsto> \<lparr>ch_cap = 1, ch_buf = [], ch_closed = False\<rparr>)"
    and "\<not> in_check st" "\<forall>resp \<in> set (gw_sent st). gr_Match resp = None"
    and "reachable gate_init gate_step \<lparr>g_stream = st, g_pool = p', g_bools = B\<rparr>"
proof -
  have inv: "pool_inv p" using ready by (simp add: ready_pool_def)
  obtain player qp where j: "join_check msg = Inr player" and st: "st = fresh_stream now ok qp"
    and enq: "Enqueue grow joined (pi_PlayerId player) (pi_DisplayName player) (pi_Mmr player) p = (p', Inr qp)"
    using EnterMatchmaking_Inr [OF e] by metis
  obtain heap ch where mk: "make_chan 1 (match_heap p) = (heap, ch)" by fastforce
  note fresh = make_chan_fresh [OF pool_heap [OF inv] mk]
  have pl: "players p' = (players p)(pi_PlayerId player \<mapsto> qp)" "players p (pi_PlayerId player) = None"
    and h: "match_heap p' = heap" and qp: "MatchCh qp = ch" "MMR qp = pi_Mmr player"
    using enq mk by (auto simp: Enqueue_def Let_def split: if_splits)
  have gq: "gw_qp st = qp" by (simp add: st fresh_stream_def pushed_def)
  have q: "queued p' = insert qp (queued p)" using pl by (simp add: queued_def ran_map_upd)
  then show "queued p' = insert (gw_qp st) (queued p)" by (simp add: gq)
  show "valid_mmr (gw_qp st)" using j qp(2) by (auto simp: gq join_check_Inr valid_mmr_def)
  show none: "cells (match_heap p) (MatchCh (gw_qp st)) = None"
    and cell: "cells (match_heap p') = (cells (match_heap p))(MatchCh (gw_qp st) \<mapsto> \<lparr>ch_cap = 1, ch_buf = [], ch_closed = False\<rparr>)"
    using fresh by (simp_all add: gq qp h)
  have pinv: "pool_inv p'" using Enqueue_inv [OF inv] enq by (metis fst_conv)
  moreover have "idle (match_heap p') (MatchCh x)" if "x \<in> queued p'" for x
  proof (cases "MatchCh x = MatchCh (gw_qp st)")
    case True
    then show ?thesis by (simp add: idle_def cell)
  next
    case False
    then have "x \<in> queued p" using that q gq by auto
    then show ?thesis using ready False by (simp add: ready_pool_def idle_def cell)
  qed
  ultimately show "ready_pool p'" by (simp add: ready_pool_def)
  show "\<not> in_check st" "\<forall>resp \<in> set (gw_sent st). gr_Match resp = None"
    by (auto simp: st fresh_stream_def pushed_def in_check_def joined_response_def)
  have "gate_init \<lparr>g_stream = st, g_pool = p', g_bools = B\<rparr>"
    unfolding gate_init_def gate.select_convs using inv pinv e by blast
  then show "reachable gate_init gate_step \<lparr>g_stream = st, g_pool = p', g_bools = B\<rparr>"
    by (rule reachable.start)
qed

lemma joins_inv:
  assumes inv: "sys_inv grow s" and e: "EnterMatchmaking grow joined now ok msg (sy_pool s) = (p, Inr st)"
    and n: "sy_streams s n = None"
  shows "sys_inv grow (s\<lparr>sy_pool := p, sy_streams := (sy_streams s)(n \<mapsto> st)\<rparr>)" (is "sys_inv grow ?t")
proof -
  note b = base_facts [OF sys_facts(1) [OF inv]]
  note e = enter_ready [OF b(1) e]
  have j: "members ?t = insert (gw_qp st) (members s)"
    using n by (simp add: members_def ran_map_upd)
  have known: "cells (heap_of s) (MatchCh q) \<noteq> None" if "q \<in> members s" for q
    using that stream_facts(3) [OF sys_facts(6) [OF inv]] by (auto simp: members_def ran_def)
  have keep: "cells (heap_of ?t) (MatchCh q) = cells (heap_of s) (MatchCh q)" if "q \<in> members s" for q
    using known [OF that] e(4,5) by auto
  have new: "MatchCh (gw_qp x) \<noteq> MatchCh (gw_qp st)" if "sy_streams s m = Some x" for m x
    using stream_facts(3) [OF sys_facts(6) [OF inv that]] e(4) by auto
  have "base_inv ?t"
    unfolding base_inv_def j
  proof (intro conjI allI impI)
    show "one_slot (heap_of ?t)" using b(9) e(5) by (auto simp: one_slot_def)
    show "m = m'" if "sy_streams ?t m = Some x" "sy_streams ?t m' = Some y" "MatchCh (gw_qp x) = MatchCh (gw_qp y)" for m m' x y
      using that new b(6) [of m x m' y] by (auto split: if_splits)
    show "\<not> fresh_id sid ?t" if "GetSession sid (sy_sessions ?t) \<noteq> None" for sid
      using b(7) that by (simp add: fresh_id_def)
  qed (use b e(1,2) in auto)
  moreover have "events_inv ?t"
    unfolding events_inv_def
  proof (intro allI ballI impI)
    fix c ch ev
    assume ev: "ev \<in> set (ch_buf ch)" "cells (heap_of ?t) c = Some ch"
    then have "cells (heap_of s) c = Some ch" using e(5) by (auto split: if_splits)
    then have "event_ok s c ev" using ev(1) eventsD [OF sys_facts(2) [OF inv]] by blast
    moreover have "gw_at st \<noteq> Checking ev" using e(6) by (auto simp: in_check_def)
    ultimately show "event_ok ?t c ev"
      using n by (simp add: event_ok_def answered_def serves_def ran_map_upd)
  qed
  moreover have "log_inv ?t"
  proof -
    have "\<exists>x rp i. sy_streams ?t m = Some x \<and> serves ?t (gw_qp x) rp i \<and> c = rp_resp rp i"
      if l: "(m, c, v) \<in> set (sy_log s)" for m c v
    proof -
      obtain x rp i where x: "sy_streams s m = Some x" "serves s (gw_qp x) rp i" "c = rp_resp rp i"
        by (rule log_entry [OF sys_facts(3) [OF inv] l])
      moreover have "m \<noteq> n" using n x(1) by auto
      ultimately show ?thesis by (auto simp: serves_def)
    qed
    then show ?thesis using sys_facts(3) [OF inv] by (auto simp: log_inv_def)
  qed
  moreover have "room_inv grow ?t rp" if k: "sy_rooms s k = Some rp" for k rp
  proof (rule room_frame [OF sys_facts(4) [OF inv k], of _ "[]"])
    have sub: "claims (rp_co rp) \<subseteq> members s" by (rule claims_members [OF sys_facts(4) [OF inv k]])
    have "gw_qp st \<notin> members s" using known [of "gw_qp st"] e(4) by auto
    then show "claims (rp_co rp) \<inter> queued (sy_pool ?t) = {}"
      using e(2) sub sys_facts(4) [OF inv k] by (auto simp: room_inv_def)
    show "cells (heap_of ?t) (MatchCh q) = cells (heap_of s) (MatchCh q)" if "q \<in> claims (rp_co rp)" for q
      using keep that sub by blast
  qed (use j in auto)
  moreover have "stream_inv ?t m x" if "sy_streams ?t m = Some x" for m x
  proof (cases "m = n")
    case True
    then have "x = st" using that by simp
    then show ?thesis
      using e(3,5,6,7) e(8) [of "sy_bools s"] by (auto simp: stream_inv_def stream_view_def in_check_def)
  next
    case False
    then have x: "sy_streams s m = Some x" using that by simp
    then have xj: "gw_qp x \<in> members s" by (auto simp: members_iff)
    show ?thesis
    proof (rule stream_frame [OF sys_facts(6) [OF inv x]])
      show "pool_inv (sy_pool ?t)" using e(1) by (simp add: ready_pool_def)
    qed (use keep [OF xj] in \<open>simp_all add: rooms_later_same answered_def idle_def\<close>)
  qed
  ultimately show ?thesis using sys_facts(5) [OF inv] unfolding sys_inv_def by simp
qed

text \<open>A new room: ten waiting players, channels and a session id that nobody else has.\<close>

lemma room_chans_known:
  assumes "room_inv grow s rp" "c \<in> set (room_chans (rp_room rp))"
  shows "cells (sy_bools s) c \<noteq> None"
proof -
  have ci: "check_inv (rp_room rp) (room_view rp s)" by (rule room_check [OF assms(1)])
  then have ok: "responses_ok (rp_room rp) (room_view rp s)" "results_ok (rp_room rp) (rp_co rp) (sy_bools s)"
    by (simp_all add: check_inv_def room_view_def)
  show ?thesis
  proof (cases "c \<in> set (rm_responses (rp_room rp))")
    case True
    then obtain i where "i < length (rm_players (rp_room rp))" "c = rp_resp rp i"
      using room_shape(2,3) [OF assms(1)] by (auto simp: in_set_conv_nth)
    then show ?thesis using ok(1) unfolding responses_ok_def by (auto simp: room_view_def)
  next
    case False
    then have "c \<in> set (rm_results (rp_room rp))" using assms(2) by simp
    then have "idle (sy_bools s) c \<or> (\<exists>v. published (sy_bools s) c v)"
      using ok(2) unfolding results_ok_def by (cases "co_at (rp_co rp)") auto
    then show ?thesis by (auto simp: idle_def published_def)
  qed
qed

lemma extracts_inv:
  assumes srt: "match_sort srt" and inv: "sys_inv grow s"
    and ex: "ExtractMatch srt ks now (sy_pool s) = (p, Some qs)" and ks: "covers ks (brackets (sy_pool s))"
    and sid: "fresh_id sid s" and k: "sy_rooms s k = None" and op: "open_room sid later_t qs (sy_bools s) = (B, rp)"
  shows "sys_inv grow (s\<lparr>sy_pool := p, sy_bools := B, sy_rooms := (sy_rooms s)(k \<mapsto> rp)\<rparr>)" (is "sys_inv grow ?t")
proof -
  note b = base_facts [OF sys_facts(1) [OF inv]]
  note x = match_sort.extract_success [OF srt b(8) ks ex]
  have qs: "length qs = 10" "distinct (map PlayerID qs)" "set qs \<subseteq> queued (sy_pool s)" "pool_inv p"
    and heap: "match_heap p = heap_of s" and q: "queued p = queued (sy_pool s) - set qs"
    using x by (simp_all add: PlayersPerMatch_def)
  obtain rs ss where mk: "make_channels (length qs) (sy_bools s) = (B, rs, ss)"
    and rp: "rp = \<lparr>rp_now = later_t, rp_told = 0, rp_launched = False,
      rp_co = launch \<lparr>rm_session = sid, rm_players = qs, rm_responses = rs, rm_results = ss\<rparr>\<rparr>"
    using op by (auto simp: open_room_def split: prod.splits)
  note ch = make_channels_spec [OF b(2) mk]
  have room: "rm_session (rp_room rp) = sid" "rm_players (rp_room rp) = qs" "rm_responses (rp_room rp) = rs"
    "rm_results (rp_room rp) = ss" "rp_told rp = 0" "\<not> rp_launched rp"
    and co: "rp_co rp = launch (rp_room rp)"
    by (simp_all add: rp launch_def)
  have at: "co_at (rp_co rp) = Gathering" by (simp add: rp launch_def)
  then have cl: "claims (rp_co rp) = set qs" by (simp add: claims_def room)
  have fresh: "cells (sy_bools s) c = None" if "c \<in> set (room_chans (rp_room rp))" for c
    using that ch unfolding room by blast
  have keep: "cells B c = cells (sy_bools s) c" if "cells (sy_bools s) c \<noteq> None" for c
    using that ch by metis
  have unheard: "\<not> answered s c" if "c \<in> set (room_chans (rp_room rp))" for c
  proof
    assume "answered s c"
    then obtain n v where l: "(n, c, v) \<in> set (sy_log s)" unfolding answered_def by force
    obtain st rp' i where "sy_streams s n = Some st" and sv: "serves s (gw_qp st) rp' i" and c: "c = rp_resp rp' i"
      by (rule log_entry [OF sys_facts(3) [OF inv] l])
    have "room_inv grow s rp'" "i < 10" using serves_room [OF inv sv] by metis+
    from room_chans_known [OF this(1) player_slot(4) [OF this]] c fresh [OF that] show False by simp
  qed
  have rl: "rooms_later s ?t" by (rule rooms_later_upd [of _ _ k rp]) (use k in auto)
  have none: "GetSession sid (sy_sessions s) = None" using b(7) sid by blast
  have init: "check_init (rp_room rp) (room_view rp ?t)"
    unfolding check_init_def
  proof (intro conjI)
    show "\<forall>(c, v) \<in> set (ck_sent (room_view rp ?t)). c \<notin> set (rm_responses (rp_room rp))"
      using unheard unfolding answered_def by (force simp: room_view_def)
    show "\<forall>c \<in> set (room_chans (rp_room rp)). idle (ck_bools (room_view rp ?t)) c"
      using ch unfolding room by (simp add: room_view_def)
    show "distinct (room_chans (rp_room rp))" using ch unfolding room by simp
    show "ck_co (room_view rp ?t) = launch (rp_room rp)" using co by (simp add: room_view_def)
  qed (use ch qs(1) none b(3) in \<open>simp_all add: room_view_def room\<close>)
  have new: "room_inv grow ?t rp"
    unfolding room_inv_def
  proof (intro conjI allI impI)
    show "proc_ok rp"
      using qs(1,2) room co at unfolding proc_ok_def by (simp add: distinct_map)
    show "reachable (check_init (rp_room rp)) (check_step grow) (room_view rp ?t)"
      by (rule reachable.start [where init = "check_init (rp_room rp)", OF init])
    show "set (rm_players (rp_room rp)) \<subseteq> members ?t" using qs(3) b(4) by (auto simp: room members_def)
    show "claims (rp_co rp) \<inter> queued (sy_pool ?t) = {}" using q cl by auto
    fix i :: nat
    assume i: "i < 10"
    have "rp_resp rp i \<in> set (room_chans (rp_room rp))" using i ch qs(1) unfolding room by simp
    moreover have "rp_player rp i \<in> queued (sy_pool s)" using i qs(1,3) by (auto simp: rp_player_def room)
    ultimately show "slot_ok ?t rp i"
      using unheard b(1) unfolding slot_ok_def by (simp add: answered_def heap ready_pool_def)
  qed
  have "base_inv ?t"
    using b qs(4) q heap ch fresh_later [OF rl] by (auto simp: base_inv_def members_def ready_pool_def)
  moreover have "events_inv ?t"
    by (rule events_later [OF sys_facts(2) [OF inv] _ _ _ rl]) (simp_all add: heap)
  moreover have "log_inv ?t" by (rule log_later [OF sys_facts(3) [OF inv] _ _ rl]) simp_all
  moreover have old: "room_inv grow ?t y" if y: "sy_rooms s k' = Some y" for k' y
  proof (rule room_frame [OF sys_facts(4) [OF inv y], of _ "[]"])
    show "cells (sy_bools ?t) c = cells (sy_bools s) c" if "c \<in> set (room_chans (rp_room y))" for c
      using keep [OF room_chans_known [OF sys_facts(4) [OF inv y] that]] by simp
  qed (use q heap sys_facts(4) [OF inv y] in \<open>auto simp: members_def room_inv_def\<close>)
  moreover have "apart rp y \<and> apart y rp" if y: "sy_rooms s k' = Some y" for k' y
  proof -
    have "set qs \<inter> claims (rp_co y) = {}" using qs(3) sys_facts(4) [OF inv y] by (auto simp: room_inv_def)
    moreover have "rm_session (rp_room y) \<noteq> sid" using sid y by (auto simp: fresh_id_def)
    moreover have "c \<notin> set (room_chans (rp_room y))" if "c \<in> set (room_chans (rp_room rp))" for c
      using room_chans_known [OF sys_facts(4) [OF inv y]] fresh [OF that] by metis
    then have "set (room_chans (rp_room rp)) \<inter> set (room_chans (rp_room y)) = {}" by blast
    ultimately show ?thesis by (simp only: apart_def cl room(1) Int_commute [of "claims (rp_co y)"]
          Int_commute [of "set (room_chans (rp_room y))"] simp_thms) metis
  qed
  then have "apart x y" if "sy_rooms ?t k1 = Some x" "sy_rooms ?t k2 = Some y" "k1 \<noteq> k2" for k1 k2 x y
    using that sys_facts(5) [OF inv, of k1 x k2 y] by (cases "k1 = k"; cases "k2 = k") auto
  moreover have "stream_inv ?t n st" if "sy_streams s n = Some st" for n st
    by (rule stream_frame [OF sys_facts(6) [OF inv that] rl])
      (use qs(4) in \<open>simp_all add: heap answered_def\<close>)
  moreover have "room_inv grow ?t y" if "sy_rooms ?t k' = Some y" for k' y
    using that new old by (cases "k' = k") auto
  ultimately show ?thesis
    unfolding sys_inv_def by simp
qed

section \<open>The machine\<close>

lemma sys_step_inv:
  assumes srt: "match_sort srt" and inv: "sys_inv grow s" and step: "sys_step grow srt s t"
  shows "sys_inv grow t"
proof -
  note b = base_facts [OF sys_facts(1) [OF inv]]
  show ?thesis
    using step
  proof (cases rule: sys_step.cases)
    case (refuses joined now ok msg p e)
    then have "p = sy_pool s"
      by (auto simp: EnterMatchmaking_def Enqueue_def Let_def split: sum.splits prod.splits option.splits if_splits)
    with inv refuses show ?thesis by simp
  next
    case (joins joined now ok msg p st n)
    with joins_inv [OF inv] show ?thesis by simp
  next
    case (streams n st sent g)
    with stream_step_inv [OF inv] show ?thesis by (simp add: stream_next_def)
  next
    case (no_match ks now p)
    then have "p = sy_pool s" using match_sort.extract_failure [OF srt b(8)] by blast
    with inv no_match show ?thesis by simp
  next
    case (extracts ks now p qs sid k later_t B rp)
    with extracts_inv [OF srt inv] show ?thesis by simp
  next
    case (notifies k rp rp' H missed)
    with notifies_inv [OF inv] show ?thesis by simp
  next
    case (launches k rp rp')
    with launches_inv [OF inv] show ?thesis by simp
  next
    case (coordinates k rp c)
    with coordinates_inv [OF inv] show ?thesis by simp
  next
    case (expires k rp)
    with expires_inv [OF inv] show ?thesis by simp
  next
    case (submits ctx_done now req ss reply)
    with submits_inv [OF inv] show ?thesis by simp
  qed
qed

definition sys_init :: "System \<Rightarrow> bool" where
  "sys_init s \<longleftrightarrow> s = sys_start"

lemma sys_inv_init:
  assumes "sys_init s"
  shows "sys_inv grow s"
proof -
  have "ready_pool NewPool" using pool_inv_NewPool by (simp add: ready_pool_def queued_def NewPool_def)
  moreover have "store_inv NewSessionStore" by (simp add: store_inv_def NewSessionStore_def)
  ultimately show ?thesis
    using assms
    by (auto simp: sys_init_def sys_start_def sys_inv_def base_inv_def events_inv_def log_inv_def one_slot_def
        GetSession_def NewSessionStore_def NewPool_def queued_def) (simp_all add: no_chans_def)
qed

lemma sys_machine: "match_sort srt \<Longrightarrow> inductive_invariant sys_init (sys_step grow srt) (sys_inv grow)"
  using sys_inv_init sys_step_inv by unfold_locales

interpretation server: inductive_invariant sys_init "sys_step grow insertionSort" "sys_inv grow" for grow
  by (rule sys_machine [OF match_insertion.match_sort_axioms])

end
