(* ===== verification/Nexus_System_Verdict.thy ===== *)
theory Nexus_System_Verdict
  imports Nexus_System_Rooms
begin

text \<open>
  A second invariant of the whole server, on top of the first: a verdict stays in its channel until the
  one stream it is for has read it.
\<close>

section \<open>Nobody misses a verdict\<close>

text \<open>
  A result channel is unread while a published value is still in it. It may be read by the one stream
  that has, or can still get, the event that carries it.
\<close>

definition unread :: "'a chans \<Rightarrow> chan_id \<Rightarrow> bool" where
  "unread H c \<longleftrightarrow> (\<exists>ch. cells H c = Some ch \<and> (ch_closed ch \<longrightarrow> ch_buf ch \<noteq> []))"

definition minds :: "Stream \<Rightarrow> MatchEvent \<Rightarrow> bool" where
  "minds st evt \<longleftrightarrow> gw_at st = Checking evt \<or> gw_at st = Awaiting evt"

definition pending :: "System \<Rightarrow> chan_id \<Rightarrow> bool" where
  "pending s c \<longleftrightarrow>
     (\<exists>k rp i. sy_rooms s k = Some rp \<and> i < 10 \<and> rp_told rp \<le> i \<and> c = ResultCh (rp_event rp i))
   \<or> (\<exists>d ch. \<exists>evt \<in> set (ch_buf ch). cells (heap_of s) d = Some ch \<and> c = ResultCh evt)
   \<or> (\<exists>n st evt. sy_streams s n = Some st \<and> minds st evt \<and> c = ResultCh evt)"

definition verdict_inv :: "System \<Rightarrow> bool" where
  "verdict_inv s \<longleftrightarrow> (\<forall>c. pending s c \<longrightarrow> unread (sy_bools s) c)"

lemma unread_send:
  "chan_try_send c v H = Ret (b, H') \<Longrightarrow> unread H d \<Longrightarrow> unread H' d"
  by (auto simp: unread_def chan_try_send_def split: option.splits if_splits)

lemma unread_publish:
  assumes "publish co H = Some (Ret (co', H'))" "unread H d"
  shows "unread H' d"
proof (cases "co_at co")
  case (Publishing cs)
  show ?thesis
  proof (cases cs)
    case Nil
    then show ?thesis using assms Publishing by (simp add: publish_def)
  next
    case (Cons c cs')
    then obtain H1 where "chan_try_send c (co_allAccepted co) H = Ret (True, H1)" and cl: "chan_close c H1 = Ret H'"
      using assms(1) Publishing
      by (auto simp: publish_def chan_send_def split: option.splits outcome.splits prod.splits if_splits)
    moreover from this have "ch_buf ch \<noteq> []" if "cells H1 c = Some ch" for ch
      using that by (auto simp: chan_try_send_def split: option.splits if_splits)
    ultimately show ?thesis
      using unread_send [OF _ assms(2)] by (cases "d = c") (auto simp: unread_def chan_close_def split: option.splits if_splits)
  qed
qed (use assms in \<open>simp_all add: publish_def\<close>)

lemma unread_recv: "chan_recv c H = (out, H') \<Longrightarrow> d \<noteq> c \<Longrightarrow> unread H d \<Longrightarrow> unread H' d"
  unfolding unread_def using chan_recv_other by metis

text \<open>A pending channel is the result channel of a slot of a room.\<close>

lemma event_serves:
  assumes "sys_inv grow s" "cells (heap_of s) d = Some ch" "evt \<in> set (ch_buf ch)"
  obtains rp i where "serves s (rp_player rp i) rp i" "evt = rp_event rp i" "\<not> answered s (rp_resp rp i)"
  using eventsD [OF sys_facts(2) [OF assms(1)] assms(2,3)] unfolding event_ok_def by blast

lemma stream_serves:
  assumes "sys_inv grow s" "sy_streams s n = Some st" "minds st evt"
  obtains rp i where "serves s (gw_qp st) rp i" "evt = rp_event rp i"
  using assms(3) [unfolded minds_def] stream_checking [OF sys_facts(6) [OF assms(1,2)]] stream_awaiting [OF sys_facts(6) [OF assms(1,2)]]
  by metis

lemma pending_slot:
  assumes inv: "sys_inv grow s" and p: "pending s c"
  obtains k rp i where "sy_rooms s k = Some rp" "i < 10" "c = rm_results (rp_room rp) ! i"
proof -
  have "\<exists>k rp i. sy_rooms s k = Some rp \<and> i < 10 \<and> c = ResultCh (rp_event rp i)"
    using p unfolding pending_def
  proof (elim disjE exE bexE conjE)
    fix d ch evt
    assume "cells (heap_of s) d = Some ch" "evt \<in> set (ch_buf ch)" "c = ResultCh evt"
    then show ?thesis using event_serves [OF inv] serves_room [OF inv] by metis
  next
    fix n st evt
    assume st: "sy_streams s n = Some st" "minds st evt" "c = ResultCh evt"
    then show ?thesis using stream_serves [OF inv st(1,2)] serves_room [OF inv] by metis
  qed blast
  then show thesis using that by auto
qed

lemma pending_not_response:
  assumes inv: "sys_inv grow s" and p: "pending s c" and k: "sy_rooms s k = Some rp"
  shows "c \<notin> set (rm_responses (rp_room rp))"
proof
  assume c: "c \<in> set (rm_responses (rp_room rp))"
  obtain k' rp' i where k': "sy_rooms s k' = Some rp'" "i < 10" "c = rm_results (rp_room rp') ! i"
    by (rule pending_slot [OF inv p])
  have r: "c \<in> set (rm_results (rp_room rp'))" using player_slot(6) [OF sys_facts(4) [OF inv k'(1)] k'(2)] k'(3) by simp
  then have "rp' = rp" using same_room [OF inv k k'(1), of c] c by simp
  moreover have "distinct (room_chans (rp_room rp))" using room_shape(1) [OF sys_facts(4) [OF inv k]] by (simp add: room_ok_def)
  ultimately show False using c r by auto
qed

lemma same_result:
  assumes inv: "sys_inv grow s" and k: "sy_rooms s k = Some rp" "sy_rooms s k' = Some rp'" and i: "i < 10" "j < 10"
    and c: "rm_results (rp_room rp) ! i = rm_results (rp_room rp') ! j"
  shows "rp = rp' \<and> i = j"
proof -
  note r = sys_facts(4) [OF inv k(1)] and r' = sys_facts(4) [OF inv k(2)]
  have eq: "rp = rp'"
    using same_room [OF inv k, of "rm_results (rp_room rp) ! i"] player_slot(6) [OF r i(1)] player_slot(6) [OF r' i(2)] c by simp
  moreover have "distinct (rm_results (rp_room rp))" using room_shape(1) [OF r] by (simp add: room_ok_def)
  ultimately show ?thesis using c i room_shape(4) [OF r] by (simp add: nth_eq_iff_index_eq)
qed

lemma pendingI:
  "sy_rooms s k = Some rp \<Longrightarrow> i < 10 \<Longrightarrow> rp_told rp \<le> i \<Longrightarrow> pending s (ResultCh (rp_event rp i))"
  "cells (heap_of s) d = Some ch \<Longrightarrow> evt \<in> set (ch_buf ch) \<Longrightarrow> pending s (ResultCh evt)"
  "sy_streams s n = Some st \<Longrightarrow> minds st evt \<Longrightarrow> pending s (ResultCh evt)"
  unfolding pending_def by blast+

text \<open>A step that makes nothing pending and only adds to channels.\<close>

lemma verdict_frame:
  assumes inv: "verdict_inv s"
    and rooms: "\<And>k rp i. sy_rooms t k = Some rp \<Longrightarrow> i < 10 \<Longrightarrow> rp_told rp \<le> i \<Longrightarrow> pending s (ResultCh (rp_event rp i))"
    and heap: "\<And>d ch evt. cells (heap_of t) d = Some ch \<Longrightarrow> evt \<in> set (ch_buf ch) \<Longrightarrow> pending s (ResultCh evt)"
    and streams: "\<And>n st evt. sy_streams t n = Some st \<Longrightarrow> minds st evt \<Longrightarrow> pending s (ResultCh evt)"
    and bools: "\<And>c. pending s c \<Longrightarrow> pending t c \<Longrightarrow> unread (sy_bools s) c \<Longrightarrow> unread (sy_bools t) c"
  shows "verdict_inv t"
  unfolding verdict_inv_def
proof (intro allI impI)
  fix c
  assume t: "pending t c"
  then have "pending s c" using rooms heap streams unfolding pending_def by blast
  with t inv bools show "unread (sy_bools t) c" unfolding verdict_inv_def by blast
qed

lemma not_in_check: "\<not> in_check st \<Longrightarrow> \<not> minds st evt"
  by (auto simp: minds_def in_check_def)

lemma verdict_streams:
  assumes inv: "sys_inv grow s" and ver: "verdict_inv s" and st: "sy_streams s n = Some st"
    and step: "gw_step sent (stream_view st s) g"
  shows "verdict_inv (stream_next n g sent s)"
proof -
  let ?t = "stream_next n g sent s"
  have v: "g_stream (stream_view st s) = st" "g_pool (stream_view st s) = sy_pool s" "g_bools (stream_view st s) = sy_bools s"
    by (simp_all add: stream_view_def)
  have rest: "pending s (ResultCh evt)" if "sy_streams ?t m = Some x" "minds x evt"
    "minds (g_stream g) evt \<Longrightarrow> pending s (ResultCh evt)" for m x evt
    using that pendingI(3) by (cases "m = n") auto
  from step show ?thesis
  proof (cases rule: gw_step_effect)
    case (quiet news)
    show ?thesis
    proof (rule verdict_frame [OF ver])
      show "pending s (ResultCh e)" if "sy_streams ?t m = Some x" "minds x e" for m x e
        by (rule rest [OF that]) (use quiet(4) not_in_check pendingI(3) [OF st] v in \<open>auto simp: minds_def in_check_def\<close>)
    qed (use quiet(1,2) pendingI in \<open>auto simp: v\<close>)
  next
    case (took evt H news)
    show ?thesis
    proof (rule verdict_frame [OF ver])
      have evt: "pending s (ResultCh evt)"
        using took(4) pendingI(2) unfolding v by (auto simp: chan_recv_def split: option.splits list.splits if_splits)
      show "pending s (ResultCh e)" if "sy_streams ?t m = Some x" "minds x e" for m x e
        by (rule rest [OF that]) (use took(6) evt in \<open>auto simp: minds_def in_check_def\<close>)
      show "pending s (ResultCh e)" if "cells (heap_of ?t) d = Some ch" "e \<in> set (ch_buf ch)" for d ch e
      proof -
        have "\<exists>ch0. cells (heap_of s) d = Some ch0 \<and> set (ch_buf ch) \<subseteq> set (ch_buf ch0)"
          using that(1) took(4,5) unfolding v
          by (auto simp: chan_recv_def split: option.splits list.splits if_splits)
        then show ?thesis using that(2) pendingI(2) by blast
      qed
    qed (use took(2) pendingI in \<open>auto simp: v\<close>)
  next
    case (left news)
    show ?thesis
    proof (rule verdict_frame [OF ver])
      note d = ready_Dequeue(4) [OF base_facts(1) [OF sys_facts(1) [OF inv]], of "PlayerID (gw_qp st)"]
      show "pending s (ResultCh e)" if "cells (heap_of ?t) c = Some ch" "e \<in> set (ch_buf ch)" for c ch e
        using that same_bufs(1) [OF d] left(1) pendingI(2) unfolding v by fastforce
      show "pending s (ResultCh e)" if "sy_streams ?t m = Some x" "minds x e" for m x e
        by (rule rest [OF that]) (use left(4) not_in_check in blast)
    qed (use left(2) pendingI in \<open>auto simp: v\<close>)
  next
    case (answered evt w b news)
    show ?thesis
    proof (rule verdict_frame [OF ver])
      show "pending s (ResultCh e)" if "sy_streams ?t m = Some x" "minds x e" for m x e
        by (rule rest [OF that]) (use answered(1,5) st pendingI(3) v in \<open>auto simp: minds_def in_check_def split: if_splits\<close>)
      show "unread (sy_bools ?t) c" if "unread (sy_bools s) c" for c
        using unread_send answered(3) that unfolding v by simp
    qed (use answered(2) pendingI in \<open>auto simp: v\<close>)
  next
    case (heard evt out news)
    obtain rp i where sv: "serves s (gw_qp st) rp i" "evt = rp_event rp i" "(n, rp_resp rp i, True) \<in> set (sy_log s)"
      using stream_awaiting [OF sys_facts(6) [OF inv st]] heard(1) unfolding v by metis
    obtain k where k: "sy_rooms s k = Some rp" "i < 10" using serves_room [OF inv sv(1)] by metis
    show ?thesis
    proof (rule verdict_frame [OF ver])
      show "pending s (ResultCh e)" if "sy_streams ?t m = Some x" "minds x e" for m x e
        by (rule rest [OF that]) (use heard(5) not_in_check in blast)
      show "unread (sy_bools ?t) c" if "pending ?t c" "unread (sy_bools s) c" for c
      proof (rule unread_recv [of "ResultCh evt" "sy_bools s"])
        show "c \<noteq> ResultCh evt"
        proof
          assume "c = ResultCh evt"
          then have c: "c = rm_results (rp_room rp) ! i" using sv(2) by simp
          from that(1) show False
            unfolding pending_def
          proof (elim disjE exE bexE conjE)
            fix k' rp' j
            assume "sy_rooms ?t k' = Some rp'" "j < 10" "rp_told rp' \<le> j" "c = ResultCh (rp_event rp' j)"
            with same_result [OF inv k(1) _ k(2), of k' rp' j] c sv(1) show False by (auto simp: serves_def)
          next
            fix d ch e
            assume e: "cells (heap_of ?t) d = Some ch" "e \<in> set (ch_buf ch)" "c = ResultCh e"
            then have d: "cells (heap_of s) d = Some ch" using heard(2) by (simp add: v)
            obtain rp' j where j: "serves s (rp_player rp' j) rp' j" "e = rp_event rp' j" "\<not> answered s (rp_resp rp' j)"
              by (rule event_serves [OF inv d e(2)])
            obtain k' where "sy_rooms s k' = Some rp'" "j < 10" using serves_room [OF inv j(1)] by metis
            with same_result [OF inv k(1) this(1) k(2) this(2)] c e(3) j(2) have "rp_resp rp' j = rp_resp rp i" by simp
            then show False using j(3) sv(3) unfolding answered_def by (metis fst_conv image_eqI snd_conv)
          next
            fix m x e
            assume e: "sy_streams ?t m = Some x" "minds x e" "c = ResultCh e"
            then have m: "m \<noteq> n" "sy_streams s m = Some x" using heard(5) not_in_check by (auto split: if_splits)
            obtain rp' j where j: "serves s (gw_qp x) rp' j" "e = rp_event rp' j"
              by (rule stream_serves [OF inv m(2) e(2)])
            obtain k' where k': "sy_rooms s k' = Some rp'" "j < 10" using serves_room [OF inv j(1)] by metis
            have "gw_qp x = gw_qp st"
              using same_result [OF inv k(1) k'(1) k(2) k'(2)] c e(3) j sv(1) by (auto simp: serves_def)
            then show False using base_facts(6) [OF sys_facts(1) [OF inv] m(2) st] m(1) by simp
          qed
        qed
      qed (use heard(4) that(2) v in simp_all)
    qed (use heard(2) pendingI in \<open>auto simp: v\<close>)
  qed
qed

lemma co_step_heap: "co_step grow v w \<Longrightarrow> match_heap (ck_pool w) = match_heap (ck_pool v)"
  by (erule co_stepE)
    (auto simp: requeue_def ReEnqueue_def Let_def split: co_pc.splits list.splits option.splits if_splits)

lemma co_step_unread:
  assumes step: "co_step grow v w" and room: "room_ok r (ck_co v)" "index_ok (ck_co v)"
    and d: "d \<notin> set (rm_responses r)" "unread (ck_bools v) d"
  shows "unread (ck_bools w) d"
  using step
proof (cases rule: co_step.cases)
  case (fan_in i co B)
  have r: "co_room (ck_co v) = r" using room(1) by (simp add: room_ok_def)
  have i: "i < length (rm_players r)" using fan_in room(2) r by (auto simp: fan_in_recv_def index_ok_def split: if_splits)
  obtain out where recv: "chan_recv (rm_responses r ! i) (ck_bools v) = (out, B)"
    using fan_in r by (auto simp: fan_in_recv_def split: if_splits prod.splits received.splits)
  have "d \<noteq> rm_responses r ! i" using d(1) room_chans_apart(2) [OF room(1) i] by blast
  then show ?thesis using unread_recv [OF recv _ d(2)] fan_in by simp
next
  case (published co B)
  then show ?thesis using unread_publish d(2) by simp
qed (use d(2) in simp_all)

lemma refuse_same: "EnterMatchmaking grow joined now ok msg p = (p', Inl e) \<Longrightarrow> p' = p"
  by (auto simp: EnterMatchmaking_def Enqueue_def Let_def split: sum.splits prod.splits option.splits if_splits)

lemma verdict_step:
  assumes srt: "match_sort srt" and inv: "sys_inv grow s" and ver: "verdict_inv s" and step: "sys_step grow srt s t"
  shows "verdict_inv t"
proof -
  note b = base_facts [OF sys_facts(1) [OF inv]]
  show ?thesis
    using step
  proof (cases rule: sys_step.cases)
    case (refuses joined now ok msg p e)
    then show ?thesis using refuse_same ver by fastforce
  next
    case (joins joined now ok msg p st n)
    note e = enter_ready [OF b(1) joins(2)]
    show ?thesis
    proof (rule verdict_frame [OF ver])
      show "pending s (ResultCh x)" if "cells (heap_of t) d = Some ch" "x \<in> set (ch_buf ch)" for d ch x
        using that e(5) pendingI(2) joins(1) by (auto split: if_splits)
      show "pending s (ResultCh x)" if "sy_streams t m = Some y" "minds y x" for m y x
        using that e(6) not_in_check pendingI(3) joins(1) by (cases "m = n") auto
    qed (use joins(1) pendingI in auto)
  next
    case (streams n st sent g)
    with verdict_streams [OF inv ver] show ?thesis by (simp add: stream_next_def)
  next
    case (no_match ks now p)
    then have "p = sy_pool s" using match_sort.extract_failure [OF srt b(8)] by blast
    with ver no_match show ?thesis by simp
  next
    case (extracts ks now p qs sid k at B rp)
    have heap: "match_heap p = heap_of s"
      using match_sort.extract_success [OF srt b(8) extracts(3,2)] by simp
    obtain rs ss where mk: "make_channels (length qs) (sy_bools s) = (B, rs, ss)"
      and rp: "rm_results (rp_room rp) = ss" "rp_told rp = 0"
      using extracts(6) by (auto simp: open_room_def launch_def split: prod.splits)
    have n: "length qs = 10" using match_sort.extract_success [OF srt b(8) extracts(3,2)] by (simp add: PlayersPerMatch_def)
    note ch = make_channels_spec [OF b(2) mk]
    show ?thesis
      unfolding verdict_inv_def
    proof (intro allI impI)
      fix c
      assume c: "pending t c"
      show "unread (sy_bools t) c"
      proof (cases "c \<in> set ss")
        case True
        then show ?thesis using ch extracts(1) by (auto simp: unread_def idle_def)
      next
        case False
        have "ResultCh (rp_event rp i) \<in> set ss" if "i < 10" for i
          using that ch n rp(1) by simp
        then have rooms: "pending s c" if "sy_rooms t k' = Some y" "i < 10" "rp_told y \<le> i" "c = ResultCh (rp_event y i)" for k' y i
          using that False extracts(1) pendingI(1) by (cases "k' = k") auto
        have "pending s c"
          using c [unfolded pending_def] rooms extracts(1) heap pendingI(2,3)
          by (elim disjE exE bexE conjE) auto
        then have u: "unread (sy_bools s) c" using ver by (simp add: verdict_inv_def)
        then have "cells (sy_bools s) c \<noteq> None" by (auto simp: unread_def)
        then have "cells B c = cells (sy_bools s) c" using ch by metis
        then show ?thesis using u extracts(1) by (simp add: unread_def)
      qed
    qed
  next
    case (notifies k rp rp' H missed)
    have i: "rp_told rp < length (rm_players (rp_room rp))" using notifies(3) by (auto simp: notify_next_def split: if_splits)
    have i10: "rp_told rp < 10" using i room_shape(2) [OF sys_facts(4) [OF inv notifies(2)]] by simp
    have now: "pending s (ResultCh (rp_event rp (rp_told rp)))" by (rule pendingI(1) [OF notifies(2) i10]) simp
    obtain sent where send: "chan_try_send (MatchCh (rp_player rp (rp_told rp))) (rp_event rp (rp_told rp)) (heap_of s) = Ret (sent, H)"
      and rp': "rp' = rp\<lparr>rp_told := Suc (rp_told rp)\<rparr>"
      using notifies(3) i by (auto simp: notify_next_def split: prod.splits if_splits)
    show ?thesis
    proof (rule verdict_frame [OF ver])
      show "pending s (ResultCh x)" if "cells (heap_of t) d = Some ch" "x \<in> set (ch_buf ch)" for d ch x
        using that send now pendingI(2) notifies(1) by (auto simp: chan_try_send_def split: option.splits if_splits)
      show "pending s (ResultCh (rp_event y j))" if "sy_rooms t k' = Some y" "j < 10" "rp_told y \<le> j" for k' y j
      proof (cases "k' = k")
        case True
        then have "y = rp'" using that(1) notifies(1) by simp
        then have "rp_event y j = rp_event rp j" "rp_told rp \<le> j" using that(3) rp' by (simp_all add: rp_event_def)
        then show ?thesis using pendingI(1) [OF notifies(2) that(2)] by simp
      qed (use that notifies(1) pendingI(1) in auto)
    qed (use notifies(1) pendingI in auto)
  next
    case (launches k rp rp')
    then have rp': "rp' = rp\<lparr>rp_launched := True\<rparr>" by (auto simp: launch_next_def split: if_splits)
    show ?thesis
    proof (rule verdict_frame [OF ver])
      show "pending s (ResultCh (rp_event y j))" if "sy_rooms t k' = Some y" "j < 10" "rp_told y \<le> j" for k' y j
        using that launches(1,2) rp' pendingI(1) [OF launches(2) that(2)] pendingI(1)
        by (cases "k' = k") (auto simp: rp_event_def)
    qed (use launches(1) pendingI in auto)
  next
    case (coordinates k rp c)
    note r = sys_facts(4) [OF inv coordinates(2)]
    have room: "co_room (ck_co c) = rp_room rp" using co_step_room [OF coordinates(4)] by (simp add: room_view_def)
    have heap: "match_heap (ck_pool c) = heap_of s" using co_step_heap [OF coordinates(4)] by (simp add: room_view_def)
    show ?thesis
    proof (rule verdict_frame [OF ver])
      show "pending s (ResultCh (rp_event y j))" if "sy_rooms t k' = Some y" "j < 10" "rp_told y \<le> j" for k' y j
        using that coordinates(1) room pendingI(1) [OF coordinates(2) that(2)] pendingI(1)
        by (cases "k' = k") (auto simp: rp_event_def)
      show "unread (sy_bools t) d" if "pending s d" "unread (sy_bools s) d" for d
        using co_step_unread [OF coordinates(4), of "rp_room rp" d] room_check [OF r]
          pending_not_response [OF inv that(1) coordinates(2)] that(2) coordinates(1)
        by (simp add: check_inv_def room_view_def)
    qed (use coordinates(1) heap pendingI in auto)
  next
    case (expires k rp)
    have room: "co_room (deadline (rp_co rp)) = rp_room rp" by (simp add: deadline_def)
    show ?thesis
    proof (rule verdict_frame [OF ver])
      show "pending s (ResultCh (rp_event y j))" if "sy_rooms t k' = Some y" "j < 10" "rp_told y \<le> j" for k' y j
        using that expires(1) room pendingI(1) [OF expires(2) that(2)] pendingI(1)
        by (cases "k' = k") (auto simp: rp_event_def)
    qed (use expires(1) pendingI in auto)
  next
    case (submits ctx_done now req ss reply)
    then show ?thesis by (intro verdict_frame [OF ver]) (use pendingI in auto)
  qed
qed

lemma verdict_machine:
  "match_sort srt \<Longrightarrow> inductive_invariant sys_init (sys_step grow srt) (\<lambda>s. sys_inv grow s \<and> verdict_inv s)"
proof (unfold_locales, goal_cases)
  case (1 s)
  then show ?case using sys_inv_init by (auto simp: verdict_inv_def pending_def sys_init_def sys_start_def NewPool_def no_chans_def)
next
  case (2 s t)
  then show ?case using sys_step_inv verdict_step by blast
qed

end
