(* ===== verification/Nexus_Composition.thy ===== *)
theory Nexus_Composition
  imports Nexus_System_Verdict
begin

text \<open>
  What holds of the whole server in every reachable state: \<open>runs\<close> says that a state is reached from an
  empty server, for every growth of slices and every sorter that keeps its contract. The invariants of
  \<open>Nexus_System\<close> and \<open>Nexus_System_Verdict\<close> give the properties; each room and each stream is in a
  reachable state of its own machine, so the properties of \<open>Nexus_ReadyCheck\<close> and \<open>Nexus_Gateway\<close> hold
  of it. The tick of \<open>Nexus_Matchmaker\<close> is a run of the steps here.
\<close>

section \<open>Runs\<close>

abbreviation runs :: "(nat \<Rightarrow> nat \<Rightarrow> nat) \<Rightarrow> match_sorter \<Rightarrow> System \<Rightarrow> bool" where
  "runs grow srt \<equiv> reachable sys_init (sys_step grow srt)"

lemma runs_inv:
  assumes "match_sort srt" "runs grow srt s"
  shows "sys_inv grow s" "verdict_inv s"
  using inductive_invariant.reachable_inv [OF verdict_machine [OF assms(1)] assms(2)] by simp_all

lemma runs_start: "runs grow srt sys_start"
  by (rule reachable.start) (simp add: sys_init_def)

section \<open>Rooms, sessions and results\<close>

lemma session_room:
  assumes inv: "sys_inv grow s" and t: "GetSession sid (sy_sessions s) = Some t"
  obtains k rp where "sy_rooms s k = Some rp" "rm_session (rp_room rp) = sid" "confirmed (rp_co rp)"
    and "PlayerIDs t = map PlayerID (rm_players (rp_room rp))"
    and "\<And>i. i < 10 \<Longrightarrow> (rp_resp rp i, True) \<in> snd ` set (sy_log s)"
proof -
  have "\<not> fresh_id sid s" using base_facts(7) [OF sys_facts(1) [OF inv], of sid] t by simp
  then obtain k rp where k: "sy_rooms s k = Some rp" and sid: "rm_session (rp_room rp) = sid"
    by (auto simp: fresh_id_def)
  note r = sys_facts(4) [OF inv k]
  from agreement [OF room_view_reachable [OF r]] t sid
  have "confirmed (rp_co rp)" "PlayerIDs t = map PlayerID (rm_players (rp_room rp))"
    "\<forall>i < length (rm_players (rp_room rp)). (rp_resp rp i, True) \<in> set (map snd (sy_log s))"
    by (simp_all add: room_view_def confirmed_def)
  then show thesis using that [OF k sid] room_shape(2) [OF r] by simp
qed

lemma confirmed_session:
  assumes inv: "sys_inv grow s" and k: "sy_rooms s k = Some rp" and c: "confirmed (rp_co rp)"
  obtains t where "GetSession (rm_session (rp_room rp)) (sy_sessions s) = Some t"
    and "PlayerIDs t = map PlayerID (rm_players (rp_room rp))"
proof -
  note r = sys_facts(4) [OF inv k]
  have "session_ok (rp_room rp) (room_view rp s)" using room_check [OF r] by (simp add: check_inv_def)
  then show thesis using that c unfolding session_ok_def by (auto simp: room_view_def confirmed_def)
qed

lemma room_done_results:
  assumes inv: "sys_inv grow s" and k: "sy_rooms s k = Some rp" and i: "i < 10"
    and fin: "co_at (rp_co rp) = Finished \<or> (\<exists>qs. co_at (rp_co rp) = Requeueing qs)"
  shows "published (sy_bools s) (rm_results (rp_room rp) ! i) (co_allAccepted (rp_co rp))"
proof -
  note r = sys_facts(4) [OF inv k]
  have "results_ok (rp_room rp) (rp_co rp) (sy_bools s)"
    using room_check [OF r] by (simp add: check_inv_def room_view_def)
  then show ?thesis
    using fin player_slot(6) [OF r i] by (auto simp: results_ok_def)
qed

lemma verdict_ready:
  assumes inv: "sys_inv grow s" and ver: "verdict_inv s" and st: "sy_streams s n = Some st" "gw_at st = Awaiting (rp_event rp i)"
    and k: "sy_rooms s k = Some rp" "i < 10"
    and fin: "co_at (rp_co rp) = Finished \<or> (\<exists>qs. co_at (rp_co rp) = Requeueing qs)"
  obtains B where "chan_recv (ResultCh (rp_event rp i)) (sy_bools s) = (Value (co_allAccepted (rp_co rp)), B)"
proof -
  have "pending s (ResultCh (rp_event rp i))" by (rule pendingI(3) [OF st(1)]) (simp add: minds_def st(2))
  then have "unread (sy_bools s) (ResultCh (rp_event rp i))" using ver by (simp add: verdict_inv_def)
  moreover have "published (sy_bools s) (ResultCh (rp_event rp i)) (co_allAccepted (rp_co rp))"
    using room_done_results [OF inv k fin] by simp
  ultimately obtain ch where "cells (sy_bools s) (ResultCh (rp_event rp i)) = Some ch" "ch_buf ch = [co_allAccepted (rp_co rp)]"
    by (auto simp: published_def unread_def)
  then show thesis using that by (simp add: chan_recv_def)
qed

text \<open>The response channel of a stream in its ready check is free: nobody has answered for it.\<close>

lemma checking_idle:
  assumes inv: "sys_inv grow s" and st: "sy_streams s n = Some st" "gw_at st = Checking evt"
  shows "idle (sy_bools s) (ResponseCh evt)"
proof -
  obtain rp i where i: "serves s (gw_qp st) rp i" "evt = rp_event rp i" "\<not> answered s (rp_resp rp i)"
    using stream_checking [OF sys_facts(6) [OF inv st(1)] st(2)] by metis
  obtain k where "room_inv grow s rp" "i < 10" using serves_room [OF inv i(1)] by metis
  from response_room [OF this i(3)] i(2) show ?thesis by simp
qed

section \<open>An uninterrupted tick\<close>

lemma sys_run_cons: "sys_step grow srt s t \<Longrightarrow> (sys_step grow srt)\<^sup>*\<^sup>* t u \<Longrightarrow> (sys_step grow srt)\<^sup>*\<^sup>* s u"
  by (rule converse_rtranclp_into_rtranclp)

lemma notify_run:
  assumes "sy_rooms s k = Some rp" "rp_told rp \<le> length (rm_players (rp_room rp))"
    and "length (rm_responses (rp_room rp)) = length (rm_players (rp_room rp))"
      "length (rm_results (rp_room rp)) = length (rm_players (rp_room rp))"
    and "notify_players (rm_session (rp_room rp)) (map PlayerID (rm_players (rp_room rp))) (rp_now rp)
       (drop (rp_told rp) (zip (rm_players (rp_room rp)) (zip (rm_responses (rp_room rp)) (rm_results (rp_room rp)))))
       (heap_of s) = Ret (H, missed)"
  shows "(sys_step grow srt)\<^sup>*\<^sup>* s (s\<lparr>sy_pool := (sy_pool s)\<lparr>match_heap := H\<rparr>,
     sy_rooms := (sy_rooms s)(k \<mapsto> rp\<lparr>rp_told := length (rm_players (rp_room rp))\<rparr>), sy_missed := sy_missed s @ missed\<rparr>)"
  using assms
proof (induction "length (rm_players (rp_room rp)) - rp_told rp" arbitrary: s rp missed)
  case 0
  then have n: "rp_told rp = length (rm_players (rp_room rp))" by simp
  then have H: "H = heap_of s" and m: "missed = []" using 0(6) by simp_all
  have eq: "s\<lparr>sy_pool := (sy_pool s)\<lparr>match_heap := heap_of s\<rparr>,
     sy_rooms := (sy_rooms s)(k \<mapsto> rp\<lparr>rp_told := length (rm_players (rp_room rp))\<rparr>), sy_missed := sy_missed s @ []\<rparr> = s"
    using 0(2) n by (simp add: fun_upd_idem)
  show ?case unfolding H m eq by (rule rtranclp.rtrancl_refl)
next
  case (Suc d)
  let ?r = "rp_room rp" and ?i = "rp_told rp"
  have i: "?i < length (rm_players ?r)" using Suc(2) by simp
  let ?z = "zip (rm_players ?r) (zip (rm_responses ?r) (rm_results ?r))"
  have "?i < length ?z" using i Suc(5,6) by simp
  then have "drop ?i ?z = ?z ! ?i # drop (Suc ?i) ?z" by (rule Cons_nth_drop_Suc [symmetric])
  moreover have "?z ! ?i = (rp_player rp ?i, rp_resp rp ?i, rm_results ?r ! ?i)" using i Suc(5,6) by (simp add: rp_player_def)
  ultimately obtain sent H1 missed1 where
    send: "chan_try_send (MatchCh (rp_player rp ?i)) (rp_event rp ?i) (heap_of s) = Ret (sent, H1)"
    and rest: "notify_players (rm_session ?r) (map PlayerID (rm_players ?r)) (rp_now rp) (drop (Suc ?i) ?z) H1 = Ret (H, missed1)"
    and missed: "missed = (if sent then missed1 else PlayerID (rp_player rp ?i) # missed1)"
    using Suc(7) by (auto simp: rp_event_def room_event_def)
  let ?m = "if sent then [] else [PlayerID (rp_player rp ?i)]"
  let ?rp = "rp\<lparr>rp_told := Suc ?i\<rparr>"
  let ?s = "s\<lparr>sy_pool := (sy_pool s)\<lparr>match_heap := H1\<rparr>, sy_rooms := (sy_rooms s)(k \<mapsto> ?rp), sy_missed := sy_missed s @ ?m\<rparr>"
  have "notify_next rp (heap_of s) = Some (Ret (?rp, H1, ?m))" using i send by (simp add: notify_next_def)
  then have step: "sys_step grow srt s ?s" by (rule sys_step.notifies [OF Suc(3)])
  have "(sys_step grow srt)\<^sup>*\<^sup>* ?s (?s\<lparr>sy_pool := (sy_pool ?s)\<lparr>match_heap := H\<rparr>,
     sy_rooms := (sy_rooms ?s)(k \<mapsto> ?rp\<lparr>rp_told := length (rm_players (rp_room ?rp))\<rparr>), sy_missed := sy_missed ?s @ missed1\<rparr>)"
    by (rule Suc(1)) (use Suc(2,5,6) i rest in simp_all)
  moreover have "sy_missed s @ ?m @ missed1 = sy_missed s @ missed" using missed by simp
  ultimately show ?case
    by (intro sys_run_cons [OF step]) simp
qed

text \<open>The rooms of \<open>t\<close> are those of \<open>s\<close>, unchanged, and new ones that have just been launched.\<close>

definition just_launched :: "Room \<Rightarrow> RoomProc \<Rightarrow> bool" where
  "just_launched r rp \<longleftrightarrow> rp_told rp = 10 \<and> rp_launched rp \<and> rp_co rp = launch r"

definition launched_rooms :: "System \<Rightarrow> Room list \<Rightarrow> System \<Rightarrow> bool" where
  "launched_rooms s rooms t \<longleftrightarrow> (\<forall>k rp. sy_rooms s k = Some rp \<longrightarrow> sy_rooms t k = Some rp)
     \<and> (\<forall>k rp. sy_rooms t k = Some rp \<longrightarrow> sy_rooms s k = Some rp \<or> (\<exists>r \<in> set rooms. just_launched r rp))
     \<and> (\<forall>r \<in> set rooms. \<exists>k rp. sy_rooms s k = None \<and> sy_rooms t k = Some rp \<and> just_launched r rp)"

lemma launched_rooms_Cons:
  assumes "launched_rooms s1 rooms t" "sy_rooms s1 = (sy_rooms s)(k \<mapsto> rp)" "sy_rooms s k = None" "just_launched r rp"
  shows "launched_rooms s (r # rooms) t"
proof -
  note l = assms(1) [unfolded launched_rooms_def]
  have k: "sy_rooms t k = Some rp" using l assms(2) by simp
  have old: "sy_rooms t k' = Some x" if "sy_rooms s k' = Some x" for k' x
    using l assms(2,3) that by (cases "k' = k") auto
  have origin: "sy_rooms s k' = Some x \<or> (\<exists>r' \<in> set (r # rooms). just_launched r' x)" if x: "sy_rooms t k' = Some x" for k' x
  proof (cases "k' = k")
    case True
    then show ?thesis using k x assms(4) by simp
  next
    case False
    have "sy_rooms s1 k' = Some x \<or> (\<exists>r' \<in> set rooms. just_launched r' x)" using l x by blast
    then show ?thesis using False assms(2) by auto
  qed
  have new: "\<exists>k' x. sy_rooms s k' = None \<and> sy_rooms t k' = Some x \<and> just_launched r' x" if r': "r' \<in> set rooms" for r'
  proof -
    obtain k' x where "sy_rooms s1 k' = None" "sy_rooms t k' = Some x" "just_launched r' x" using l r' by blast
    then show ?thesis using assms(2) by (auto split: if_splits)
  qed
  show ?thesis
    unfolding launched_rooms_def
  proof (intro conjI allI impI ballI)
    show "sy_rooms t k' = Some x" if "sy_rooms s k' = Some x" for k' x using that by (rule old)
    show "sy_rooms s k' = Some x \<or> (\<exists>r' \<in> set (r # rooms). just_launched r' x)" if "sy_rooms t k' = Some x" for k' x
      using that by (rule origin)
    fix r'
    assume "r' \<in> set (r # rooms)"
    then consider "r' = r" | "r' \<in> set rooms" by auto
    then show "\<exists>k' x. sy_rooms s k' = None \<and> sy_rooms t k' = Some x \<and> just_launched r' x"
      by cases (use k assms(3,4) new in blast)+
  qed
qed

lemma room_turn:
  assumes srt: "match_sort srt" and inv: "sys_inv grow s" and k: "sy_rooms s k = None"
    and ks: "covers ks (brackets (sy_pool s))" and ex: "ExtractMatch srt ks t0 (sy_pool s) = (p, Some qs)"
    and sid: "fresh_id sid s" and mk: "make_channels (length qs) (sy_bools s) = (B, rs, ss)"
    and told: "notify_players sid (map PlayerID qs) now (zip qs (zip rs ss)) (match_heap p) = Ret (H, missed)"
  shows "(sys_step grow srt)\<^sup>*\<^sup>* s (s\<lparr>sy_pool := p\<lparr>match_heap := H\<rparr>, sy_bools := B, sy_missed := sy_missed s @ missed,
     sy_created := sy_created s + 1, sy_rooms := (sy_rooms s)(k \<mapsto> \<lparr>rp_now = now, rp_told = 10, rp_launched = True,
       rp_co = launch \<lparr>rm_session = sid, rm_players = qs, rm_responses = rs, rm_results = ss\<rparr>\<rparr>)\<rparr>)"
proof -
  let ?r = "\<lparr>rm_session = sid, rm_players = qs, rm_responses = rs, rm_results = ss\<rparr>"
  let ?rp = "\<lparr>rp_now = now, rp_told = 0, rp_launched = False, rp_co = launch ?r\<rparr>"
  let ?s1 = "s\<lparr>sy_pool := p, sy_bools := B, sy_rooms := (sy_rooms s)(k \<mapsto> ?rp)\<rparr>"
  note b = base_facts [OF sys_facts(1) [OF inv]]
  have n: "length qs = 10" using match_sort.extract_success [OF srt b(8) ks ex] by (simp add: PlayersPerMatch_def)
  have len: "length rs = 10" "length ss = 10" using make_channels_spec [OF b(2) mk] n by simp_all
  have "open_room sid now qs (sy_bools s) = (B, ?rp)" using mk by (simp add: open_room_def)
  then have s1: "sys_step grow srt s ?s1" by (rule sys_step.extracts [OF ex ks sid k])
  let ?rp2 = "?rp\<lparr>rp_told := 10\<rparr>"
  let ?s2 = "?s1\<lparr>sy_pool := (sy_pool ?s1)\<lparr>match_heap := H\<rparr>, sy_rooms := (sy_rooms ?s1)(k \<mapsto> ?rp2), sy_missed := sy_missed ?s1 @ missed\<rparr>"
  have "(sys_step grow srt)\<^sup>*\<^sup>* ?s1 ?s2"
    using notify_run [of ?s1 k ?rp H missed grow srt] told n len by (simp add: launch_def)
  then have "(sys_step grow srt)\<^sup>*\<^sup>* s ?s2" by (rule sys_run_cons [OF s1])
  moreover have "sys_step grow srt ?s2 (?s2\<lparr>sy_rooms := (sy_rooms ?s2)(k \<mapsto> ?rp2\<lparr>rp_launched := True\<rparr>), sy_created := sy_created ?s2 + 1\<rparr>)"
    by (rule sys_step.launches [of ?s2 k ?rp2]) (simp_all add: launch_next_def launch_def n)
  ultimately have run: "(sys_step grow srt)\<^sup>*\<^sup>* s (?s2\<lparr>sy_rooms := (sy_rooms ?s2)(k \<mapsto> ?rp2\<lparr>rp_launched := True\<rparr>),
      sy_created := sy_created ?s2 + 1\<rparr>)"
    by (rule rtranclp.rtrancl_into_rtrancl)
  then show ?thesis by (rule back_subst) simp
qed

lemma sys_run_inv:
  assumes "match_sort srt" "(sys_step grow srt)\<^sup>*\<^sup>* s t" "sys_inv grow s"
  shows "sys_inv grow t"
  using assms(2,3) by (induction rule: rtranclp_induct) (use sys_step_inv [OF assms(1)] in blast)+

lemma runs_trans:
  assumes "runs grow srt s" "(sys_step grow srt)\<^sup>*\<^sup>* s t"
  shows "runs grow srt t"
  by (rule reachable_steps [OF assms(2,1)])

lemma finite_dom_if: "finite (dom m) \<Longrightarrow> finite (dom (\<lambda>a. if a = k then Some v else m a))"
  by (rule finite_subset [of _ "insert k (dom m)"]) (auto split: if_splits)

lemma runs_finite:
  assumes "runs grow srt s"
  shows "finite (dom (sy_rooms s)) \<and> finite (dom (sy_streams s))"
  using assms
proof (induction rule: reachable.induct)
  case (start s)
  then show ?case by (simp add: sys_init_def sys_start_def)
next
  case (move s t)
  from move(2) show ?case by (cases rule: sys_step.cases) (use move.IH in \<open>auto simp: finite_dom_if\<close>)
qed

lemma later_trans: "later x y \<Longrightarrow> later y z \<Longrightarrow> later x z"
  by (auto simp: later_def)

lemma rooms_later_trans: "rooms_later s t \<Longrightarrow> rooms_later t u \<Longrightarrow> rooms_later s u"
  unfolding rooms_later_def using later_trans by metis

lemma tick_run:
  assumes srt: "match_sort srt"
  shows "sys_inv grow s \<Longrightarrow> finite (dom (sy_rooms s)) \<Longrightarrow> inj (te_uuid \<circ> env)
    \<Longrightarrow> (\<And>m. n \<le> m \<Longrightarrow> fresh_id (te_uuid (env m)) s) \<Longrightarrow> (\<And>m. covers (te_keys (env m)) (brackets (sy_pool s)))
    \<Longrightarrow> srv_pool srv = sy_pool s \<Longrightarrow> srv_bools srv = sy_bools s \<Longrightarrow> matchesCreated srv = sy_created s
    \<Longrightarrow> \<exists>t srv' rooms. tick srt env n srv = Some (Ret srv') \<and> coordinators srv' = coordinators srv @ rooms
      \<and> (sys_step grow srt)\<^sup>*\<^sup>* s t \<and> sy_pool t = srv_pool srv' \<and> sy_bools t = srv_bools srv' \<and> sy_sessions t = sy_sessions s
      \<and> sy_streams t = sy_streams s \<and> sy_log t = sy_log s \<and> sy_created t = matchesCreated srv' \<and> launched_rooms s rooms t"
proof (induction "Size (sy_pool s)" arbitrary: n s srv rule: less_induct)
  case less
  note b = base_facts [OF sys_facts(1) [OF less(2)]]
  have ks: "covers (te_keys (env n)) (brackets (sy_pool s))" by (rule less.prems(5))
  obtain p sel where ex: "ExtractMatch srt (te_keys (env n)) (te_extract (env n)) (sy_pool s) = (p, sel)" by fastforce
  show ?case
  proof (cases sel)
    case None
    then have p: "p = sy_pool s" using match_sort.extract_failure [OF srt b(8) ks] ex by blast
    have "tick srt env n srv = Some (Ret (srv\<lparr>srv_pool := sy_pool s\<rparr>))"
      using ex None p less.prems(6) by (simp add: tick.simps)
    then show ?thesis
      using less.prems(6-8)
      by (intro exI [of _ s] exI [of _ "srv\<lparr>srv_pool := sy_pool s\<rparr>"] exI [of _ "[]"])
        (simp add: launched_rooms_def)
  next
    case (Some qs)
    let ?sid = "te_uuid (env n)" and ?now = "te_now (env n)"
    note x = match_sort.extract_success [OF srt b(8) ks ex [unfolded Some]]
    have qs: "length qs = 10" "distinct (map PlayerID qs)" "set qs \<subseteq> queued (sy_pool s)" "pool_inv p"
      "match_heap p = heap_of s" "queued p = queued (sy_pool s) - set qs" "Size p + 10 = Size (sy_pool s)"
      using x by (simp_all add: PlayersPerMatch_def)
    obtain srv1 r where one: "start_ready_check ?sid ?now qs (srv\<lparr>srv_pool := p\<rparr>) = Ret srv1"
      using start_ready_check_spec [of "sy_pool s" "srv\<lparr>srv_pool := p\<rparr>" qs ?sid ?now] b(1,2) qs less.prems(7) by simp metis
    obtain B rs ss where mk: "make_channels (length qs) (sy_bools s) = (B, rs, ss)" by (metis prod_cases3)
    let ?r = "\<lparr>rm_session = ?sid, rm_players = qs, rm_responses = rs, rm_results = ss\<rparr>"
    obtain H missed where told: "notify_players ?sid (map PlayerID qs) ?now (zip qs (zip rs ss)) (match_heap p) = Ret (H, missed)"
      and srv1: "srv_pool srv1 = p\<lparr>match_heap := H\<rparr>" "srv_bools srv1 = B" "coordinators srv1 = coordinators srv @ [?r]"
        "matchesCreated srv1 = matchesCreated srv + 1"
      using one mk less.prems(7) by (auto simp: start_ready_check_def Let_def split: prod.splits)
    obtain k where k: "sy_rooms s k = None"
      using ex_new_if_finite [OF infinite_UNIV_nat less.prems(2)] by blast
    let ?rp = "\<lparr>rp_now = ?now, rp_told = 10, rp_launched = True, rp_co = launch ?r\<rparr>"
    define s1 where "s1 = s\<lparr>sy_pool := p\<lparr>match_heap := H\<rparr>, sy_bools := B, sy_missed := sy_missed s @ missed,
       sy_created := sy_created s + 1, sy_rooms := (sy_rooms s)(k \<mapsto> ?rp)\<rparr>"
    have run: "(sys_step grow srt)\<^sup>*\<^sup>* s s1"
      unfolding s1_def
      by (rule room_turn [OF srt less.prems(1) k ks ex [unfolded Some] less.prems(4) [OF order_refl] mk told])
    have inv1: "sys_inv grow s1" by (rule sys_run_inv [OF srt run less.prems(1)])
    have size: "Size (sy_pool s1) < Size (sy_pool s)" using qs(7) by (simp add: s1_def Size_def)
    have "\<exists>t srv' rooms. tick srt env (Suc n) srv1 = Some (Ret srv') \<and> coordinators srv' = coordinators srv1 @ rooms
      \<and> (sys_step grow srt)\<^sup>*\<^sup>* s1 t \<and> sy_pool t = srv_pool srv' \<and> sy_bools t = srv_bools srv' \<and> sy_sessions t = sy_sessions s1
      \<and> sy_streams t = sy_streams s1 \<and> sy_log t = sy_log s1 \<and> sy_created t = matchesCreated srv' \<and> launched_rooms s1 rooms t"
    proof (rule less.hyps [OF size inv1 _ less.prems(3)])
      show "fresh_id (te_uuid (env m)) s1" if "Suc n \<le> m" for m
      proof -
        have "te_uuid (env m) \<noteq> ?sid" using injD [OF less.prems(3), of m n] that by auto
        then show ?thesis using less.prems(4) [of m] that by (auto simp: fresh_id_def s1_def launch_def)
      qed
      show "covers (te_keys (env m)) (brackets (sy_pool s1))" for m
        using covers_mono [OF b(8) qs(4) _ less.prems(5)] qs(6) by (simp add: s1_def)
    qed (use less.prems(2,8) srv1 in \<open>simp_all add: s1_def\<close>)
    then obtain t srv' rooms where t: "tick srt env (Suc n) srv1 = Some (Ret srv')" "coordinators srv' = coordinators srv1 @ rooms"
      "(sys_step grow srt)\<^sup>*\<^sup>* s1 t" "sy_pool t = srv_pool srv'" "sy_bools t = srv_bools srv'" "sy_sessions t = sy_sessions s1"
      "sy_streams t = sy_streams s1" "sy_log t = sy_log s1" "sy_created t = matchesCreated srv'" "launched_rooms s1 rooms t"
      by metis
    have "tick srt env n srv = Some (Ret srv')"
      using ex Some one t(1) less.prems(6) by (simp add: tick.simps [of srt env n srv])
    moreover have "coordinators srv' = coordinators srv @ ?r # rooms" using t(2) srv1(3) by simp
    moreover have "(sys_step grow srt)\<^sup>*\<^sup>* s t" using run t(3) by (rule rtranclp_trans)
    moreover have "launched_rooms s (?r # rooms) t"
      by (rule launched_rooms_Cons [OF t(10), of _ k ?rp]) (simp_all add: s1_def k just_launched_def)
    ultimately show ?thesis using t(4-9) by (intro exI [of _ t] exI [of _ srv'] exI [of _ "?r # rooms"]) (simp add: s1_def)
  qed
qed

section \<open>The type of a state\<close>

text \<open>What a client may be sent, whatever happens.\<close>

definition response_typed :: "GatewayResponse \<Rightarrow> bool" where
  "response_typed resp \<longleftrightarrow>
     gr_Status resp \<in> {QUEUE_STATUS_WAITING, QUEUE_STATUS_READY_CHECK, QUEUE_STATUS_CANCELLED, QUEUE_STATUS_IN_GAME}
   \<and> (gr_Match resp \<noteq> None \<longleftrightarrow> gr_Status resp \<in> {QUEUE_STATUS_READY_CHECK, QUEUE_STATUS_IN_GAME})
   \<and> (gr_QueuePosition resp \<noteq> 0 \<longrightarrow> gr_Status resp = QUEUE_STATUS_WAITING) \<and> gr_Message resp \<noteq> []"

lemma response_typed_all:
  "response_typed (joined_response now)" "response_typed (check_response now evt)" "response_typed (game_response now evt)"
  "response_typed (requeued_response now)" "response_typed (ticker_response now n)"
  "msg \<noteq> [] \<Longrightarrow> response_typed (cancelled_response now msg)"
  by (simp_all add: response_typed_def response_defs)

lemma typed_step:
  assumes "gw_step sent s t" "\<forall>resp \<in> set (gw_sent (g_stream s)). response_typed resp"
  shows "\<forall>resp \<in> set (gw_sent (g_stream t)). response_typed resp"
  using assms
  by (cases rule: gw_step.cases)
    (auto simp: reader_turn_def on_match_def on_ticker_def on_cancel_def on_client_done_def on_ctx_done_def check_accepted_def
      check_refused_def on_verdict_def deferred_dequeue_def pushed_def response_typed_all
      split: option.splits if_splits prod.splits received.splits list.splits outcome.splits gw_pc.splits bool.splits)

lemma typed_reachable:
  "reachable gate_init gate_step g \<Longrightarrow> \<forall>resp \<in> set (gw_sent (g_stream g)). response_typed resp"
proof (induction rule: reachable.induct)
  case (start s)
  then obtain now ok qp where "g_stream s = fresh_stream now ok qp" using EnterMatchmaking_Inr by (metis gate_init_def)
  then show ?case by (simp add: fresh_stream_def pushed_def response_typed_all)
next
  case (move s t)
  from move(2,3) show ?case by (cases rule: gate_step.cases) (auto dest: typed_step)
qed

end
