(* ===== verification/Nexus_Progress.thy ===== *)
theory Nexus_Progress
  imports Nexus_Composition
begin

text \<open>
  Nothing waits for ever: from every reachable state, a room can be brought to its end by its own steps
  and the passing of its deadline, and a stream by its own steps and the end of its context; only a
  stream that waits for a verdict needs its room for that.
\<close>

section \<open>A ready check can always end\<close>

lemma co_step_done: "co_step grow v w \<Longrightarrow> co_done (ck_co v) \<Longrightarrow> co_done (ck_co w)"
  by (erule co_stepE)
    (auto simp: co_defs split: if_splits list.splits prod.splits received.splits co_pc.splits option.splits outcome.splits)

lemma coordinates_later:
  assumes inv: "sys_inv grow s" and k: "sy_rooms s k = Some rp" and step: "co_step grow (room_view rp s) c"
  shows "later rp (rp\<lparr>rp_co := ck_co c\<rparr>)"
proof -
  note r = sys_facts(4) [OF inv k]
  have v: "ck_co (room_view rp s) = rp_co rp" by (simp add: room_view_def)
  note cl = co_step_claims [OF step, unfolded v, OF room_shape(5) [OF r] proc_requeueing [OF room_proc [OF r]]]
  show ?thesis using co_step_room [OF step] cl by (simp add: later_def room_view_def)
qed

text \<open>A room that has been opened is told to all its players and launched; the streams do not move.\<close>

lemma room_told:
  assumes srt: "match_sort srt"
  shows "runs grow srt s \<Longrightarrow> sy_rooms s k = Some rp
    \<Longrightarrow> \<exists>t rp'. (sys_step grow srt)\<^sup>*\<^sup>* s t \<and> sy_rooms t k = Some rp' \<and> rp_told rp' = length (rm_players (rp_room rp'))
      \<and> later rp rp' \<and> sy_streams t = sy_streams s"
proof (induction "length (rm_players (rp_room rp)) - rp_told rp" arbitrary: s rp)
  case 0
  have "rp_told rp = length (rm_players (rp_room rp))"
    using 0(1) room_proc [OF sys_facts(4) [OF runs_inv(1) [OF srt 0(2)] 0(3)]] by (simp add: proc_ok_def)
  then show ?case using 0(3) by (intro exI [of _ s] exI [of _ rp]) simp
next
  case (Suc d)
  have i: "rp_told rp < length (rm_players (rp_room rp))" using Suc(2) by simp
  obtain H where "chan_try_send (MatchCh (rp_player rp (rp_told rp))) (rp_event rp (rp_told rp)) (heap_of s) = Ret (True, H)"
    using notify_turn [OF runs_inv(1) [OF srt Suc(3)] Suc(4) i] by metis
  then have "notify_next rp (heap_of s) = Some (Ret (rp\<lparr>rp_told := Suc (rp_told rp)\<rparr>, H, []))"
    using i by (simp add: notify_next_def)
  from sys_step.notifies [OF Suc(4) this, of grow srt]
  have step: "sys_step grow srt s (s\<lparr>sy_pool := (sy_pool s)\<lparr>match_heap := H\<rparr>,
      sy_rooms := (sy_rooms s)(k \<mapsto> rp\<lparr>rp_told := Suc (rp_told rp)\<rparr>)\<rparr>)" (is "sys_step grow srt s ?s") by simp
  have "runs grow srt ?s" by (rule reachable.move [OF Suc(3) step])
  have "d = length (rm_players (rp_room (rp\<lparr>rp_told := Suc (rp_told rp)\<rparr>))) - rp_told (rp\<lparr>rp_told := Suc (rp_told rp)\<rparr>)"
    using Suc(2) by simp
  from Suc(1) [OF this \<open>runs grow srt ?s\<close>]
  obtain t rp' where t: "(sys_step grow srt)\<^sup>*\<^sup>* ?s t" "sy_rooms t k = Some rp'" "rp_told rp' = length (rm_players (rp_room rp'))"
      "later (rp\<lparr>rp_told := Suc (rp_told rp)\<rparr>) rp'" "sy_streams t = sy_streams s" by auto
  have "later rp (rp\<lparr>rp_told := Suc (rp_told rp)\<rparr>)" by (simp add: later_def)
  from later_trans [OF this t(4)] sys_run_cons [OF step t(1)] t(2,3,5) show ?case by blast
qed

lemma room_launched:
  assumes srt: "match_sort srt" and run: "runs grow srt s" and k: "sy_rooms s k = Some rp"
  obtains t rp' where "(sys_step grow srt)\<^sup>*\<^sup>* s t" "sy_rooms t k = Some rp'" "rp_launched rp'" "later rp rp'"
    and "sy_streams t = sy_streams s"
proof -
  obtain t rp' where t: "(sys_step grow srt)\<^sup>*\<^sup>* s t" "sy_rooms t k = Some rp'" "rp_told rp' = length (rm_players (rp_room rp'))"
    "later rp rp'" "sy_streams t = sy_streams s"
    using room_told [OF srt run k] by blast
  show thesis
  proof (cases "rp_launched rp'")
    case True
    show thesis by (rule that [OF t(1,2) True t(4,5)])
  next
    case False
    then have "launch_next rp' = Some (rp'\<lparr>rp_launched := True\<rparr>)" using t(3) by (simp add: launch_next_def)
    from sys_step.launches [OF t(2) this, of grow srt]
    have "(sys_step grow srt)\<^sup>*\<^sup>* s (t\<lparr>sy_rooms := (sy_rooms t)(k \<mapsto> rp'\<lparr>rp_launched := True\<rparr>), sy_created := sy_created t + 1\<rparr>)"
      using t(1) by (rule rtranclp.rtrancl_into_rtrancl [rotated])
    then show thesis by (rule that [of _ "rp'\<lparr>rp_launched := True\<rparr>"]) (use t(4,5) in \<open>simp_all add: later_def\<close>)
  qed
qed

text \<open>With the deadline passed, the coordinator's own steps bring it to its end.\<close>

lemma room_settles:
  assumes srt: "match_sort srt"
  shows "runs grow srt s \<Longrightarrow> sy_rooms s k = Some rp \<Longrightarrow> rp_launched rp \<Longrightarrow> co_done (rp_co rp)
    \<Longrightarrow> \<exists>t rp'. (sys_step grow srt)\<^sup>*\<^sup>* s t \<and> sy_rooms t k = Some rp' \<and> co_at (rp_co rp') = Finished
      \<and> later rp rp' \<and> sy_streams t = sy_streams s"
proof (induction "co_work (rp_co rp)" arbitrary: s rp rule: less_induct)
  case less
  show ?case
  proof (cases "co_at (rp_co rp) = Finished")
    case True
    then show ?thesis using less.prems(2) by (intro exI [of _ s] exI [of _ rp]) simp
  next
    case False
    have inv: "sys_inv grow s" by (rule runs_inv [OF srt less.prems(1)])
    have chk: "check_inv (rp_room rp) (room_view rp s)" by (rule room_check [OF sys_facts(4) [OF inv less.prems(2)]])
    have v: "ck_co (room_view rp s) = rp_co rp" by (simp add: room_view_def)
    obtain c where c: "co_step grow (room_view rp s) c"
      using co_step_enabled [OF chk] False less.prems(4) v by auto
    let ?t = "s\<lparr>sy_pool := ck_pool c, sy_sessions := ck_sessions c, sy_bools := ck_bools c,
           sy_rooms := (sy_rooms s)(k \<mapsto> rp\<lparr>rp_co := ck_co c\<rparr>)\<rparr>"
    have step: "sys_step grow srt s ?t" by (rule sys_step.coordinates [OF less.prems(2,3) c])
    have run: "runs grow srt ?t" by (rule reachable.move [OF less.prems(1) step])
    have work: "co_work (ck_co c) < co_work (rp_co rp)"
      using co_work_step [OF _ c, of "rp_room rp"] chk v by (simp add: check_inv_def)
    have l: "later rp (rp\<lparr>rp_co := ck_co c\<rparr>)" by (rule coordinates_later [OF inv less.prems(2) c])
    have d: "co_done (ck_co c)" using co_step_done [OF c] less.prems(4) v by simp
    from less.hyps [OF _ run, of "rp\<lparr>rp_co := ck_co c\<rparr>"] work less.prems(3) d
    obtain t rp' where t: "(sys_step grow srt)\<^sup>*\<^sup>* ?t t" "sy_rooms t k = Some rp'" "co_at (rp_co rp') = Finished"
      "later (rp\<lparr>rp_co := ck_co c\<rparr>) rp'" "sy_streams t = sy_streams s" by auto
    from sys_run_cons [OF step t(1)] later_trans [OF l t(4)] t(2,3,5) show ?thesis by blast
  qed
qed

lemma verdict_possible:
  assumes srt: "match_sort srt" and run: "runs grow srt s" and k: "sy_rooms s k = Some rp"
  obtains t rp' where "runs grow srt t" "(sys_step grow srt)\<^sup>*\<^sup>* s t" "sy_rooms t k = Some rp'" "co_at (rp_co rp') = Finished"
    and "later rp rp'" "sy_streams t = sy_streams s"
proof -
  obtain t rp' where t: "(sys_step grow srt)\<^sup>*\<^sup>* s t" "sy_rooms t k = Some rp'" "rp_launched rp'" "later rp rp'"
    "sy_streams t = sy_streams s" by (rule room_launched [OF srt run k])
  let ?rp = "rp'\<lparr>rp_co := deadline (rp_co rp')\<rparr>"
  let ?u = "t\<lparr>sy_rooms := (sy_rooms t)(k \<mapsto> ?rp)\<rparr>"
  have u: "(sys_step grow srt)\<^sup>*\<^sup>* s ?u"
    using t(1) sys_step.expires [OF t(2,3)] by (rule rtranclp.rtrancl_into_rtrancl)
  have l: "later rp' ?rp" by (simp add: later_def deadline_def claims_def confirmed_def accepters_def split: co_pc.split)
  obtain w rp'' where w: "(sys_step grow srt)\<^sup>*\<^sup>* ?u w" "sy_rooms w k = Some rp''" "co_at (rp_co rp'') = Finished"
    "later ?rp rp''" "sy_streams w = sy_streams ?u"
    using room_settles [OF srt runs_trans [OF run u], of k ?rp] t(3) by (auto simp: deadline_def)
  have sw: "(sys_step grow srt)\<^sup>*\<^sup>* s w" using u w(1) by (rule rtranclp_trans)
  show thesis
    by (rule that [OF runs_trans [OF run sw] sw w(2,3)]) (use later_trans [OF t(4) later_trans [OF l w(4)]] w(5) t(5) in simp_all)
qed

section \<open>A stream can always end\<close>

lemma stream_step:
  assumes "sy_streams s n = Some st" "gw_step sent (stream_view st s) g"
  shows "sys_step grow srt s (stream_next n g sent s)"
  unfolding stream_next_def by (rule sys_step.streams [OF assms])

text \<open>
  On its way out, and with its context ended, a stream needs nobody: it takes its id out of the pool if
  it is there, and returns.
\<close>

lemma returning_leaves:
  assumes "pool_inv (sy_pool s)" and st: "sy_streams s n = Some st" and at: "gw_at st = Returning err"
  obtains t where "sys_step grow srt s t" "sy_streams t = (sy_streams s)(n \<mapsto> st\<lparr>gw_at := Returned err\<rparr>)"
    and "sy_rooms t = sy_rooms s" "sy_pool t = fst (Dequeue (PlayerID (gw_qp st)) (sy_pool s))"
proof -
  obtain p c where d: "Dequeue (PlayerID (gw_qp st)) (sy_pool s) = (p, Ret c)"
    using pool_queue.leave_total [OF assms(1)] by metis
  let ?g = "(stream_view st s)\<lparr>g_stream := st\<lparr>gw_at := Returned err\<rparr>, g_pool := p\<rparr>"
  have "deferred_dequeue st (sy_pool s) = Some (Ret (st\<lparr>gw_at := Returned err\<rparr>, p))"
    using d at by (simp add: deferred_dequeue_def)
  then have "gw_step [] (stream_view st s) ?g" by (intro gw_step.returned) (simp add: stream_view_def)
  then have "sys_step grow srt s (stream_next n ?g [] s)" by (rule stream_step [OF st])
  then show thesis by (rule that) (use d in simp_all)
qed

lemma selecting_leaves:
  assumes "pool_inv (sy_pool s)" and st: "sy_streams s n = Some st" and at: "gw_at st = Selecting"
  obtains st' t where "(sys_step grow srt)\<^sup>*\<^sup>* s t" "sy_streams t = (sy_streams s)(n \<mapsto> st')" "gw_qp st' = gw_qp st"
    and "gw_at st' = Returned (Some DeadlineExceeded)" "sy_rooms t = sy_rooms s"
    and "sy_pool t = fst (Dequeue (PlayerID (gw_qp st)) (sy_pool s))"
proof -
  let ?st = "st\<lparr>gw_ctxDone := True\<rparr>" and ?st2 = "st\<lparr>gw_ctxDone := True, gw_at := Returning (Some DeadlineExceeded)\<rparr>"
  let ?s = "stream_next n ((stream_view st s)\<lparr>g_stream := ?st\<rparr>) [] s"
  let ?s2 = "stream_next n ((stream_view ?st ?s)\<lparr>g_stream := ?st2\<rparr>) [] ?s"
  have "gw_step [] (stream_view st s) ((stream_view st s)\<lparr>g_stream := ?st\<rparr>)"
    using gw_step.ctx_ends [of "stream_view st s"] by (simp add: stream_view_def)
  then have one: "sys_step grow srt s ?s" by (rule stream_step [OF st])
  have "on_ctx_done ?st = Some ?st2" using at by (simp add: on_ctx_done_def)
  then have "gw_step [] (stream_view ?st ?s) ((stream_view ?st ?s)\<lparr>g_stream := ?st2\<rparr>)"
    by (intro gw_step.ctx_done) (simp add: stream_view_def)
  then have two: "sys_step grow srt ?s ?s2" by (intro stream_step) simp_all
  have "sy_pool ?s2 = sy_pool s" by (simp add: stream_view_def)
  then obtain t where t: "sys_step grow srt ?s2 t" "sy_streams t = (sy_streams ?s2)(n \<mapsto> ?st2\<lparr>gw_at := Returned (Some DeadlineExceeded)\<rparr>)"
    "sy_rooms t = sy_rooms ?s2" "sy_pool t = fst (Dequeue (PlayerID (gw_qp ?st2)) (sy_pool ?s2))"
    using returning_leaves [of ?s2 n ?st2 "Some DeadlineExceeded" grow srt] assms(1) by auto
  show thesis
    by (rule that [OF sys_run_cons [OF one sys_run_cons [OF two r_into_rtranclp [of "sys_step grow srt", OF t(1)]]],
          of "?st2\<lparr>gw_at := Returned (Some DeadlineExceeded)\<rparr>"])
      (use t(2-4) in \<open>simp_all add: stream_view_def\<close>)
qed

definition can_end :: "(nat \<Rightarrow> nat \<Rightarrow> nat) \<Rightarrow> match_sorter \<Rightarrow> nat \<Rightarrow> System \<Rightarrow> bool" where
  "can_end grow srt n s \<longleftrightarrow> (\<exists>t st err. (sys_step grow srt)\<^sup>*\<^sup>* s t \<and> sy_streams t n = Some st \<and> gw_at st = Returned err
     \<and> dom (sy_streams t) = dom (sy_streams s))"

lemma can_end_run:
  "(sys_step grow srt)\<^sup>*\<^sup>* s t \<Longrightarrow> can_end grow srt n t \<Longrightarrow> dom (sy_streams t) = dom (sy_streams s) \<Longrightarrow> can_end grow srt n s"
  unfolding can_end_def by (metis rtranclp_trans)

lemma can_end_step:
  assumes run: "runs grow srt s" and st: "sy_streams s n = Some st" and g: "gw_step sent (stream_view st s) g"
    and rest: "runs grow srt (stream_next n g sent s) \<Longrightarrow> sy_streams (stream_next n g sent s) n = Some (g_stream g)
      \<Longrightarrow> can_end grow srt n (stream_next n g sent s)"
  shows "can_end grow srt n s"
proof -
  note step = stream_step [OF st g, of grow srt]
  show ?thesis
  proof (rule can_end_run [OF r_into_rtranclp [of "sys_step grow srt", OF step]])
    show "can_end grow srt n (stream_next n g sent s)" using rest reachable.move [OF run step] by simp
  qed (use st in auto)
qed

lemma can_end_returning:
  assumes srt: "match_sort srt" and run: "runs grow srt s" and st: "sy_streams s n = Some st" and at: "gw_at st = Returning err"
  shows "can_end grow srt n s"
proof -
  note b = base_facts(8) [OF sys_facts(1) [OF runs_inv(1) [OF srt run]]]
  obtain t where "sys_step grow srt s t" "sy_streams t = (sy_streams s)(n \<mapsto> st\<lparr>gw_at := Returned err\<rparr>)"
    using returning_leaves [OF b st at] by metis
  then show ?thesis unfolding can_end_def
    by (intro exI [of _ t] exI [of _ "st\<lparr>gw_at := Returned err\<rparr>"] exI [of _ err] conjI r_into_rtranclp) (use st in auto)
qed

lemma can_end_selecting:
  assumes srt: "match_sort srt" and run: "runs grow srt s" and st: "sy_streams s n = Some st" and at: "gw_at st = Selecting"
  shows "can_end grow srt n s"
proof -
  note b = base_facts(8) [OF sys_facts(1) [OF runs_inv(1) [OF srt run]]]
  obtain t st' where "(sys_step grow srt)\<^sup>*\<^sup>* s t" "sy_streams t = (sy_streams s)(n \<mapsto> st')"
    "gw_at st' = Returned (Some DeadlineExceeded)"
    using selecting_leaves [OF b st at] by metis
  then show ?thesis unfolding can_end_def by (intro exI [of _ t] exI [of _ st'] exI [of _ "Some DeadlineExceeded"]) (use st in auto)
qed

lemma can_end_always:
  assumes srt: "match_sort srt" and run: "runs grow srt s" and st: "sy_streams s n = Some st"
  shows "can_end grow srt n s"
proof (cases "gw_at st")
  case Selecting
  then show ?thesis by (rule can_end_selecting [OF srt run st])
next
  case (Checking evt)
  have inv: "sys_inv grow s" by (rule runs_inv [OF srt run])
  obtain H where "chan_try_send (ResponseCh evt) False (sy_bools s) = Ret (True, H)"
    using try_send_idle [OF checking_idle [OF inv st Checking]] by metis
  then obtain st' where "check_refused TimerFired 0 True st (sy_bools s) = Some (Ret (st', H))"
    "gw_at st' = Returning (Some Aborted)"
    using Checking by (simp add: check_refused_def)
  then show ?thesis
    by (intro can_end_step [OF run st gw_step.refused [of TimerFired 0 True _ st' H]])
      (auto simp: stream_view_def intro: can_end_returning [OF srt])
next
  case (Awaiting evt)
  have inv: "sys_inv grow s" by (rule runs_inv [OF srt run])
  obtain rp i where sv: "serves s (gw_qp st) rp i" and evt: "evt = rp_event rp i"
    using stream_awaiting [OF sys_facts(6) [OF inv st] Awaiting] by metis
  obtain k where k: "sy_rooms s k = Some rp" and i: "i < 10" using serves_room [OF inv sv] by metis
  obtain t rp' where t: "runs grow srt t" "(sys_step grow srt)\<^sup>*\<^sup>* s t" "sy_rooms t k = Some rp'" "co_at (rp_co rp') = Finished"
    "later rp rp'" "sy_streams t = sy_streams s"
    by (rule verdict_possible [OF srt run k])
  note inv' = runs_inv [OF srt t(1)]
  have st': "sy_streams t n = Some st" and at: "gw_at st = Awaiting (rp_event rp' i)"
    using st t(6) Awaiting evt later_same [OF t(5)] by simp_all
  obtain B where recv: "chan_recv (ResultCh (rp_event rp' i)) (sy_bools t) = (Value (co_allAccepted (rp_co rp')), B)"
    using verdict_ready [OF inv' st' at t(3) i] t(4) by metis
  then obtain x where x: "on_verdict 0 True st (sy_bools t) = Some (x, B)" "gw_at x = Returning None \<or> gw_at x = Selecting"
    using at by (cases "co_allAccepted (rp_co rp')") (simp_all add: on_verdict_def)
  have "can_end grow srt n t"
    by (rule can_end_step [OF t(1) st' gw_step.verdict [of 0 True _ x B]])
      (use x in \<open>auto simp: stream_view_def intro: can_end_returning [OF srt] can_end_selecting [OF srt]\<close>)
  then show ?thesis by (rule can_end_run [OF t(2)]) (simp add: t(6))
next
  case (Returning err)
  then show ?thesis by (rule can_end_returning [OF srt run st])
next
  case (Returned err)
  then show ?thesis using st unfolding can_end_def by blast
qed

end
