(* ===== verification/Nexus_Playthrough.thy ===== *)
theory Nexus_Playthrough
  imports Nexus_Progress
begin

text \<open>
  A complete match, as a run of the server: ten players join, the tick extracts them, each stream takes
  its event and accepts, the coordinator hears all ten, stores the session and publishes, and every stream
  reads its verdict. It shows that the states the safety properties speak of are reached, and that nothing
  in the interleaving stands in the way of a match.
\<close>

section \<open>One slot\<close>

definition accept_msg :: "GatewayRequest option" where
  "accept_msg = Some \<lparr>Action = Some (GatewayRequest_AcceptMatch (Some \<lparr>am_PlayerId = []\<rparr>))\<rparr>"

text \<open>The coordinator after it has heard the first \<open>j\<close> of ten players, all of whom accepted.\<close>

definition heard_first :: "Room \<Rightarrow> nat \<Rightarrow> Coordinator" where
  "heard_first r j = (launch r)\<lparr>co_listening := [j..<10], co_accepted := replicate j True @ replicate (10 - j) False,
     co_received := j\<rparr>"

text \<open>Slot \<open>i\<close> is played by stream \<open>who i\<close>: before and after its acceptance.\<close>

definition slot_before :: "(nat \<Rightarrow> nat) \<Rightarrow> System \<Rightarrow> RoomProc \<Rightarrow> nat \<Rightarrow> bool" where
  "slot_before who s rp i \<longleftrightarrow> (\<exists>st. sy_streams s (who i) = Some st \<and> gw_qp st = rp_player rp i \<and> gw_at st = Selecting
     \<and> gw_reading st \<and> gw_acceptReq st = []) \<and> holds (heap_of s) (MatchCh (rp_player rp i)) (rp_event rp i)
     \<and> \<not> answered s (rp_resp rp i)"

definition slot_after :: "(nat \<Rightarrow> nat) \<Rightarrow> System \<Rightarrow> RoomProc \<Rightarrow> nat \<Rightarrow> bool" where
  "slot_after who s rp i \<longleftrightarrow> (\<exists>st. sy_streams s (who i) = Some st \<and> gw_qp st = rp_player rp i \<and> gw_at st = Awaiting (rp_event rp i))"

definition playing :: "(nat \<Rightarrow> nat) \<Rightarrow> nat \<Rightarrow> Room \<Rightarrow> gtime \<Rightarrow> nat \<Rightarrow> System \<Rightarrow> bool" where
  "playing who k r now j s \<longleftrightarrow> (\<exists>rp. sy_rooms s k = Some rp \<and> rp_now rp = now \<and> rp_launched rp \<and> rp_co rp = heard_first r j
     \<and> players (sy_pool s) = Map.empty \<and> (\<forall>i < j. slot_after who s rp i) \<and> (\<forall>i. j \<le> i \<and> i < 10 \<longrightarrow> slot_before who s rp i))"

text \<open>A waiting stream takes its event.\<close>

lemma stream_takes:
  assumes st: "sy_streams s n = Some st" "gw_at st = Selecting" and ev: "holds (heap_of s) (MatchCh (gw_qp st)) evt"
  obtains st' t where "sys_step grow srt s t" "sy_streams t = (sy_streams s)(n \<mapsto> st')" "gw_qp st' = gw_qp st"
    and "gw_at st' = Checking evt" "gw_acceptReq st' = gw_acceptReq st" "sy_bools t = sy_bools s" "sy_rooms t = sy_rooms s"
    and "\<And>d. d \<noteq> MatchCh (gw_qp st) \<Longrightarrow> cells (heap_of t) d = cells (heap_of s) d" "sy_log t = sy_log s"
    and "players (sy_pool t) = players (sy_pool s)"
proof -
  obtain H where recv: "chan_recv (MatchCh (gw_qp st)) (heap_of s) = (Value evt, H)"
    using ev by (simp add: holds_def chan_recv_def)
  let ?st = "(pushed True (check_response 0 evt) st)\<lparr>gw_at := Checking evt\<rparr>"
  let ?g = "(stream_view st s)\<lparr>g_stream := ?st, g_pool := (sy_pool s)\<lparr>match_heap := H\<rparr>\<rparr>"
  have "on_match 0 True st (sy_pool s) = Some (?st, (sy_pool s)\<lparr>match_heap := H\<rparr>)"
    using st recv by (simp add: on_match_def)
  then have "gw_step [] (stream_view st s) ?g"
    by (intro gw_step.matched [of 0 True]) (simp add: stream_view_def)
  then have step: "sys_step grow srt s (stream_next n ?g [] s)" by (rule stream_step [OF st(1)])
  show thesis
    by (rule that [OF step, of ?st]) (use chan_recv_other [OF recv] in \<open>simp_all add: stream_view_def pushed_def\<close>)
qed

text \<open>It answers the acceptance that its client has sent, and goes on to wait for the verdict.\<close>

lemma stream_plays:
  assumes st: "sy_streams s n = Some st" "gw_at st = Selecting" "gw_reading st" "gw_acceptReq st = []"
    and ev: "holds (heap_of s) (MatchCh (gw_qp st)) evt" and resp: "idle (sy_bools s) (ResponseCh evt)"
  obtains st' t where "(sys_step grow srt)\<^sup>*\<^sup>* s t" "sy_streams t = (sy_streams s)(n \<mapsto> st')" "gw_qp st' = gw_qp st"
    and "gw_at st' = Awaiting evt" "holds (sy_bools t) (ResponseCh evt) True" "sy_rooms t = sy_rooms s"
    and "\<And>d. d \<noteq> MatchCh (gw_qp st) \<Longrightarrow> cells (heap_of t) d = cells (heap_of s) d"
    and "sy_log t = sy_log s @ [(n, ResponseCh evt, True)]" "players (sy_pool t) = players (sy_pool s)"
proof -
  let ?st1 = "st\<lparr>gw_acceptReq := [()]\<rparr>"
  let ?g1 = "(stream_view st s)\<lparr>g_stream := ?st1\<rparr>"
  let ?s1 = "stream_next n ?g1 [] s"
  have "reader_turn accept_msg st = Some ?st1"
    using st by (simp add: reader_turn_def accept_msg_def oneof_getters)
  then have "gw_step [] (stream_view st s) ?g1"
    by (intro gw_step.reader [of accept_msg]) (simp add: stream_view_def)
  then have s1: "sys_step grow srt s ?s1" by (rule stream_step [OF st(1)])
  have one: "sy_streams ?s1 n = Some ?st1" "gw_at ?st1 = Selecting" "holds (heap_of ?s1) (MatchCh (gw_qp ?st1)) evt"
    using st ev by (simp_all add: stream_view_def)
  obtain st2 s2 where s2: "sys_step grow srt ?s1 s2" "sy_streams s2 = (sy_streams ?s1)(n \<mapsto> st2)" "gw_qp st2 = gw_qp ?st1"
    "gw_at st2 = Checking evt" "gw_acceptReq st2 = gw_acceptReq ?st1" "sy_bools s2 = sy_bools ?s1" "sy_rooms s2 = sy_rooms ?s1"
    and heap: "\<And>d. d \<noteq> MatchCh (gw_qp ?st1) \<Longrightarrow> cells (heap_of s2) d = cells (heap_of ?s1) d" and log: "sy_log s2 = sy_log ?s1"
    "players (sy_pool s2) = players (sy_pool ?s1)"
    using stream_takes [OF one, of grow srt] by blast
  have bools: "sy_bools s2 = sy_bools s" using s2(6) by (simp add: stream_view_def)
  obtain B where send: "chan_try_send (ResponseCh evt) True (sy_bools s) = Ret (True, B)" "holds B (ResponseCh evt) True"
    using try_send_idle [OF resp] by metis
  let ?st3 = "st2\<lparr>gw_acceptReq := [], gw_at := Awaiting evt\<rparr>"
  let ?g3 = "(stream_view st2 s2)\<lparr>g_stream := ?st3, g_bools := B\<rparr>"
  let ?s3 = "stream_next n ?g3 [(ResponseCh evt, True)] s2"
  have "check_accepted st2 (sy_bools s2) = Some (Ret (?st3, B))"
    using send(1) s2(4,5) bools by (simp add: check_accepted_def)
  moreover have "answers True st2 (sy_bools s2) = [(ResponseCh evt, True)]"
    using send(1) s2(4) bools by (simp add: answers_def)
  ultimately have "gw_step [(ResponseCh evt, True)] (stream_view st2 s2) ?g3"
    using gw_step.accepted [of "stream_view st2 s2" ?st3 B] by (simp add: stream_view_def)
  then have s3: "sys_step grow srt s2 ?s3" by (intro stream_step) (simp_all add: s2(2))
  have "(sys_step grow srt)\<^sup>*\<^sup>* s ?s3"
    by (rule sys_run_cons [OF s1 sys_run_cons [OF s2(1) sys_run_cons [OF s3 rtranclp.rtrancl_refl]]])
  then show thesis
    by (rule that [of ?s3 ?st3]) (use send s2 heap log in \<open>simp_all add: stream_view_def\<close>)
qed

lemma coordinate_bools:
  assumes "sy_rooms s k = Some rp" "rp_launched rp"
    and "co_step grow (room_view rp s) ((room_view rp s)\<lparr>ck_co := co, ck_bools := B\<rparr>)"
  shows "sys_step grow srt s (s\<lparr>sy_bools := B, sy_rooms := (sy_rooms s)(k \<mapsto> rp\<lparr>rp_co := co\<rparr>)\<rparr>)"
  using sys_step.coordinates [OF assms, of srt] by (simp add: room_view_def)

lemma coordinate_co:
  assumes "sy_rooms s k = Some rp" "rp_launched rp"
    and "co_step grow (room_view rp s) ((room_view rp s)\<lparr>ck_co := co\<rparr>)"
  shows "sys_step grow srt s (s\<lparr>sy_rooms := (sy_rooms s)(k \<mapsto> rp\<lparr>rp_co := co\<rparr>)\<rparr>)"
  using sys_step.coordinates [OF assms, of srt] by (simp add: room_view_def)

text \<open>The coordinator hears a response: one fan-in goroutine, one turn of the gathering loop.\<close>

lemma coordinator_turn:
  assumes k: "sy_rooms s k = Some rp" and l: "rp_launched rp" and co: "co_at (rp_co rp) = Gathering" "co_fanIn (rp_co rp) = []"
      "co_received (rp_co rp) < length (rm_players (rp_room rp))" and j: "j \<in> set (co_listening (rp_co rp))"
    and h: "holds (sy_bools s) (rm_responses (rp_room rp) ! j) v"
  defines "co' \<equiv> (rp_co rp)\<lparr>co_listening := remove1 j (co_listening (rp_co rp)), co_received := Suc (co_received (rp_co rp)),
      co_accepted := (co_accepted (rp_co rp))[j := v]\<rparr>"
  obtains B where "(sys_step grow srt)\<^sup>*\<^sup>* s (s\<lparr>sy_bools := B,
      sy_rooms := (sy_rooms s)(k \<mapsto> rp\<lparr>rp_co := if v then co' else fail_room co'\<rparr>)\<rparr>)"
proof -
  obtain B where recv: "chan_recv (rm_responses (rp_room rp) ! j) (sy_bools s) = (Value v, B)"
    using h by (simp add: holds_def chan_recv_def)
  let ?co1 = "(rp_co rp)\<lparr>co_listening := remove1 j (co_listening (rp_co rp)), co_fanIn := [(j, v)]\<rparr>"
  let ?co2 = "if v then co' else fail_room co'"
  let ?s1 = "s\<lparr>sy_bools := B, sy_rooms := (sy_rooms s)(k \<mapsto> rp\<lparr>rp_co := ?co1\<rparr>)\<rparr>"
  have "fan_in_recv j (rp_co rp) (sy_bools s) = Some (?co1, B)"
    using recv co(2) j by (simp add: fan_in_recv_def)
  then have "co_step grow (room_view rp s) ((room_view rp s)\<lparr>ck_co := ?co1, ck_bools := B\<rparr>)"
    by (intro co_step.fan_in [of j]) (simp add: room_view_def)
  then have s1: "sys_step grow srt s ?s1" by (rule coordinate_bools [OF k l])
  have "gather ?co1 = Some ?co2"
    using co by (simp add: gather_def co'_def Let_def) (simp add: fail_room_def)
  then have "co_step grow (room_view (rp\<lparr>rp_co := ?co1\<rparr>) ?s1) ((room_view (rp\<lparr>rp_co := ?co1\<rparr>) ?s1)\<lparr>ck_co := ?co2\<rparr>)"
    by (intro co_step.gathered) (simp add: room_view_def)
  from coordinate_co [OF _ _ this, of k srt] l
  have "sys_step grow srt ?s1 (s\<lparr>sy_bools := B, sy_rooms := (sy_rooms s)(k \<mapsto> rp\<lparr>rp_co := ?co2\<rparr>)\<rparr>)" by simp
  then show thesis by (intro that [of B] sys_run_cons [OF s1] r_into_rtranclp)
qed

lemma heard_next:
  assumes "j < 10"
  shows "(heard_first r j)\<lparr>co_listening := remove1 j [j..<10], co_received := Suc j,
     co_accepted := (co_accepted (heard_first r j))[j := True]\<rparr> = heard_first r (Suc j)"
proof -
  have "(replicate j True @ replicate (10 - j) False)[j := True] = replicate (Suc j) True @ replicate (9 - j) False"
  proof -
    have "10 - j = Suc (9 - j)" using assms by simp
    then show ?thesis by (simp add: list_update_append replicate_append_same)
  qed
  then show ?thesis using assms by (simp add: heard_first_def upt_conv_Cons)
qed

lemma coordinator_hears:
  assumes k: "sy_rooms s k = Some rp" and l: "rp_launched rp" and co: "rp_co rp = heard_first r j" and j: "j < 10"
    and r: "length (rm_players r) = 10" and h: "holds (sy_bools s) (rm_responses r ! j) True"
  obtains B where "(sys_step grow srt)\<^sup>*\<^sup>* s (s\<lparr>sy_bools := B,
      sy_rooms := (sy_rooms s)(k \<mapsto> rp\<lparr>rp_co := heard_first r (Suc j)\<rparr>)\<rparr>)"
proof -
  have f: "co_at (rp_co rp) = Gathering" "co_fanIn (rp_co rp) = []" "co_received (rp_co rp) = j" "rp_room rp = r"
    "co_listening (rp_co rp) = [j..<10]"
    by (simp_all add: co heard_first_def launch_def)
  obtain B where "(sys_step grow srt)\<^sup>*\<^sup>* s (s\<lparr>sy_bools := B, sy_rooms := (sy_rooms s)(k \<mapsto> rp\<lparr>rp_co :=
      (rp_co rp)\<lparr>co_listening := remove1 j (co_listening (rp_co rp)), co_received := Suc (co_received (rp_co rp)),
        co_accepted := (co_accepted (rp_co rp))[j := True]\<rparr>\<rparr>)\<rparr>)"
    using coordinator_turn [OF k l f(1,2), where j = j and v = True] f j r h by auto
  then show thesis using that [of B] heard_next [OF j, of r] unfolding f(3,5) by (simp add: co)
qed

text \<open>Two slots of a room are played by different streams, over different channels.\<close>

lemma slots_differ:
  assumes inv: "sys_inv grow s" and k: "sy_rooms s k = Some rp" and i: "i < 10" "j < 10" "i \<noteq> j"
    and n: "sy_streams s n = Some x" "gw_qp x = rp_player rp i" and m: "sy_streams s m = Some y" "gw_qp y = rp_player rp j"
  shows "n \<noteq> m" "MatchCh (rp_player rp i) \<noteq> MatchCh (rp_player rp j)"
proof -
  note ri = sys_facts(4) [OF inv k]
  have ne: "rp_player rp i \<noteq> rp_player rp j" using player_slot(2) [OF ri i(2,1)] i(3) by simp
  then show "MatchCh (rp_player rp i) \<noteq> MatchCh (rp_player rp j)"
    using inj_onD [OF members_inj [OF sys_facts(1) [OF inv]] _ player_slot(1) [OF ri i(1)] player_slot(1) [OF ri i(2)]] by blast
  show "n \<noteq> m" using ne n m by auto
qed

lemma playing_step:
  assumes srt: "match_sort srt" and run: "runs grow srt s" and p: "playing who k r now j s" and j: "j < 10"
  obtains t where "(sys_step grow srt)\<^sup>*\<^sup>* s t" "playing who k r now (Suc j) t"
proof -
  have inv: "sys_inv grow s" by (rule runs_inv [OF srt run])
  obtain rp where k: "sy_rooms s k = Some rp" and rp: "rp_now rp = now" "rp_launched rp" "rp_co rp = heard_first r j"
    and past: "\<And>i. i < j \<Longrightarrow> slot_after who s rp i" and todo: "\<And>i. j \<le> i \<Longrightarrow> i < 10 \<Longrightarrow> slot_before who s rp i"
    and none: "players (sy_pool s) = Map.empty"
    using p unfolding playing_def by blast
  note ri = sys_facts(4) [OF inv k]
  have room: "rp_room rp = r" by (simp add: rp(3) heard_first_def launch_def)
  obtain st where st: "sy_streams s (who j) = Some st" "gw_at st = Selecting" "gw_reading st" "gw_acceptReq st = []"
    and qp: "gw_qp st = rp_player rp j"
    and ev: "holds (heap_of s) (MatchCh (rp_player rp j)) (rp_event rp j)" and mute: "\<not> answered s (rp_resp rp j)"
    using todo [OF order_refl j] unfolding slot_before_def by blast
  have idle: "idle (sy_bools s) (ResponseCh (rp_event rp j))" using response_room [OF ri j mute] by simp
  obtain st' t where t: "(sys_step grow srt)\<^sup>*\<^sup>* s t" "sy_streams t = (sy_streams s)(who j \<mapsto> st')" "gw_qp st' = gw_qp st"
    "gw_at st' = Awaiting (rp_event rp j)" "holds (sy_bools t) (ResponseCh (rp_event rp j)) True" "sy_rooms t = sy_rooms s"
    "\<And>d. d \<noteq> MatchCh (gw_qp st) \<Longrightarrow> cells (heap_of t) d = cells (heap_of s) d"
    "sy_log t = sy_log s @ [(who j, ResponseCh (rp_event rp j), True)]" "players (sy_pool t) = players (sy_pool s)"
    using stream_plays [OF st ev [folded qp] idle, of grow srt] by metis
  have k': "sy_rooms t k = Some rp" using k t(6) by simp
  have "holds (sy_bools t) (rm_responses r ! j) True" using t(5) room by simp
  from coordinator_hears [OF k' rp(2,3) j _ this, of grow srt] room_shape(2) [OF ri] room
  obtain B where u: "(sys_step grow srt)\<^sup>*\<^sup>* t (t\<lparr>sy_bools := B,
      sy_rooms := (sy_rooms t)(k \<mapsto> rp\<lparr>rp_co := heard_first r (Suc j)\<rparr>)\<rparr>)" by metis
  let ?u = "t\<lparr>sy_bools := B, sy_rooms := (sy_rooms t)(k \<mapsto> rp\<lparr>rp_co := heard_first r (Suc j)\<rparr>)\<rparr>"
  let ?rp = "rp\<lparr>rp_co := heard_first r (Suc j)\<rparr>"
  have same: "rp_player ?rp i = rp_player rp i" "rp_event ?rp i = rp_event rp i" "co_room (heard_first r (Suc j)) = rp_room rp" for i
    using room by (simp_all add: rp_player_def rp_event_def heard_first_def launch_def)
  have other: "who i \<noteq> who j \<and> MatchCh (rp_player rp i) \<noteq> MatchCh (rp_player rp j)"
    if "i < 10" "i \<noteq> j" "sy_streams s (who i) = Some x" "gw_qp x = rp_player rp i" for i x
    using slots_differ [OF inv k that(1) j that(2-4) st(1) qp] by blast
  have "slot_after who ?u ?rp i" if i: "i < Suc j" for i
  proof (cases "i = j")
    case True
    then show ?thesis using t qp by (simp add: slot_after_def same)
  next
    case False
    then obtain x where "sy_streams s (who i) = Some x" "gw_qp x = rp_player rp i" "gw_at x = Awaiting (rp_event rp i)"
      using past [of i] i unfolding slot_after_def by auto
    with other [of i x] False i j show ?thesis by (simp add: slot_after_def same t(2))
  qed
  moreover have "slot_before who ?u ?rp i" if i: "Suc j \<le> i" "i < 10" for i
  proof -
    obtain x where x: "sy_streams s (who i) = Some x" "gw_qp x = rp_player rp i" "gw_at x = Selecting" "gw_reading x"
      "gw_acceptReq x = []" and h: "holds (heap_of s) (MatchCh (rp_player rp i)) (rp_event rp i)" "\<not> answered s (rp_resp rp i)"
      using todo [of i] i unfolding slot_before_def by auto
    have o: "who i \<noteq> who j" "MatchCh (rp_player rp i) \<noteq> MatchCh (rp_player rp j)" using other [OF i(2) _ x(1,2)] i by auto
    have "rp_resp rp i \<noteq> rp_resp rp j" using player_slot(5) [OF ri j i(2)] i by simp
    then have "\<not> answered ?u (rp_resp rp i)" using h(2) t(8) unfolding answered_def by auto
    moreover have "holds (heap_of ?u) (MatchCh (rp_player rp i)) (rp_event rp i)"
      using h(1) t(7) [of "MatchCh (rp_player rp i)"] o(2) qp by (simp add: holds_def)
    ultimately show ?thesis using x o(1) by (simp add: slot_before_def same t(2))
  qed
  ultimately have "playing who k r now (Suc j) ?u"
    unfolding playing_def using rp none t(9) by (intro exI [of _ ?rp]) simp
  moreover have "(sys_step grow srt)\<^sup>*\<^sup>* s ?u" using t(1) u by (rule rtranclp_trans)
  ultimately show thesis using that by blast
qed

lemma playing_all:
  assumes srt: "match_sort srt" and run: "runs grow srt s" and p: "playing who k r now 0 s" and j: "j \<le> 10"
  obtains t where "(sys_step grow srt)\<^sup>*\<^sup>* s t" "playing who k r now j t"
proof -
  have "\<exists>t. (sys_step grow srt)\<^sup>*\<^sup>* s t \<and> playing who k r now j t"
    using j
  proof (induction j)
    case 0
    then show ?case using p by blast
  next
    case (Suc j)
    then obtain t where t: "(sys_step grow srt)\<^sup>*\<^sup>* s t" "playing who k r now j t" by auto
    obtain u where "(sys_step grow srt)\<^sup>*\<^sup>* t u" "playing who k r now (Suc j) u"
      using playing_step [OF srt runs_trans [OF run t(1)] t(2)] Suc.prems by auto
    then show ?case using rtranclp_trans [OF t(1)] by blast
  qed
  then show thesis using that by blast
qed

text \<open>A stream whose ready check runs out declines.\<close>

lemma stream_declines:
  assumes st: "sy_streams s n = Some st" "gw_at st = Selecting" and ev: "holds (heap_of s) (MatchCh (gw_qp st)) evt"
    and resp: "idle (sy_bools s) (ResponseCh evt)"
  obtains st' t where "(sys_step grow srt)\<^sup>*\<^sup>* s t" "sy_streams t = (sy_streams s)(n \<mapsto> st')" "gw_qp st' = gw_qp st"
    and "holds (sy_bools t) (ResponseCh evt) False" "sy_rooms t = sy_rooms s" "players (sy_pool t) = players (sy_pool s)"
proof -
  obtain st1 s1 where s1: "sys_step grow srt s s1" "sy_streams s1 = (sy_streams s)(n \<mapsto> st1)" "gw_qp st1 = gw_qp st"
    "gw_at st1 = Checking evt" "sy_bools s1 = sy_bools s" "sy_rooms s1 = sy_rooms s" "players (sy_pool s1) = players (sy_pool s)"
    using stream_takes [OF st ev, of grow srt] by blast
  obtain B where send: "chan_try_send (ResponseCh evt) False (sy_bools s) = Ret (True, B)" "holds B (ResponseCh evt) False"
    using try_send_idle [OF resp] by metis
  let ?st2 = "(pushed True (cancelled_response 0 ''Ready check failed. Returning to queue or disconnecting.'') st1)
      \<lparr>gw_at := Returning (Some Aborted)\<rparr>"
  let ?g = "(stream_view st1 s1)\<lparr>g_stream := ?st2, g_bools := B\<rparr>"
  have "check_refused TimerFired 0 True st1 (sy_bools s1) = Some (Ret (?st2, B))"
    using send(1) s1(4,5) by (simp add: check_refused_def)
  then have "gw_step (answers False st1 (sy_bools s1)) (stream_view st1 s1) ?g"
    using gw_step.refused [of TimerFired 0 True "stream_view st1 s1" ?st2 B] by (simp add: stream_view_def)
  then have "sys_step grow srt s1 (stream_next n ?g (answers False st1 (sy_bools s1)) s1)"
    by (intro stream_step) (simp_all add: s1(2))
  then have "(sys_step grow srt)\<^sup>*\<^sup>* s (stream_next n ?g (answers False st1 (sy_bools s1)) s1)"
    by (intro sys_run_cons [OF s1(1)] r_into_rtranclp)
  then show thesis
    by (rule that [of _ ?st2]) (use s1 send(2) in \<open>simp_all add: pushed_def stream_view_def\<close>)
qed

section \<open>The verdict\<close>

lemma room_confirms:
  assumes p: "playing who k r now 10 s" and r: "length (rm_players r) = 10"
  obtains rp ss where "sy_rooms s k = Some rp" "rp_now rp = now" "rp_launched rp" "rp_room rp = r"
    and "\<And>i. i < 10 \<Longrightarrow> slot_after who s rp i"
    and "sys_step grow srt s (s\<lparr>sy_sessions := ss, sy_rooms := (sy_rooms s)(k \<mapsto> rp\<lparr>rp_co :=
          (heard_first r 10)\<lparr>co_done := True, co_at := Publishing (rm_results r)\<rparr>\<rparr>)\<rparr>)"
proof -
  obtain rp where k: "sy_rooms s k = Some rp" and rp: "rp_now rp = now" "rp_launched rp" "rp_co rp = heard_first r 10"
    and past: "\<And>i. i < 10 \<Longrightarrow> slot_after who s rp i"
    using p unfolding playing_def by blast
  have room: "rp_room rp = r" by (simp add: rp(3) heard_first_def launch_def)
  let ?co = "(heard_first r 10)\<lparr>co_done := True, co_at := Publishing (rm_results r)\<rparr>"
  let ?ss = "CreateSession 0 (rm_session r) (map PlayerID (rm_players r)) (sy_sessions s)"
  have "confirm 0 (heard_first r 10) (sy_sessions s) = Some (?co, ?ss)"
    using r by (simp add: confirm_def heard_first_def launch_def)
  then have "co_step grow (room_view rp s) ((room_view rp s)\<lparr>ck_co := ?co, ck_sessions := ?ss\<rparr>)"
    by (intro co_step.confirmed [of 0]) (simp add: room_view_def rp(3))
  from sys_step.coordinates [OF k rp(2) this, of srt]
  have "sys_step grow srt s (s\<lparr>sy_sessions := ?ss, sy_rooms := (sy_rooms s)(k \<mapsto> rp\<lparr>rp_co := ?co\<rparr>)\<rparr>)"
    by (simp add: room_view_def)
  then show thesis using that [OF k rp(1,2) room past] by blast
qed

definition after_verdict :: "Coordinator \<Rightarrow> co_pc" where
  "after_verdict co = (if co_allAccepted co then Finished else Requeueing (accepters co))"

lemma room_publishes:
  assumes srt: "match_sort srt" and run: "runs grow srt s" and k: "sy_rooms s k = Some rp" and l: "rp_launched rp"
    and co: "rp_co rp = co\<lparr>co_at := Publishing cs\<rparr>"
  shows "\<exists>B. (sys_step grow srt)\<^sup>*\<^sup>* s (s\<lparr>sy_bools := B,
     sy_rooms := (sy_rooms s)(k \<mapsto> rp\<lparr>rp_co := co\<lparr>co_at := after_verdict co\<rparr>\<rparr>)\<rparr>)"
  using run k l co
proof (induction cs arbitrary: s rp)
  case (Nil s rp)
  have "accepters (co\<lparr>co_at := Publishing []\<rparr>) = accepters co" by (simp add: accepters_def)
  then have "publish (co\<lparr>co_at := Publishing []\<rparr>) (sy_bools s) = Some (Ret (co\<lparr>co_at := after_verdict co\<rparr>, sy_bools s))"
    by (simp add: publish_def after_verdict_def)
  then have "co_step grow (room_view rp s) ((room_view rp s)\<lparr>ck_co := co\<lparr>co_at := after_verdict co\<rparr>, ck_bools := sy_bools s\<rparr>)"
    by (intro co_step.published) (simp add: room_view_def Nil.prems(4))
  from coordinate_bools [OF Nil.prems(2,3) this, of srt] show ?case by blast
next
  case (Cons c cs s rp)
  have inv: "sys_inv grow s" by (rule runs_inv [OF srt Cons.prems(1)])
  have ok: "room_ok (rp_room rp) (rp_co rp)" "results_ok (rp_room rp) (rp_co rp) (sy_bools s)"
    using room_check [OF sys_facts(4) [OF inv Cons.prems(2)]] by (simp_all add: check_inv_def room_view_def)
  have at: "co_at (rp_co rp) = Publishing (c # cs)" by (simp add: Cons.prems(4))
  obtain co' B where pub: "publish (rp_co rp) (sy_bools s) = Some (Ret (co', B))" and co': "co' = co\<lparr>co_at := Publishing cs\<rparr>"
    using publish_runs [OF ok at] Cons.prems(4) by simp metis
  let ?s = "s\<lparr>sy_bools := B, sy_rooms := (sy_rooms s)(k \<mapsto> rp\<lparr>rp_co := co'\<rparr>)\<rparr>"
  have "co_step grow (room_view rp s) ((room_view rp s)\<lparr>ck_co := co', ck_bools := B\<rparr>)"
    by (intro co_step.published) (simp add: room_view_def pub)
  then have step: "sys_step grow srt s ?s" by (rule coordinate_bools [OF Cons.prems(2,3)])
  have "\<exists>B'. (sys_step grow srt)\<^sup>*\<^sup>* ?s (?s\<lparr>sy_bools := B',
     sy_rooms := (sy_rooms ?s)(k \<mapsto> (rp\<lparr>rp_co := co'\<rparr>)\<lparr>rp_co := co\<lparr>co_at := after_verdict co\<rparr>\<rparr>)\<rparr>)"
    by (rule Cons.IH) (use reachable.move [OF Cons.prems(1) step] Cons.prems(3) co' in simp_all)
  then show ?case using sys_run_cons [OF step] by fastforce
qed

text \<open>The streams of a confirmed room read their verdicts, in the order of the slots.\<close>

definition slot_played :: "(nat \<Rightarrow> nat) \<Rightarrow> System \<Rightarrow> RoomProc \<Rightarrow> nat \<Rightarrow> bool" where
  "slot_played who s rp i \<longleftrightarrow> (\<exists>st. sy_streams s (who i) = Some st \<and> gw_qp st = rp_player rp i \<and> gw_at st = Returning None
     \<and> game_response 0 (rp_event rp i) \<in> set (gw_sent st))"

lemma slots_hear:
  assumes srt: "match_sort srt" and run: "runs grow srt s" and k: "sy_rooms s k = Some rp"
    and fin: "co_at (rp_co rp) = Finished" "co_allAccepted (rp_co rp)"
    and all: "\<And>i. i < 10 \<Longrightarrow> slot_after who s rp i" and j: "j \<le> 10"
  shows "\<exists>t. (sys_step grow srt)\<^sup>*\<^sup>* s t \<and> sy_rooms t = sy_rooms s \<and> sy_sessions t = sy_sessions s
     \<and> (\<forall>i < j. slot_played who t rp i) \<and> (\<forall>i. j \<le> i \<and> i < 10 \<longrightarrow> slot_after who t rp i)"
  using j
proof (induction j)
  case 0
  then show ?case using all by (intro exI [of _ s]) simp
next
  case (Suc j)
  then obtain t where t: "(sys_step grow srt)\<^sup>*\<^sup>* s t" "sy_rooms t = sy_rooms s" "sy_sessions t = sy_sessions s"
    and played: "\<And>i. i < j \<Longrightarrow> slot_played who t rp i" and todo: "\<And>i. j \<le> i \<Longrightarrow> i < 10 \<Longrightarrow> slot_after who t rp i" by auto
  have inv: "sys_inv grow t" "verdict_inv t" by (rule runs_inv [OF srt runs_trans [OF run t(1)]])+
  have k': "sy_rooms t k = Some rp" and j: "j < 10" using k t(2) Suc.prems by simp_all
  note r = sys_facts(4) [OF inv(1) k']
  obtain st where st: "sy_streams t (who j) = Some st" "gw_qp st = rp_player rp j" "gw_at st = Awaiting (rp_event rp j)"
    using todo [OF order_refl j] unfolding slot_after_def by blast
  obtain B where recv: "chan_recv (ResultCh (rp_event rp j)) (sy_bools t) = (Value True, B)"
    using verdict_ready [OF inv st(1,3) k' j] fin by metis
  let ?st = "(pushed True (game_response 0 (rp_event rp j)) st)\<lparr>gw_at := Returning None\<rparr>"
  let ?g = "(stream_view st t)\<lparr>g_stream := ?st, g_bools := B\<rparr>"
  let ?u = "stream_next (who j) ?g [] t"
  have "on_verdict 0 True st (sy_bools t) = Some (?st, B)" using st(3) recv by (simp add: on_verdict_def)
  then have "gw_step [] (stream_view st t) ?g"
    by (intro gw_step.verdict [of 0 True]) (simp add: stream_view_def)
  then have u: "sys_step grow srt t ?u" by (rule stream_step [OF st(1)])
  have other: "who i \<noteq> who j" if "i < 10" "i \<noteq> j" "sy_streams t (who i) = Some x" "gw_qp x = rp_player rp i" for i x
    by (rule slots_differ(1) [OF inv(1) k' that(1) j that(2-4) st(1,2)])
  have "slot_played who ?u rp i" if i: "i < Suc j" for i
  proof (cases "i = j")
    case True
    then show ?thesis using st(2) by (simp add: slot_played_def pushed_def)
  next
    case False
    then have "i < j" using i by simp
    with played [OF this] other [of i] j False show ?thesis unfolding slot_played_def by fastforce
  qed
  moreover have "slot_after who ?u rp i" if i: "Suc j \<le> i" "i < 10" for i
    using todo [of i] other [of i] i unfolding slot_after_def by fastforce
  moreover have "(sys_step grow srt)\<^sup>*\<^sup>* s ?u" using t(1) u by (rule rtranclp.rtrancl_into_rtrancl)
  ultimately show ?case using t(2,3) by (intro exI [of _ ?u]) simp
qed

text \<open>A room that is played from the start, up to the point where every verdict lies in its channel.\<close>

lemma room_decides:
  assumes srt: "match_sort srt" and run: "runs grow srt s" and p: "playing who k r now 0 s" and r: "length (rm_players r) = 10"
  obtains t rp where "(sys_step grow srt)\<^sup>*\<^sup>* s t" "sy_rooms t k = Some rp" "rp_room rp = r"
    and "co_at (rp_co rp) = Finished" "co_allAccepted (rp_co rp)" "\<And>i. i < 10 \<Longrightarrow> slot_after who t rp i"
proof -
  obtain s1 where s1: "(sys_step grow srt)\<^sup>*\<^sup>* s s1" "playing who k r now 10 s1"
    using playing_all [OF srt run p order_refl] by metis
  let ?co = "(heard_first r 10)\<lparr>co_done := True\<rparr>"
  obtain rp ss where k: "sy_rooms s1 k = Some rp" "rp_now rp = now" "rp_launched rp" "rp_room rp = r"
    and past: "\<And>i. i < 10 \<Longrightarrow> slot_after who s1 rp i"
    and step: "sys_step grow srt s1 (s1\<lparr>sy_sessions := ss, sy_rooms := (sy_rooms s1)(k \<mapsto> rp\<lparr>rp_co :=
          (heard_first r 10)\<lparr>co_done := True, co_at := Publishing (rm_results r)\<rparr>\<rparr>)\<rparr>)"
    using room_confirms [OF s1(2) r, of grow srt] by metis
  let ?rp2 = "rp\<lparr>rp_co := ?co\<lparr>co_at := Publishing (rm_results r)\<rparr>\<rparr>"
  let ?s2 = "s1\<lparr>sy_sessions := ss, sy_rooms := (sy_rooms s1)(k \<mapsto> ?rp2)\<rparr>"
  have s2: "(sys_step grow srt)\<^sup>*\<^sup>* s ?s2" using s1(1) step by (rule rtranclp.rtrancl_into_rtrancl)
  let ?rp3 = "rp\<lparr>rp_co := ?co\<lparr>co_at := Finished\<rparr>\<rparr>"
  have all: "co_allAccepted ?co" by (simp add: heard_first_def launch_def)
  obtain B where "(sys_step grow srt)\<^sup>*\<^sup>* ?s2 (?s2\<lparr>sy_bools := B, sy_rooms := (sy_rooms ?s2)(k \<mapsto> ?rp2\<lparr>rp_co := ?co\<lparr>co_at := Finished\<rparr>\<rparr>)\<rparr>)"
    using room_publishes [OF srt runs_trans [OF run s2], where k = k and rp = ?rp2 and co = ?co and cs = "rm_results r"] k(3) all
    by (auto simp: after_verdict_def)
  then have "(sys_step grow srt)\<^sup>*\<^sup>* ?s2 (s1\<lparr>sy_sessions := ss, sy_bools := B, sy_rooms := (sy_rooms s1)(k \<mapsto> ?rp3)\<rparr>)"
    by simp
  then have s3: "(sys_step grow srt)\<^sup>*\<^sup>* s (s1\<lparr>sy_sessions := ss, sy_bools := B, sy_rooms := (sy_rooms s1)(k \<mapsto> ?rp3)\<rparr>)"
    (is "(sys_step grow srt)\<^sup>*\<^sup>* s ?s3") using s2 by (rule rtranclp_trans [rotated])
  have hr: "co_room ?co = r" by (simp add: heard_first_def launch_def)
  have same: "rp_player ?rp3 i = rp_player rp i" "rp_event ?rp3 i = rp_event rp i" for i
    using k(4) hr by (simp_all add: rp_player_def rp_event_def)
  have after: "slot_after who ?s3 ?rp3 i" if "i < 10" for i
    using past [OF that] by (simp add: slot_after_def same)
  show thesis by (rule that [OF s3, of ?rp3]) (use hr all after in simp_all)
qed

lemma room_plays:
  assumes srt: "match_sort srt" and run: "runs grow srt s" and k: "sy_rooms s k = Some rp"
    and fin: "co_at (rp_co rp) = Finished" "co_allAccepted (rp_co rp)"
    and all: "\<And>i. i < 10 \<Longrightarrow> slot_after who s rp i"
  obtains t sess where "runs grow srt t" "sy_rooms t k = Some rp"
    and "GetSession (rm_session (rp_room rp)) (sy_sessions t) = Some sess"
    and "PlayerIDs sess = map PlayerID (rm_players (rp_room rp))" "\<And>i. i < 10 \<Longrightarrow> slot_played who t rp i"
proof -
  obtain t where t: "(sys_step grow srt)\<^sup>*\<^sup>* s t" "sy_rooms t = sy_rooms s" "\<And>i. i < 10 \<Longrightarrow> slot_played who t rp i"
    using slots_hear [OF srt run k fin all order_refl] by auto
  have run_t: "runs grow srt t" by (rule runs_trans [OF run t(1)])
  have kt: "sy_rooms t k = Some rp" using k t(2) by simp
  have conf: "confirmed (rp_co rp)" using fin by (simp add: confirmed_def)
  obtain sess where "GetSession (rm_session (rp_room rp)) (sy_sessions t) = Some sess"
    "PlayerIDs sess = map PlayerID (rm_players (rp_room rp))"
    by (rule confirmed_session [OF runs_inv(1) [OF srt run_t] kt conf])
  then show thesis by (rule that [OF run_t kt _ _ t(3)])
qed

section \<open>From the empty server\<close>

definition join_msg :: "string \<Rightarrow> i32 \<Rightarrow> GatewayRequest option" where
  "join_msg pid m = Some \<lparr>Action = Some (GatewayRequest_JoinQueue
     (Some \<lparr>jq_Player = Some \<lparr>pi_PlayerId = pid, pi_DisplayName = pid, pi_Mmr = m\<rparr>\<rparr>))\<rparr>"

definition gathered :: "(nat \<Rightarrow> string) \<Rightarrow> (nat \<Rightarrow> i32) \<Rightarrow> nat \<Rightarrow> System \<Rightarrow> bool" where
  "gathered pid m n s \<longleftrightarrow> sy_rooms s = Map.empty \<and> sy_log s = []
     \<and> (\<forall>i < n. \<exists>st. sy_streams s i = Some st \<and> gw_at st = Selecting \<and> gw_reading st \<and> gw_acceptReq st = []
          \<and> PlayerID (gw_qp st) = pid i \<and> MMR (gw_qp st) = m i \<and> gw_qp st \<in> queued (sy_pool s))
     \<and> (\<forall>i. n \<le> i \<longrightarrow> sy_streams s i = None)
     \<and> (\<forall>q \<in> queued (sy_pool s). \<exists>i < n. \<exists>st. sy_streams s i = Some st \<and> q = gw_qp st)"

lemma join_one:
  assumes srt: "match_sort srt" and run: "runs grow srt s" and g: "gathered pid m n s"
    and new: "pid n \<noteq> []" "\<forall>i < n. pid i \<noteq> pid n" and ok: "0 \<le> sint (m n)" "sint (m n) \<le> MaxMMR"
  shows "\<exists>t. sys_step grow srt s t \<and> gathered pid m (Suc n) t"
proof -
  have inv: "sys_inv grow s" by (rule runs_inv [OF srt run])
  note b = base_facts [OF sys_facts(1) [OF inv]] and g = g [unfolded gathered_def]
  have none: "players (sy_pool s) (pid n) = None"
  proof (rule ccontr)
    assume "players (sy_pool s) (pid n) \<noteq> None"
    then obtain q where q: "players (sy_pool s) (pid n) = Some q" by blast
    then have "PlayerID q = pid n" "q \<in> queued (sy_pool s)"
      using index_id [OF pool_index [OF b(8)] q] by (auto simp: queued_def ran_def)
    then show False using g new(2) by (metis option.inject)
  qed
  obtain p st where e: "EnterMatchmaking grow 0 0 True (join_msg (pid n) (m n)) (sy_pool s) = (p, Inr st)"
    and st: "gw_at st = Selecting" "gw_reading st" "gw_acceptReq st = []" "PlayerID (gw_qp st) = pid n" "MMR (gw_qp st) = m n"
  proof -
    have "join_check (join_msg (pid n) (m n)) = Inr \<lparr>pi_PlayerId = pid n, pi_DisplayName = pid n, pi_Mmr = m n\<rparr>"
      using new(1) ok by (simp add: join_check_Inr join_msg_def GetJoinQueue_def)
    moreover obtain heap ch where "make_chan 1 (heap_of s) = (heap, ch)" by fastforce
    then obtain p qp where "Enqueue grow 0 (pid n) (pid n) (m n) (sy_pool s) = (p, Inr qp)"
      "PlayerID qp = pid n" "MMR qp = m n"
      using none by (simp add: Enqueue_def Let_def split: prod.splits)
    ultimately show thesis
      by (intro that [of p "\<lparr>gw_qp = qp, gw_reading = True, gw_clientDone = False, gw_cancelReq = [], gw_acceptReq = [],
        gw_ctxDone = False, gw_sent = [joined_response 0], gw_at = Selecting\<rparr>"]) (simp_all add: EnterMatchmaking_def pushed_def)
  qed
  let ?t = "s\<lparr>sy_pool := p, sy_streams := (sy_streams s)(n \<mapsto> st)\<rparr>"
  have "sys_step grow srt s ?t" by (rule sys_step.joins [OF e]) (use g in simp)
  moreover have "gathered pid m (Suc n) ?t"
    unfolding gathered_def
  proof (intro conjI allI impI ballI)
    have q: "queued p = insert (gw_qp st) (queued (sy_pool s))" by (rule enter_ready(2) [OF b(1) e])
    show "\<exists>x. sy_streams ?t i = Some x \<and> gw_at x = Selecting \<and> gw_reading x \<and> gw_acceptReq x = []
        \<and> PlayerID (gw_qp x) = pid i \<and> MMR (gw_qp x) = m i \<and> gw_qp x \<in> queued (sy_pool ?t)" if "i < Suc n" for i
      using g st that q by (cases "i = n") (auto simp: less_Suc_eq)
    show "\<exists>i < Suc n. \<exists>x. sy_streams ?t i = Some x \<and> x' = gw_qp x" if "x' \<in> queued (sy_pool ?t)" for x'
      using g that q by (fastforce simp: less_Suc_eq)
  qed (use g in simp_all)
  ultimately show ?thesis by blast
qed

lemma join_many:
  assumes srt: "match_sort srt"
    and pids: "\<forall>i < n. pid i \<noteq> [] \<and> 0 \<le> sint (m i) \<and> sint (m i) \<le> MaxMMR" "inj_on pid {..<n}"
  shows "\<exists>s. runs grow srt s \<and> gathered pid m n s"
  using pids
proof (induction n)
  case 0
  have "gathered pid m 0 sys_start" by (simp add: gathered_def sys_start_def queued_def NewPool_def)
  then show ?case using runs_start by blast
next
  case (Suc n)
  then obtain s where s: "runs grow srt s" "gathered pid m n s" by (auto simp: lessThan_Suc)
  have "\<forall>i < n. pid i \<noteq> pid n" using Suc.prems(2) by (auto simp: inj_on_def)
  from join_one [OF srt s _ this] Suc.prems(1) obtain t where "sys_step grow srt s t" "gathered pid m (Suc n) t" by auto
  then show ?case using reachable.move [OF s(1)] by blast
qed

text \<open>Ten players of one bracket wait: the extraction takes exactly them.\<close>

lemma gathered_waiting:
  assumes g: "gathered pid m n s" and q: "q \<in> queued (sy_pool s)"
  obtains i st where "i < n" "sy_streams s i = Some st" "q = gw_qp st" "gw_at st = Selecting" "gw_reading st"
    and "gw_acceptReq st = []" "PlayerID q = pid i" "MMR q = m i"
proof -
  note g = g [unfolded gathered_def]
  obtain i st where i: "i < n" "sy_streams s i = Some st" "q = gw_qp st" using g q by blast
  moreover obtain st' where "sy_streams s i = Some st'" "gw_at st' = Selecting" "gw_reading st'" "gw_acceptReq st' = []"
    "PlayerID (gw_qp st') = pid i" "MMR (gw_qp st') = m i" using g i(1) by blast
  ultimately show thesis by (intro that [of i st]) simp_all
qed

lemma gathered_ids:
  assumes g: "gathered pid m n s"
  shows "PlayerID ` queued (sy_pool s) = pid ` {..<n}"
proof (intro subset_antisym image_subsetI)
  show "PlayerID q \<in> pid ` {..<n}" if "q \<in> queued (sy_pool s)" for q
    by (rule gathered_waiting [OF g that]) simp
  fix i
  assume "i \<in> {..<n}"
  then have i: "i < n" by simp
  obtain st where st: "PlayerID (gw_qp st) = pid i" "gw_qp st \<in> queued (sy_pool s)" "sy_streams s i = Some st"
    "MMR (gw_qp st) = m i"
    using g [unfolded gathered_def] i by blast
  show "pid i \<in> PlayerID ` queued (sy_pool s)" using imageI [OF st(2), of PlayerID] st(1) by simp
qed

lemma gathered_extract:
  assumes srt: "match_sort srt" and run: "runs grow srt s" and g: "gathered pid m 10 s"
    and pids: "inj_on pid {..<10}" and bk: "\<forall>i < 10. bracketKey (m i) = bk"
  obtains ks p qs where "covers ks (brackets (sy_pool s))" "ExtractMatch srt ks now (sy_pool s) = (p, Some qs)"
    and "set qs = queued (sy_pool s)" "length qs = 10" "distinct (map PlayerID qs)" "match_heap p = heap_of s"
    and "players p = Map.empty"
proof -
  have inv: "pool_inv (sy_pool s)" by (rule base_facts(8) [OF sys_facts(1) [OF runs_inv(1) [OF srt run]]])
  note idx = pool_index [OF inv]
  have inj: "inj_on PlayerID (queued (sy_pool s))"
    using index_id [OF idx] by (auto simp: inj_on_def queued_def ran_def)
  have ten: "card (queued (sy_pool s)) = 10"
    using card_image [OF inj] card_image [OF pids] by (simp add: gathered_ids [OF g])
  have same: "bk_of q = bk" if "q \<in> queued (sy_pool s)" for q
    by (rule gathered_waiting [OF g that]) (use bk in simp)
  have dom: "dom (brackets (sy_pool s)) \<subseteq> {bk}"
  proof
    fix k
    assume "k \<in> dom (brackets (sy_pool s))"
    then obtain t where t: "brackets (sy_pool s) k = Some t" by blast
    then have "elems (slice_at (brackets (sy_pool s)) k) \<noteq> []" using index_nonempty [OF idx] by (simp add: slice_at_def)
    then obtain q where "q \<in> set (elems (slice_at (brackets (sy_pool s)) k))" by (metis list.set_sel(1))
    then show "k \<in> {bk}" using same by (auto simp: index_slice_set [OF idx] queued_def)
  qed
  then have ks: "covers [bk] (brackets (sy_pool s))" by (simp add: covers_def)
  have "set (elems (slice_at (brackets (sy_pool s)) bk)) = queued (sy_pool s)"
    using same by (auto simp: index_slice_set [OF idx] queued_def)
  then have "bracket_len (brackets (sy_pool s)) bk = 10"
    using index_distinct [OF idx, of bk] ten by (simp add: bracket_len_def distinct_map flip: distinct_card)
  then obtain p qs where ex: "ExtractMatch srt [bk] now (sy_pool s) = (p, Some qs)"
    using match_sort.extract_full_bracket [OF srt inv ks, of bk now] by (auto simp: PlayersPerMatch_def)
  note x = match_sort.extract_success [OF srt inv ks ex]
  have "card (set qs) = 10" using x distinct_card [of qs] by (simp add: distinct_map PlayersPerMatch_def)
  then have "set qs = queued (sy_pool s)"
    using x ten by (intro card_subset_eq) (simp_all add: card_ge_0_finite)
  moreover have "players p = Map.empty"
  proof -
    have "queued p = queued (sy_pool s) - set qs" using x by blast
    then have "ran (players p) = {}" using \<open>set qs = queued (sy_pool s)\<close> by (simp only: queued_def Diff_cancel)
    then show ?thesis by (simp add: ran_def) (metis not_None_eq)
  qed
  ultimately show thesis using that [OF ks ex] x by (simp add: PlayersPerMatch_def)
qed

text \<open>One turn of the tick then makes a room whose ten players are about to accept.\<close>

lemma room_forms:
  assumes srt: "match_sort srt" and run: "runs grow srt s" and g: "gathered pid m 10 s"
    and pids: "inj_on pid {..<10}" and bk: "\<forall>i < 10. bracketKey (m i) = bk"
  obtains t who r where "(sys_step grow srt)\<^sup>*\<^sup>* s t" "playing who 0 r now 0 t" "rm_session r = sid"
    and "length (rm_players r) = 10" "set (map PlayerID (rm_players r)) = pid ` {..<10}"
proof -
  have inv: "sys_inv grow s" by (rule runs_inv [OF srt run])
  note b = base_facts [OF sys_facts(1) [OF inv]]
  have none: "sy_rooms s = Map.empty" "sy_log s = []" using g by (simp_all add: gathered_def)
  obtain ks p qs where ks: "covers ks (brackets (sy_pool s))" and ex: "ExtractMatch srt ks now (sy_pool s) = (p, Some qs)"
    and qs: "set qs = queued (sy_pool s)" "length qs = 10" "distinct (map PlayerID qs)" and heap: "match_heap p = heap_of s"
    and empty: "players p = Map.empty"
    using gathered_extract [OF srt run g pids bk] by metis
  obtain B rs ss where mk: "make_channels (length qs) (sy_bools s) = (B, rs, ss)" by (metis prod_cases3)
  have len: "length rs = 10" "length ss = 10" using make_channels_spec [OF b(2) mk] qs(2) by simp_all
  let ?todo = "zip qs (zip rs ss)"
  have fsts: "map fst ?todo = qs" using len qs(2) by simp
  have "distinct (map MatchCh (map fst ?todo))"
    unfolding fsts using pool_inj [OF b(8)] qs(1,3) by (simp add: distinct_map)
  then have apart: "distinct (map (MatchCh \<circ> fst) ?todo)" by simp
  have free: "\<forall>x \<in> set ?todo. idle (match_heap p) (MatchCh (fst x))"
    using b(1) qs(1) by (auto simp: heap ready_pool_def dest: set_zip_leftD)
  have ok: "chans_ok (match_heap p)" using pool_heap [OF b(8)] by (simp add: heap)
  obtain H where told: "notify_players sid (map PlayerID qs) now ?todo (match_heap p) = Ret (H, [])"
    and "chans_ok H" "\<And>c. c \<notin> (MatchCh \<circ> fst) ` set ?todo \<Longrightarrow> cells H c = cells (match_heap p) c" and sent: "\<And>q resp res. (q, resp, res) \<in> set ?todo \<Longrightarrow> holds H (MatchCh q)
        \<lparr>evt_SessionID = sid, evt_PlayerIDs = map PlayerID qs, evt_CreatedAt = now, ResponseCh = resp, ResultCh = res\<rparr>"
    using notify_players_spec [OF apart free ok, where sid = sid and pids = "map PlayerID qs" and now = now] by metis
  let ?r = "\<lparr>rm_session = sid, rm_players = qs, rm_responses = rs, rm_results = ss\<rparr>"
  let ?rp = "\<lparr>rp_now = now, rp_told = 10, rp_launched = True, rp_co = launch ?r\<rparr>"
  let ?t = "s\<lparr>sy_pool := p\<lparr>match_heap := H\<rparr>, sy_bools := B, sy_missed := sy_missed s @ [],
     sy_created := sy_created s + 1, sy_rooms := (sy_rooms s)(0 \<mapsto> ?rp)\<rparr>"
  have run_t: "(sys_step grow srt)\<^sup>*\<^sup>* s ?t"
    by (rule room_turn [OF srt inv _ ks ex _ mk told]) (simp_all add: none fresh_id_def)
  have "\<exists>i st. sy_streams s i = Some st \<and> gw_qp st = qs ! j \<and> gw_at st = Selecting \<and> gw_reading st \<and> gw_acceptReq st = []"
    if "j < 10" for j
  proof -
    have "qs ! j \<in> queued (sy_pool s)" using that qs(1,2) nth_mem [of j qs] by simp
    then obtain i st where "sy_streams s i = Some st" "qs ! j = gw_qp st" "gw_at st = Selecting" "gw_reading st" "gw_acceptReq st = []"
      by (rule gathered_waiting [OF g])
    then show ?thesis by (intro exI [of _ i] exI [of _ st]) simp
  qed
  then obtain who where who: "\<And>j. j < 10 \<Longrightarrow> \<exists>st. sy_streams s (who j) = Some st \<and> gw_qp st = qs ! j \<and> gw_at st = Selecting
      \<and> gw_reading st \<and> gw_acceptReq st = []" by metis
  have same: "rp_player ?rp j = qs ! j" for j by (simp add: rp_player_def launch_def)
  have "slot_before who ?t ?rp j" if j: "j < 10" for j
  proof -
    have "(qs ! j, rs ! j, ss ! j) = ?todo ! j" using j qs(2) len by simp
    then have "(qs ! j, rs ! j, ss ! j) \<in> set ?todo" using j qs(2) len by (metis length_zip min.idem nth_mem)
    from sent [OF this] have "holds H (MatchCh (rp_player ?rp j)) (rp_event ?rp j)"
      unfolding same by (simp add: rp_event_def room_event_def launch_def)
    then show ?thesis using who [OF j] none by (simp add: slot_before_def same answered_def)
  qed
  moreover have "heard_first ?r 0 = launch ?r"
    using qs(2) len by (simp add: heard_first_def launch_def numeral_eq_Suc)
  ultimately have "playing who 0 ?r now 0 ?t" unfolding playing_def using empty by (intro exI [of _ ?rp]) simp
  moreover have "set (map PlayerID qs) = pid ` {..<10}" using gathered_ids [OF g] qs(1) by simp
  ultimately show thesis using that [OF run_t] qs(2) by simp
qed

text \<open>From the empty server to a room whose ten players all wait for a verdict that is there.\<close>

lemma match_decided:
  assumes srt: "match_sort srt" and pids: "inj_on pid {..<10::nat}" and bk: "\<forall>i < 10. bracketKey (m i) = bk"
    and ok: "\<forall>i < 10. pid i \<noteq> [] \<and> 0 \<le> sint (m i) \<and> sint (m i) \<le> MaxMMR"
  obtains s rp who where "runs grow srt s" "sy_rooms s 0 = Some rp" "rm_session (rp_room rp) = sid"
    and "set (map PlayerID (rm_players (rp_room rp))) = pid ` {..<10}" "length (rm_players (rp_room rp)) = 10"
    and "co_at (rp_co rp) = Finished" "co_allAccepted (rp_co rp)" "\<And>i. i < 10 \<Longrightarrow> slot_after who s rp i"
proof -
  obtain s0 where s0: "runs grow srt s0" "gathered pid m 10 s0"
    using join_many [OF srt ok pids] by blast
  obtain s1 who r where s1: "(sys_step grow srt)\<^sup>*\<^sup>* s0 s1" "playing who 0 r 0 0 s1"
    and r: "rm_session r = sid" "length (rm_players r) = 10" "set (map PlayerID (rm_players r)) = pid ` {..<10}"
    by (rule room_forms [OF srt s0 pids bk])
  have run: "runs grow srt s1" by (rule runs_trans [OF s0(1) s1(1)])
  obtain s rp where s: "(sys_step grow srt)\<^sup>*\<^sup>* s1 s" "sy_rooms s 0 = Some rp" "rp_room rp = r"
    and fin: "co_at (rp_co rp) = Finished" "co_allAccepted (rp_co rp)" and after: "\<And>i. i < 10 \<Longrightarrow> slot_after who s rp i"
    using room_decides [OF srt run s1(2) r(2)] by metis
  show thesis by (rule that [OF runs_trans [OF run s(1)] s(2) _ _ _ fin after]) (use s(3) r in simp_all)
qed

end
