(* ===== verification/Nexus_Ghost.thy ===== *)
theory Nexus_Ghost
  imports Nexus_Playthrough
begin

text \<open>
  A player whose stream has returned, and whom the coordinator then puts back: the entry stays in the pool
  without a stream. What it does to later matches, and a run that leads to it.
\<close>

section \<open>What a returned stream can still do\<close>

lemma returned_step:
  assumes "sys_step grow srt s t" "sy_streams s n = Some st" "gw_at st = Returned err"
  shows "\<exists>st'. sy_streams t n = Some st' \<and> gw_at st' = Returned err \<and> gw_qp st' = gw_qp st
    \<and> (\<forall>c v. (n, c, v) \<in> set (sy_log t) \<longrightarrow> (n, c, v) \<in> set (sy_log s))"
  using assms(1)
proof (cases rule: sys_step.cases)
  case (streams m st0 sent g)
  show ?thesis
  proof (cases "m = n")
    case True
    then have st0: "st0 = st" using streams assms(2) by simp
    have "sent = [] \<and> gw_at (g_stream g) = Returned err \<and> gw_qp (g_stream g) = gw_qp st"
      using streams(3) assms(3) unfolding st0
      by (cases rule: gw_step.cases)
        (auto simp: stream_view_def on_match_def on_ticker_def on_cancel_def on_client_done_def on_ctx_done_def check_accepted_def
          check_refused_def on_verdict_def deferred_dequeue_def reader_turn_def split: option.splits if_splits)
    then show ?thesis using streams True by simp
  qed (use streams assms in auto)
qed (use assms in auto)

lemma returned_run:
  assumes "(sys_step grow srt)\<^sup>*\<^sup>* s t" "sy_streams s n = Some st" "gw_at st = Returned err"
  shows "\<exists>st'. sy_streams t n = Some st' \<and> gw_at st' = Returned err \<and> gw_qp st' = gw_qp st
    \<and> (\<forall>c v. (n, c, v) \<in> set (sy_log t) \<longrightarrow> (n, c, v) \<in> set (sy_log s))"
  using assms
proof (induction rule: rtranclp_induct)
  case base
  then show ?case by simp
next
  case (step t u)
  then obtain st' where st': "sy_streams t n = Some st'" "gw_at st' = Returned err" "gw_qp st' = gw_qp st"
    "\<forall>c v. (n, c, v) \<in> set (sy_log t) \<longrightarrow> (n, c, v) \<in> set (sy_log s)" by blast
  from returned_step [OF step.hyps(2) st'(1,2)] st'(3,4) show ?case by auto
qed

text \<open>A room keeps its players and channels.\<close>

lemma room_stays:
  assumes "(sys_step grow srt)\<^sup>*\<^sup>* s t" "sy_rooms s k = Some rp"
  shows "\<exists>rp'. sy_rooms t k = Some rp' \<and> rp_room rp' = rp_room rp"
  using assms
proof (induction rule: rtranclp_induct)
  case (step t u)
  then obtain rp' where rp': "sy_rooms t k = Some rp'" "rp_room rp' = rp_room rp" by blast
  from step.hyps(2) show ?case
  proof (cases rule: sys_step.cases)
    case (coordinates k' x c)
    then show ?thesis using rp' co_step_room [of grow "room_view x t" c] by (auto simp: room_view_def)
  next
    case (notifies k' x x' H missed)
    then have "rp_room x' = rp_room x" by (auto simp: notify_next_def split: if_splits outcome.splits)
    then show ?thesis using rp' notifies by auto
  next
    case (launches k' x x')
    then have "rp_room x' = rp_room x" by (auto simp: launch_next_def split: if_splits)
    then show ?thesis using rp' launches by auto
  next
    case (expires k' x)
    then show ?thesis using rp' by (auto simp: deadline_def)
  qed (use rp' in auto)
qed simp

text \<open>A new room with such a player in it is never confirmed.\<close>

lemma returned_refuses:
  assumes srt: "match_sort srt" and run: "runs grow srt s" and st: "sy_streams s n = Some st" "gw_at st = Returned err"
    and later: "(sys_step grow srt)\<^sup>*\<^sup>* s t" and k: "sy_rooms s k = None" "sy_rooms t k = Some rp"
    and q: "gw_qp st \<in> set (rm_players (rp_room rp))"
  shows "GetSession (rm_session (rp_room rp)) (sy_sessions t) = None"
proof (rule ccontr)
  assume "GetSession (rm_session (rp_room rp)) (sy_sessions t) \<noteq> None"
  then obtain sess where sess: "GetSession (rm_session (rp_room rp)) (sy_sessions t) = Some sess" by blast
  have inv: "sys_inv grow s" "sys_inv grow t" by (rule runs_inv(1) [OF srt run], rule runs_inv(1) [OF srt runs_trans [OF run later]])
  note r = sys_facts(4) [OF inv(2) k(2)]
  obtain i where i: "i < 10" "gw_qp st = rp_player rp i"
    using q room_shape(2) [OF r] by (auto simp: in_set_conv_nth rp_player_def)
  have "(rp_resp rp i, True) \<in> snd ` set (sy_log t)"
  proof (rule session_room [OF inv(2) sess])
    fix k' x
    assume x: "sy_rooms t k' = Some x" "rm_session (rp_room x) = rm_session (rp_room rp)"
      and ans: "\<And>i. i < 10 \<Longrightarrow> (rp_resp x i, True) \<in> snd ` set (sy_log t)"
    have "k' = k" using sys_facts(5) [OF inv(2) k(2) x(1)] x(2) by (auto simp: apart_def)
    then show ?thesis using ans [OF i(1)] k(2) x(1) by simp
  qed
  then obtain m where m: "(m, rp_resp rp i, True) \<in> set (sy_log t)" by force
  obtain x y j where x: "sy_streams t m = Some x" "serves t (gw_qp x) y j" "rp_resp rp i = rp_resp y j"
    by (rule log_entry [OF sys_facts(3) [OF inv(2)] m])
  obtain k' where y: "sy_rooms t k' = Some y" "room_inv grow t y" "j < 10" "gw_qp x = rp_player y j"
    by (rule serves_room [OF inv(2) x(2)])
  have c: "rp_resp rp i \<in> set (room_chans (rp_room rp))" by (rule player_slot(4) [OF r i(1)])
  have "rp = y" using same_room [OF inv(2) k(2) y(1) c] player_slot(4) [OF y(2,3)] x(3) by simp
  then have "j = i" using player_slot(5) [OF r i(1) y(3)] x(3) by simp
  then have "gw_qp x = gw_qp st" using y(4) i(2) \<open>rp = y\<close> by simp
  moreover obtain st' where st': "sy_streams t n = Some st'" "gw_qp st' = gw_qp st"
    and old: "\<And>c v. (n, c, v) \<in> set (sy_log t) \<Longrightarrow> (n, c, v) \<in> set (sy_log s)"
    using returned_run [OF later st] by metis
  ultimately have "m = n" using base_facts(6) [OF sys_facts(1) [OF inv(2)] x(1) st'(1)] by simp
  then have old_m: "(n, rp_resp rp i, True) \<in> set (sy_log s)" using old m by simp
  obtain z w l where "sy_streams s n = Some z" and z: "serves s (gw_qp z) w l" "rp_resp rp i = rp_resp w l"
    by (rule log_entry [OF sys_facts(3) [OF inv(1)] old_m])
  obtain kw where w: "sy_rooms s kw = Some w" "room_inv grow s w" "l < 10" by (rule serves_room [OF inv(1) z(1)])
  obtain w' where w': "sy_rooms t kw = Some w'" "rp_room w' = rp_room w" using room_stays [OF later w(1)] by blast
  have "k = kw" using same_room [OF inv(2) k(2) w'(1) c] player_slot(4) [OF w(2,3)] z(2) w'(2) by simp
  then show False using k(1) w(1) by simp
qed

section \<open>A run that leads to it\<close>

lemma no_accepters: "filter snd (zip qs (replicate n False)) = []"
  by (auto simp: filter_empty_conv dest: set_zip_rightD)

lemma one_accepter:
  assumes "length qs = 10"
  shows "map fst (filter snd (zip qs ((replicate 1 True @ replicate 9 False)[1 := False]))) = [qs ! 0]"
proof -
  obtain q qs' where qs: "qs = q # qs'" using assms by (cases qs) simp_all
  have "(replicate 1 True @ replicate 9 False)[1 := False] = True # replicate 9 False" by (simp add: numeral_eq_Suc)
  then show ?thesis by (simp only: qs zip_Cons_Cons filter.simps snd_conv if_True no_accepters) simp
qed

text \<open>The first player has accepted when the second declines: the room fails with one player to put back.\<close>

lemma room_declined:
  assumes srt: "match_sort srt" and run: "runs grow srt s" and p: "playing who k r now 1 s" and r: "length (rm_players r) = 10"
  obtains t rp where "runs grow srt t" "sy_rooms t k = Some rp" "rp_room rp = r" "rp_launched rp" "slot_after who t rp 0"
    and "players (sy_pool t) = Map.empty" "co_at (rp_co rp) = Requeueing [rm_players r ! 0]" "\<not> co_allAccepted (rp_co rp)"
proof -
  have inv: "sys_inv grow s" by (rule runs_inv [OF srt run])
  obtain rp where k: "sy_rooms s k = Some rp" and rp: "rp_launched rp" "rp_co rp = heard_first r 1"
    and zero: "slot_after who s rp 0" and one: "slot_before who s rp 1" and none: "players (sy_pool s) = Map.empty"
    using p unfolding playing_def by auto
  note ri = sys_facts(4) [OF inv k]
  have room: "rp_room rp = r" by (simp add: rp(2) heard_first_def launch_def)
  obtain st where st: "sy_streams s (who 1) = Some st" "gw_at st = Selecting" and qp: "gw_qp st = rp_player rp 1"
    and ev: "holds (heap_of s) (MatchCh (rp_player rp 1)) (rp_event rp 1)" and mute: "\<not> answered s (rp_resp rp 1)"
    using one unfolding slot_before_def by blast
  have idle: "idle (sy_bools s) (ResponseCh (rp_event rp 1))" using response_room [OF ri _ mute] by simp
  obtain st' t where t: "(sys_step grow srt)\<^sup>*\<^sup>* s t" "sy_streams t = (sy_streams s)(who 1 \<mapsto> st')"
    "holds (sy_bools t) (ResponseCh (rp_event rp 1)) False" "sy_rooms t = sy_rooms s" "players (sy_pool t) = players (sy_pool s)"
    using stream_declines [OF st ev [folded qp] idle, of grow srt] by metis
  define co where "co = fail_room ((rp_co rp)\<lparr>co_listening := remove1 1 (co_listening (rp_co rp)),
     co_received := Suc (co_received (rp_co rp)), co_accepted := (co_accepted (rp_co rp))[1 := False]\<rparr>)"
  have co: "co_room co = r" "\<not> co_allAccepted co" "co_at co = Publishing (rm_results r)"
    "co_accepted co = (replicate 1 True @ replicate 9 False)[1 := False]"
    using room by (simp_all add: co_def fail_room_def rp(2) heard_first_def launch_def)
  have kt: "sy_rooms t k = Some rp" using k t(4) by simp
  obtain B where u: "(sys_step grow srt)\<^sup>*\<^sup>* t (t\<lparr>sy_bools := B, sy_rooms := (sy_rooms t)(k \<mapsto> rp\<lparr>rp_co := co\<rparr>)\<rparr>)"
    using coordinator_turn [OF kt rp(1), where j = 1 and v = False] r t(3) room
    by (auto simp: co_def rp(2) heard_first_def launch_def)
  let ?u = "t\<lparr>sy_bools := B, sy_rooms := (sy_rooms t)(k \<mapsto> rp\<lparr>rp_co := co\<rparr>)\<rparr>"
  have run_u: "runs grow srt ?u" by (rule runs_trans [OF runs_trans [OF run t(1)] u])
  have pub: "co = co\<lparr>co_at := Publishing (rm_results r)\<rparr>" using co(3) by simp
  have "accepters co = [rm_players r ! 0]"
    unfolding accepters_def co(1,4) by (rule one_accepter [OF r])
  then have after: "after_verdict co = Requeueing [rm_players r ! 0]" using co(2) by (simp add: after_verdict_def)
  obtain B' where w: "(sys_step grow srt)\<^sup>*\<^sup>* ?u (?u\<lparr>sy_bools := B',
     sy_rooms := (sy_rooms ?u)(k \<mapsto> (rp\<lparr>rp_co := co\<rparr>)\<lparr>rp_co := co\<lparr>co_at := after_verdict co\<rparr>\<rparr>)\<rparr>)"
    using room_publishes [OF srt run_u, where k = k and rp = "rp\<lparr>rp_co := co\<rparr>" and co = co and cs = "rm_results r"] rp(1) pub by auto
  let ?rp = "rp\<lparr>rp_co := co\<lparr>co_at := after_verdict co\<rparr>\<rparr>"
  let ?w = "?u\<lparr>sy_bools := B', sy_rooms := (sy_rooms ?u)(k \<mapsto> ?rp)\<rparr>"
  have same: "rp_player ?rp 0 = rp_player rp 0" "rp_event ?rp 0 = rp_event rp 0"
    using co(1) room by (simp_all add: rp_player_def rp_event_def)
  have "slot_after who ?w ?rp 0"
  proof -
    obtain x where x: "sy_streams s (who 0) = Some x" "gw_qp x = rp_player rp 0" "gw_at x = Awaiting (rp_event rp 0)"
      using zero unfolding slot_after_def by blast
    then have "who 0 \<noteq> who 1" using slots_differ(1) [OF inv k _ _ _ x(1,2) st(1) qp] by simp
    then show ?thesis using x t(2) unfolding slot_after_def same by simp
  qed
  then show thesis
    by (intro that [of ?w ?rp] runs_trans [OF run_u]) (use w after rp(1) none t(5) co in simp_all)
qed

text \<open>Its stream reads the verdict and leaves before the coordinator has put it back.\<close>

lemma ghost_run:
  fixes pid :: "nat \<Rightarrow> string"
  assumes srt: "match_sort srt" and pids: "inj_on pid {..<10}" and bk: "\<forall>i < 10. bracketKey (m i) = bk"
    and ok: "\<forall>i < 10. pid i \<noteq> [] \<and> 0 \<le> sint (m i) \<and> sint (m i) \<le> MaxMMR"
  obtains s n st err where "runs grow srt s" "sy_streams s n = Some st" "gw_at st = Returned err" "gw_qp st \<in> queued (sy_pool s)"
proof -
  obtain s0 where s0: "runs grow srt s0" "gathered pid m 10 s0"
    using join_many [OF srt ok pids] by blast
  obtain s1 who r where s1: "(sys_step grow srt)\<^sup>*\<^sup>* s0 s1" "playing who 0 r 0 0 s1" and r: "length (rm_players r) = 10"
    using room_forms [OF srt s0 pids bk] by metis
  have run1: "runs grow srt s1" by (rule runs_trans [OF s0(1) s1(1)])
  obtain s2 where s2: "(sys_step grow srt)\<^sup>*\<^sup>* s1 s2" "playing who 0 r 0 1 s2"
    using playing_step [OF srt run1 s1(2)] by auto
  obtain s rp where s: "runs grow srt s" "sy_rooms s 0 = Some rp" "rp_room rp = r" "rp_launched rp" "slot_after who s rp 0"
    "players (sy_pool s) = Map.empty" "co_at (rp_co rp) = Requeueing [rm_players r ! 0]" "\<not> co_allAccepted (rp_co rp)"
    using room_declined [OF srt runs_trans [OF run1 s2(1)] s2(2) r] by metis
  note inv = runs_inv [OF srt s(1)]
  obtain st where st: "sy_streams s (who 0) = Some st" "gw_qp st = rm_players r ! 0" "gw_at st = Awaiting (rp_event rp 0)"
    using s(3,5) unfolding slot_after_def rp_player_def by blast
  obtain B where recv: "chan_recv (ResultCh (rp_event rp 0)) (sy_bools s) = (Value False, B)"
    using verdict_ready [OF inv st(1,3) s(2)] s(7,8) by auto
  let ?st = "(pushed True (requeued_response 0) st)\<lparr>gw_at := Selecting\<rparr>"
  let ?t = "stream_next (who 0) ((stream_view st s)\<lparr>g_stream := ?st, g_bools := B\<rparr>) [] s"
  have "on_verdict 0 True st (sy_bools s) = Some (?st, B)" using st(3) recv by (simp add: on_verdict_def)
  then have "gw_step [] (stream_view st s) ((stream_view st s)\<lparr>g_stream := ?st, g_bools := B\<rparr>)"
    by (intro gw_step.verdict [of 0 True]) (simp add: stream_view_def)
  then have "sys_step grow srt s ?t" by (rule stream_step [OF st(1)])
  then have run_t: "runs grow srt ?t" by (rule reachable.move [OF s(1)])
  have pool_t: "sy_pool ?t = sy_pool s" by (simp add: stream_view_def)
  have p_ok: "pool_inv (sy_pool ?t)" by (rule base_facts(8) [OF sys_facts(1) [OF runs_inv(1) [OF srt run_t]]])
  have at_t: "sy_streams ?t (who 0) = Some ?st" "gw_at ?st = Selecting" by simp_all
  obtain st' u where u: "(sys_step grow srt)\<^sup>*\<^sup>* ?t u" "sy_streams u = (sy_streams ?t)(who 0 \<mapsto> st')" "gw_qp st' = gw_qp ?st"
    "gw_at st' = Returned (Some DeadlineExceeded)" "sy_rooms u = sy_rooms ?t"
    "sy_pool u = fst (Dequeue (PlayerID (gw_qp ?st)) (sy_pool ?t))"
    using selecting_leaves [OF p_ok at_t, of grow srt] by blast
  have pool_u: "sy_pool u = sy_pool s" using s(6) pool_t by (simp add: u(6) Dequeue_missing)
  have run_u: "runs grow srt u" by (rule runs_trans [OF run_t u(1)])
  let ?co = "(rp_co rp)\<lparr>co_at := Requeueing []\<rparr>" and ?p = "fst (ReEnqueue grow (rm_players r ! 0) (sy_pool u))"
  have "requeue grow (rp_co rp) (sy_pool u) = Some (?co, ?p)" using s(7) by (simp add: requeue_def)
  then have "co_step grow (room_view rp u) ((room_view rp u)\<lparr>ck_co := ?co, ck_pool := ?p\<rparr>)"
    by (intro co_step.requeued) (simp add: room_view_def)
  from sys_step.coordinates [OF _ s(4) this, of 0 srt] u(5) s(2)
  have step: "sys_step grow srt u (u\<lparr>sy_pool := ?p, sy_rooms := (sy_rooms u)(0 \<mapsto> rp\<lparr>rp_co := ?co\<rparr>)\<rparr>)"
    by (simp add: room_view_def)
  have "rm_players r ! 0 \<in> queued ?p" using s(6) pool_u by (simp add: ReEnqueue_def Let_def queued_def)
  then show thesis
    by (intro that [OF reachable.move [OF run_u step], of "who 0" st'])
      (use u(2-4) st(2) in \<open>simp_all add: pushed_def\<close>)
qed

section \<open>Ten players\<close>

definition demo_id :: "nat \<Rightarrow> string" where
  "demo_id i = replicate (Suc i) (CHR ''p'')"

lemma demo_ids: "inj_on demo_id A" "demo_id i \<noteq> []"
  by (auto simp: demo_id_def inj_on_def dest: arg_cong [where f = length])

lemma demo_mmr: "bracketKey 1000 = 2" "0 \<le> sint (1000 :: i32)" "sint (1000 :: i32) \<le> MaxMMR"
  by (simp_all add: bracketKey_def BracketSize_def MaxMMR_def)

abbreviation demo_grow :: "nat \<Rightarrow> nat \<Rightarrow> nat" where
  "demo_grow \<equiv> \<lambda>c n. n"

lemma demo_gathered:
  obtains s where "runs demo_grow insertionSort s" "gathered demo_id (\<lambda>_. 1000) 10 s"
  using join_many [OF match_insertion.match_sort_axioms, of 10 demo_id "\<lambda>_. 1000"] demo_ids demo_mmr by blast

lemma demo_decided:
  obtains s rp who where "runs demo_grow insertionSort s" "sy_rooms s 0 = Some rp" "rm_session (rp_room rp) = ''s''"
    and "set (map PlayerID (rm_players (rp_room rp))) = demo_id ` {..<10}" "length (rm_players (rp_room rp)) = 10"
    and "co_at (rp_co rp) = Finished" "co_allAccepted (rp_co rp)" "\<And>i. i < 10 \<Longrightarrow> slot_after who s rp i"
  by (rule match_decided [OF match_insertion.match_sort_axioms, of demo_id "\<lambda>_. 1000" 2, where sid = "''s''"])
    (use demo_ids demo_mmr in blast)+

lemma demo_session:
  obtains s t where "runs demo_grow insertionSort s" "GetSession ''s'' (sy_sessions s) = Some t"
proof (rule demo_decided)
  fix s rp
  assume s: "runs demo_grow insertionSort s" "sy_rooms s 0 = Some rp" "rm_session (rp_room rp) = ''s''"
    and fin: "co_at (rp_co rp) = Finished" "co_allAccepted (rp_co rp)"
  have "confirmed (rp_co rp)" using fin by (simp add: confirmed_def)
  then show thesis
    using confirmed_session [OF runs_inv(1) [OF match_insertion.match_sort_axioms s(1)] s(2)] s(1,3) that by metis
qed

end
