(* ===== verification/Nexus_Service.thy ===== *)
theory Nexus_Service
  imports Nexus_Ghost
begin

text \<open>
  What the server promises, without its streams, channels, brackets, goroutines and timers: people wait
  with a ticket each, ten of them are called together, a call is met or fails, a met call opens a session,
  those who had agreed to a failed call may return to the queue, and the members of a session submit one
  result each. Every step of the machine of \<open>Nexus_System\<close> is one step of this specification or none.
\<close>

section \<open>The specification\<close>

record Ticket =
  tk_id :: string
  tk_mmr :: int
  tk_since :: gtime
  tk_number :: nat

text \<open>\<open>Failed T\<close> keeps the tickets that are still to be put back.\<close>

datatype promise = Asking | Met | Failed "Ticket set"

record Match =
  mt_session :: string
  mt_tickets :: "Ticket list"
  mt_state :: promise

record Service =
  sv_waiting :: "string \<rightharpoonup> Ticket"
  sv_matches :: "nat \<rightharpoonup> Match"
  sv_sessions :: "string \<rightharpoonup> string list \<times> (string \<rightharpoonup> i32 \<times> i32)"

definition service_init :: "Service \<Rightarrow> bool" where
  "service_init S \<longleftrightarrow> S = \<lparr>sv_waiting = Map.empty, sv_matches = Map.empty, sv_sessions = Map.empty\<rparr>"

definition valid_ticket :: "Ticket \<Rightarrow> bool" where
  "valid_ticket t \<longleftrightarrow> 0 \<le> tk_mmr t \<and> tk_mmr t \<le> MaxMMR"

definition tickets :: "Service \<Rightarrow> Ticket set" where
  "tickets S = ran (sv_waiting S) \<union> (\<Union>m \<in> ran (sv_matches S). set (mt_tickets m))"

text \<open>Ten different people who wait, from five neighbouring brackets.\<close>

definition may_call :: "Ticket list \<Rightarrow> Service \<Rightarrow> bool" where
  "may_call ts S \<longleftrightarrow> length ts = 10 \<and> distinct (map tk_id ts) \<and> (\<forall>t \<in> set ts. sv_waiting S (tk_id t) = Some t)
     \<and> (\<exists>b. \<forall>t \<in> set ts. \<bar>tk_mmr t div BracketSize - b\<bar> \<le> MaxBracketExpansion)"

inductive service_step :: "Service \<Rightarrow> Service \<Rightarrow> bool" where
  arrives: "sv_waiting S (tk_id t) = None \<Longrightarrow> valid_ticket t \<Longrightarrow> tk_number t \<notin> tk_number ` tickets S
     \<Longrightarrow> service_step S (S\<lparr>sv_waiting := (sv_waiting S)(tk_id t \<mapsto> t)\<rparr>)"
| leaves: "service_step S (S\<lparr>sv_waiting := (sv_waiting S)(i := None)\<rparr>)"
| calls: "may_call ts S \<Longrightarrow> sv_matches S k = None \<Longrightarrow> \<forall>m \<in> ran (sv_matches S). mt_session m \<noteq> sid
     \<Longrightarrow> service_step S (S\<lparr>sv_waiting := (sv_waiting S) |` (- tk_id ` set ts),
           sv_matches := (sv_matches S)(k \<mapsto> \<lparr>mt_session = sid, mt_tickets = ts, mt_state = Asking\<rparr>)\<rparr>)"
| meets: "sv_matches S k = Some m \<Longrightarrow> mt_state m = Asking
     \<Longrightarrow> service_step S (S\<lparr>sv_matches := (sv_matches S)(k \<mapsto> m\<lparr>mt_state := Met\<rparr>),
           sv_sessions := (sv_sessions S)(mt_session m \<mapsto> (map tk_id (mt_tickets m), Map.empty))\<rparr>)"
| fails: "sv_matches S k = Some m \<Longrightarrow> mt_state m = Asking \<Longrightarrow> T \<subset> set (mt_tickets m)
     \<Longrightarrow> service_step S (S\<lparr>sv_matches := (sv_matches S)(k \<mapsto> m\<lparr>mt_state := Failed T\<rparr>)\<rparr>)"
| returns: "sv_matches S k = Some m \<Longrightarrow> mt_state m = Failed T \<Longrightarrow> t \<in> T \<Longrightarrow> sv_waiting S (tk_id t) = None
     \<Longrightarrow> service_step S (S\<lparr>sv_waiting := (sv_waiting S)(tk_id t \<mapsto> t),
           sv_matches := (sv_matches S)(k \<mapsto> m\<lparr>mt_state := Failed (T - {t})\<rparr>)\<rparr>)"
| drops: "sv_matches S k = Some m \<Longrightarrow> mt_state m = Failed T \<Longrightarrow> t \<in> T \<Longrightarrow> sv_waiting S (tk_id t) \<noteq> None
     \<Longrightarrow> service_step S (S\<lparr>sv_matches := (sv_matches S)(k \<mapsto> m\<lparr>mt_state := Failed (T - {t})\<rparr>)\<rparr>)"
| records: "sv_sessions S sid = Some (ids, R) \<Longrightarrow> i \<in> set ids \<Longrightarrow> R i = None \<Longrightarrow> x \<in> {(1, 25), (2, - 25), (3, 0)}
     \<Longrightarrow> service_step S (S\<lparr>sv_sessions := (sv_sessions S)(sid \<mapsto> (ids, R(i \<mapsto> x)))\<rparr>)"

inductive_cases service_stepE: "service_step S S'"

section \<open>What the specification promises\<close>

fun owed :: "promise \<Rightarrow> Ticket list \<Rightarrow> Ticket set" where
  "owed Asking ts = set ts"
| "owed Met ts = {}"
| "owed (Failed T) ts = T"

abbreviation owes :: "Match \<Rightarrow> Ticket set" where
  "owes m \<equiv> owed (mt_state m) (mt_tickets m)"

definition match_ok :: "Match \<Rightarrow> bool" where
  "match_ok m \<longleftrightarrow> length (mt_tickets m) = 10 \<and> distinct (map tk_id (mt_tickets m)) \<and> owes m \<subseteq> set (mt_tickets m)
     \<and> (\<forall>t \<in> set (mt_tickets m). valid_ticket t)
     \<and> (\<forall>t \<in> set (mt_tickets m). \<forall>u \<in> set (mt_tickets m). \<bar>tk_mmr t - tk_mmr u\<bar> < 2500)"

definition waiting_ok :: "Service \<Rightarrow> bool" where
  "waiting_ok S \<longleftrightarrow> (\<forall>i t. sv_waiting S i = Some t \<longrightarrow> tk_id t = i \<and> valid_ticket t) \<and> inj_on tk_number (tickets S)"

definition apart_ok :: "Service \<Rightarrow> bool" where
  "apart_ok S \<longleftrightarrow> (\<forall>k m. sv_matches S k = Some m \<longrightarrow> match_ok m \<and> owes m \<inter> ran (sv_waiting S) = {})
     \<and> (\<forall>k m k' m'. sv_matches S k = Some m \<longrightarrow> sv_matches S k' = Some m' \<longrightarrow> k \<noteq> k' \<longrightarrow>
          owes m \<inter> owes m' = {} \<and> mt_session m \<noteq> mt_session m')"

definition sessions_ok :: "Service \<Rightarrow> bool" where
  "sessions_ok S \<longleftrightarrow> (\<forall>sid ids R. sv_sessions S sid = Some (ids, R) \<longrightarrow>
       dom R \<subseteq> set ids \<and> ran R \<subseteq> {(1, 25), (2, - 25), (3, 0)}
       \<and> (\<exists>m \<in> ran (sv_matches S). mt_state m = Met \<and> mt_session m = sid \<and> ids = map tk_id (mt_tickets m)))"

definition service_inv :: "Service \<Rightarrow> bool" where
  "service_inv S \<longleftrightarrow> waiting_ok S \<and> apart_ok S \<and> sessions_ok S"

lemma waitingD:
  assumes "waiting_ok S" "sv_waiting S i = Some t"
  shows "tk_id t = i" "valid_ticket t" "t \<in> tickets S"
  using assms by (auto simp: waiting_ok_def tickets_def ran_def)

lemma waiting_less:
  assumes "waiting_ok S" "W \<subseteq>\<^sub>m sv_waiting S" "tickets (S\<lparr>sv_waiting := W, sv_matches := M\<rparr>) \<subseteq> tickets S"
  shows "waiting_ok (S\<lparr>sv_waiting := W, sv_matches := M\<rparr>)"
  using assms unfolding waiting_ok_def by (auto intro: inj_on_subset simp: map_le_def domIff) (metis domI map_le_def option.inject)+

text \<open>Replacing one match by one that owes less.\<close>

lemma apart_less:
  assumes "apart_ok S" "sv_matches S k = Some m" "mt_session m' = mt_session m" "match_ok m'" "owes m' \<subseteq> owes m"
    and "owes m' \<inter> ran W = {}" "ran W \<subseteq> ran (sv_waiting S) \<union> owes m"
  shows "apart_ok (S\<lparr>sv_waiting := W, sv_matches := (sv_matches S)(k \<mapsto> m')\<rparr>)"
  unfolding apart_ok_def
proof (intro conjI allI impI)
  have away: "owes m2 \<inter> owes m = {}" "owes m2 \<inter> ran (sv_waiting S) = {}" "match_ok m2" "mt_session m2 \<noteq> mt_session m"
    if "sv_matches S k2 = Some m2" "k2 \<noteq> k" for k2 m2
    using assms(1,2) that unfolding apart_ok_def by metis+
  fix k1 m1
  assume 1: "sv_matches (S\<lparr>sv_waiting := W, sv_matches := (sv_matches S)(k \<mapsto> m')\<rparr>) k1 = Some m1"
  show "match_ok m1" using 1 assms(4) away(3) by (auto split: if_splits)
  show "owes m1 \<inter> ran (sv_waiting (S\<lparr>sv_waiting := W, sv_matches := (sv_matches S)(k \<mapsto> m')\<rparr>)) = {}"
  proof (cases "k1 = k")
    case False
    then have "sv_matches S k1 = Some m1" using 1 by simp
    with away(1,2) [OF this False] assms(7) show ?thesis by auto
  qed (use 1 assms(6) in simp)
  fix k2 m2
  assume 2: "sv_matches (S\<lparr>sv_waiting := W, sv_matches := (sv_matches S)(k \<mapsto> m')\<rparr>) k2 = Some m2" and ne: "k1 \<noteq> k2"
  show "owes m1 \<inter> owes m2 = {}"
    using 1 2 ne assms(1,5) away(1) unfolding apart_ok_def by (simp split: if_splits) blast+
  show "mt_session m1 \<noteq> mt_session m2"
    using 1 2 ne assms(1,3) away(4) unfolding apart_ok_def by (auto split: if_splits) metis+
qed

lemma sessions_keep:
  assumes "sessions_ok S" "\<And>m. m \<in> ran (sv_matches S) \<Longrightarrow> mt_state m = Met \<Longrightarrow> m \<in> ran M"
  shows "sessions_ok (S\<lparr>sv_waiting := W, sv_matches := M\<rparr>)"
  unfolding sessions_ok_def
proof (intro allI impI)
  fix sid ids R
  assume "sv_sessions (S\<lparr>sv_waiting := W, sv_matches := M\<rparr>) sid = Some (ids, R)"
  then have "sv_sessions S sid = Some (ids, R)" by simp
  with assms(1) obtain m where m: "m \<in> ran (sv_matches S)" "mt_state m = Met" "mt_session m = sid" "ids = map tk_id (mt_tickets m)"
    and R: "dom R \<subseteq> set ids" "ran R \<subseteq> {(1, 25), (2, - 25), (3, 0)}"
    unfolding sessions_ok_def by blast
  have "m \<in> ran M" by (rule assms(2) [OF m(1,2)])
  with m R show "dom R \<subseteq> set ids \<and> ran R \<subseteq> {(1, 25), (2, - 25), (3, 0)}
      \<and> (\<exists>m \<in> ran (sv_matches (S\<lparr>sv_waiting := W, sv_matches := M\<rparr>)). mt_state m = Met \<and> mt_session m = sid \<and> ids = map tk_id (mt_tickets m))"
    by auto
qed

lemma ran_other:
  assumes "x \<in> ran M" "M k = Some m" "x \<noteq> m"
  shows "x \<in> ran (M(k \<mapsto> y))"
proof -
  obtain a where "M a = Some x" using assms(1) by (auto simp: ran_def)
  then have "(M(k \<mapsto> y)) a = Some x" using assms(2,3) by auto
  then show ?thesis by (rule ranI)
qed

lemma same_bracket: "\<bar>x div BracketSize - b\<bar> \<le> MaxBracketExpansion \<Longrightarrow> \<bar>y div BracketSize - b\<bar> \<le> MaxBracketExpansion \<Longrightarrow> \<bar>x - y\<bar> < 2500"
  unfolding BracketSize_def MaxBracketExpansion_def
  using div_mult_mod_eq [of x 500] div_mult_mod_eq [of y 500] pos_mod_bound [of 500 x] pos_mod_bound [of 500 y]
    pos_mod_sign [of 500 x] pos_mod_sign [of 500 y]
  by linarith

lemma tickets_upd:
  assumes "sv_matches S k = Some m" "mt_tickets m' = mt_tickets m"
  shows "tickets (S\<lparr>sv_waiting := W, sv_matches := (sv_matches S)(k \<mapsto> m')\<rparr>) = ran W \<union> (\<Union>m \<in> ran (sv_matches S). set (mt_tickets m))"
proof -
  have "(\<Union>m \<in> ran ((sv_matches S)(k \<mapsto> m')). set (mt_tickets m)) = (\<Union>m \<in> ran (sv_matches S). set (mt_tickets m))"
    using assms by (auto simp: ran_def split: if_splits) (metis option.inject)
  then show ?thesis by (simp add: tickets_def)
qed

lemma service_matchD:
  assumes "service_inv S" "sv_matches S k = Some m"
  shows "match_ok m" "owes m \<inter> ran (sv_waiting S) = {}" "set (mt_tickets m) \<subseteq> tickets S"
  using assms by (auto simp: service_inv_def apart_ok_def tickets_def ran_def)

text \<open>A match that moves on without anyone coming back.\<close>

lemma service_moves_on:
  assumes inv: "service_inv S" and m: "sv_matches S k = Some m" and T: "owed p (mt_tickets m) \<subseteq> owes m" and met: "mt_state m \<noteq> Met"
  shows "service_inv (S\<lparr>sv_matches := (sv_matches S)(k \<mapsto> m\<lparr>mt_state := p\<rparr>)\<rparr>)"
proof -
  let ?M = "(sv_matches S)(k \<mapsto> m\<lparr>mt_state := p\<rparr>)"
  note d = service_matchD [OF inv m]
  have ok: "match_ok (m\<lparr>mt_state := p\<rparr>)" using d(1) T by (auto simp: match_ok_def)
  have "waiting_ok (S\<lparr>sv_waiting := sv_waiting S, sv_matches := ?M\<rparr>)"
    using inv tickets_upd [OF m, of "m\<lparr>mt_state := p\<rparr>" "sv_waiting S"]
    by (intro waiting_less) (auto simp: service_inv_def tickets_def)
  moreover have "apart_ok (S\<lparr>sv_waiting := sv_waiting S, sv_matches := ?M\<rparr>)"
    by (rule apart_less [OF _ m]) (use inv ok T d in \<open>auto simp: service_inv_def\<close>)
  moreover have "sessions_ok (S\<lparr>sv_waiting := sv_waiting S, sv_matches := ?M\<rparr>)"
  proof (rule sessions_keep)
    show "m1 \<in> ran ?M" if "m1 \<in> ran (sv_matches S)" "mt_state m1 = Met" for m1
      using that met by (intro ran_other [where M = "sv_matches S", OF _ m]) auto
  qed (use inv in \<open>simp add: service_inv_def\<close>)
  ultimately show ?thesis by (simp add: service_inv_def)
qed

text \<open>Calling ten people, and taking one back.\<close>

lemma service_inv_calls:
  assumes inv: "service_inv S" and call: "may_call ts S" and k: "sv_matches S k = None"
    and sid: "\<forall>m \<in> ran (sv_matches S). mt_session m \<noteq> sid"
  shows "service_inv (S\<lparr>sv_waiting := (sv_waiting S) |` (- tk_id ` set ts),
           sv_matches := (sv_matches S)(k \<mapsto> \<lparr>mt_session = sid, mt_tickets = ts, mt_state = Asking\<rparr>)\<rparr>)" (is "service_inv ?S'")
proof -
  have w: "waiting_ok S" and ap: "apart_ok S" and se: "sessions_ok S" using inv by (simp_all add: service_inv_def)
  let ?m = "\<lparr>mt_session = sid, mt_tickets = ts, mt_state = Asking\<rparr>" and ?W = "(sv_waiting S) |` (- tk_id ` set ts)"
  have ts: "length ts = 10" "distinct (map tk_id ts)" "\<forall>t \<in> set ts. sv_waiting S (tk_id t) = Some t"
    and near: "\<exists>b. \<forall>t \<in> set ts. \<bar>tk_mmr t div BracketSize - b\<bar> \<le> MaxBracketExpansion"
    using call by (auto simp: may_call_def)
  have sub: "set ts \<subseteq> ran (sv_waiting S)" using ts(3) by (auto simp: ran_def)
  have rest: "ran ?W = ran (sv_waiting S) - set ts"
    using ts(3) w by (auto simp: ran_def restrict_map_def waiting_ok_def image_iff split: if_splits)
  have "\<forall>t \<in> set ts. \<forall>u \<in> set ts. \<bar>tk_mmr t - tk_mmr u\<bar> < 2500" using near same_bracket by blast
  then have ok: "match_ok ?m" using ts w by (auto simp: match_ok_def waiting_ok_def)
  have "tickets ?S' = tickets S" using k sub rest by (auto simp: tickets_def ran_map_upd)
  then have "waiting_ok ?S'"
    by (intro waiting_less [OF w]) (simp_all add: map_le_def)
  moreover have "apart_ok ?S'"
    unfolding apart_ok_def
  proof (intro conjI allI impI)
    have old: "owes m \<inter> set ts = {}" "owes m \<inter> ran (sv_waiting S) = {}" "match_ok m" "mt_session m \<noteq> sid"
      if "sv_matches S k1 = Some m" for k1 m
      using service_matchD [OF inv that] sub sid that by (auto simp: ran_def)
    have M: "sv_matches ?S' = (sv_matches S)(k \<mapsto> ?m)" by simp
    have W: "ran (sv_waiting ?S') = ran (sv_waiting S) - set ts" using rest by simp
    show "match_ok m" "owes m \<inter> ran (sv_waiting ?S') = {}" if m: "sv_matches ?S' k1 = Some m" for k1 m
    proof -
      have "k1 = k \<and> m = ?m \<or> sv_matches S k1 = Some m" using m unfolding M by (auto split: if_splits)
      then show "match_ok m" "owes m \<inter> ran (sv_waiting ?S') = {}" unfolding W using ok old(2,3) by auto
    qed
    show "owes m \<inter> owes m' = {}" "mt_session m \<noteq> mt_session m'"
      if m: "sv_matches ?S' k1 = Some m" "sv_matches ?S' k2 = Some m'" "k1 \<noteq> k2" for k1 k2 m m'
    proof -
      consider "m = ?m" "sv_matches S k2 = Some m'" | "m' = ?m" "sv_matches S k1 = Some m"
        | "sv_matches S k1 = Some m" "sv_matches S k2 = Some m'"
        using m unfolding M by (cases "k1 = k"; cases "k2 = k") auto
      then have "owes m \<inter> owes m' = {} \<and> mt_session m \<noteq> mt_session m'"
      proof cases
        case 1
        then show ?thesis using old(1,4) [OF 1(2)] by auto
      next
        case 2
        then show ?thesis using old(1,4) [OF 2(2)] by auto
      next
        case 3
        then show ?thesis using ap m(3) unfolding apart_ok_def by metis
      qed
      then show "owes m \<inter> owes m' = {}" "mt_session m \<noteq> mt_session m'" by simp_all
    qed
  qed
  moreover have "sessions_ok ?S'"
    by (rule sessions_keep [OF se]) (use k in \<open>auto simp: ran_map_upd\<close>)
  ultimately show ?thesis by (simp add: service_inv_def)
qed

lemma service_inv_returns:
  assumes inv: "service_inv S" and m: "sv_matches S k = Some m" and st: "mt_state m = Failed T" and mem: "t \<in> T"
    and out: "sv_waiting S (tk_id t) = None"
  shows "service_inv (S\<lparr>sv_waiting := (sv_waiting S)(tk_id t \<mapsto> t),
           sv_matches := (sv_matches S)(k \<mapsto> m\<lparr>mt_state := Failed (T - {t})\<rparr>)\<rparr>)" (is "service_inv ?S'")
proof -
  have w: "waiting_ok S" and ap: "apart_ok S" and se: "sessions_ok S" using inv by (simp_all add: service_inv_def)
  let ?W = "(sv_waiting S)(tk_id t \<mapsto> t)" and ?m = "m\<lparr>mt_state := Failed (T - {t})\<rparr>"
  note d = service_matchD [OF inv m]
  have t: "t \<in> set (mt_tickets m)" using d(1) st mem by (auto simp: match_ok_def)
  have r: "ran ?W = insert t (ran (sv_waiting S))" using out by (simp add: ran_map_upd)
  have tk: "tickets ?S' \<subseteq> tickets S"
    using tickets_upd [OF m, of ?m ?W] t m r d(3) by (auto simp: tickets_def)
  have "valid_ticket t" using d(1) t by (simp add: match_ok_def)
  then have "waiting_ok ?S'"
    using w tk unfolding waiting_ok_def by (auto intro: inj_on_subset)
  moreover have "apart_ok ?S'"
    by (rule apart_less [OF ap m]) (use d r st mem in \<open>auto simp: match_ok_def\<close>)
  moreover have "sessions_ok ?S'"
  proof (rule sessions_keep [OF se])
    show "m1 \<in> ran ((sv_matches S)(k \<mapsto> ?m))" if "m1 \<in> ran (sv_matches S)" "mt_state m1 = Met" for m1
      using that st by (intro ran_other [where M = "sv_matches S", OF _ m]) auto
  qed
  ultimately show ?thesis by (simp add: service_inv_def)
qed

lemma service_inv_step:
  assumes inv: "service_inv S" and step: "service_step S S'"
  shows "service_inv S'"
proof -
  have w: "waiting_ok S" and ap: "apart_ok S" and se: "sessions_ok S" using inv by (simp_all add: service_inv_def)
  show ?thesis
    using step
  proof (cases rule: service_step.cases)
    case (arrives t)
    have tk: "tickets S' = insert t (tickets S)" using arrives(1,2) by (auto simp: tickets_def ran_map_upd)
    have "t \<notin> tickets S" using arrives(4) by blast
    then have "owes m \<inter> ran (sv_waiting S') = {}" if "sv_matches S k = Some m" for k m
      using service_matchD [OF inv that] arrives(1,2) by (auto simp: match_ok_def ran_map_upd)
    then have "apart_ok S'" using ap arrives(1) by (simp add: apart_ok_def)
    moreover have "waiting_ok S'"
      using w arrives(1,3,4) unfolding waiting_ok_def tk by auto
    moreover have "sessions_ok S'" using se arrives(1) by (simp add: sessions_ok_def)
    ultimately show ?thesis by (simp add: service_inv_def)
  next
    case (leaves i)
    have r: "ran ((sv_waiting S)(i := None)) \<subseteq> ran (sv_waiting S)" by (auto simp: ran_def)
    then have "waiting_ok (S\<lparr>sv_waiting := (sv_waiting S)(i := None), sv_matches := sv_matches S\<rparr>)"
      by (intro waiting_less [OF w]) (auto simp: map_le_def tickets_def)
    moreover have "apart_ok S'" using ap r leaves by (fastforce simp: apart_ok_def)
    moreover have "sessions_ok S'" using se leaves by (simp add: sessions_ok_def)
    ultimately show ?thesis using leaves by (simp add: service_inv_def)
  next
    case (calls ts k sid)
    then show ?thesis using service_inv_calls [OF inv] by simp
  next
    case (meets k m)
    let ?m = "m\<lparr>mt_state := Met\<rparr>" and ?M = "(sv_matches S)(k \<mapsto> m\<lparr>mt_state := Met\<rparr>)"
    have "service_inv (S\<lparr>sv_matches := ?M\<rparr>)" by (rule service_moves_on [OF inv meets(2)]) (use meets(3) in simp_all)
    then have *: "waiting_ok S'" "apart_ok S'" "sessions_ok (S\<lparr>sv_matches := ?M\<rparr>)"
      using meets(1) by (simp_all add: service_inv_def waiting_ok_def apart_ok_def tickets_def)
    have "?m \<in> ran ?M" by (auto simp: ran_def)
    then have "\<exists>m1 \<in> ran ?M. mt_state m1 = Met \<and> mt_session m1 = mt_session m \<and> map tk_id (mt_tickets m) = map tk_id (mt_tickets m1)"
      by (rule bexI [rotated]) simp
    then have "sessions_ok S'" using *(3) meets(1) by (auto simp: sessions_ok_def)
    with * show ?thesis by (simp add: service_inv_def)
  next
    case (fails k m T)
    then show ?thesis using service_moves_on [OF inv fails(2), of "Failed T"] by auto
  next
    case (drops k m T t)
    then show ?thesis using service_moves_on [OF inv drops(2), of "Failed (T - {t})"] by auto
  next
    case (returns k m T t)
    then show ?thesis using service_inv_returns [OF inv] by simp
  next
    case (records sid ids R i x)
    then have "sessions_ok S'" using se by (auto simp: sessions_ok_def ran_map_upd)
    moreover have "waiting_ok S'" "apart_ok S'"
      using w ap records(1) by (simp_all add: waiting_ok_def apart_ok_def tickets_def)
    ultimately show ?thesis by (simp add: service_inv_def)
  qed
qed

interpretation service: inductive_invariant service_init service_step service_inv
proof unfold_locales
  show "service_inv S" if "service_init S" for S
    using that by (simp add: service_init_def service_inv_def waiting_ok_def apart_ok_def sessions_ok_def tickets_def)
qed (rule service_inv_step)

section \<open>The server as the specification sees it\<close>

definition ticket_of :: "QueuedPlayer \<Rightarrow> Ticket" where
  "ticket_of q = \<lparr>tk_id = PlayerID q, tk_mmr = sint (MMR q), tk_since = EnqueuedAt q, tk_number = MatchCh q\<rparr>"

definition promise_of :: "Coordinator \<Rightarrow> promise" where
  "promise_of co = (if co_at co = Gathering then Asking else if co_allAccepted co then Met else Failed (ticket_of ` claims co))"

definition match_of :: "RoomProc \<Rightarrow> Match" where
  "match_of rp = \<lparr>mt_session = rm_session (rp_room rp), mt_tickets = map ticket_of (rm_players (rp_room rp)),
     mt_state = promise_of (rp_co rp)\<rparr>"

definition marks :: "Session \<Rightarrow> string list \<times> (string \<rightharpoonup> i32 \<times> i32)" where
  "marks s = (PlayerIDs s, map_option (\<lambda>e. (re_Result e, MMRDelta e)) \<circ> Results s)"

definition service_of :: "System \<Rightarrow> Service" where
  "service_of s = \<lparr>sv_waiting = map_option ticket_of \<circ> players (sy_pool s),
     sv_matches = map_option match_of \<circ> sy_rooms s, sv_sessions = map_option marks \<circ> sessions (sy_sessions s)\<rparr>"

lemma ticket_of_simps [simp]: "tk_id (ticket_of q) = PlayerID q" "tk_mmr (ticket_of q) = mmr q" "tk_number (ticket_of q) = MatchCh q"
  by (simp_all add: ticket_of_def)

lemma service_of_simps [simp]:
  "sv_waiting (service_of s) = map_option ticket_of \<circ> players (sy_pool s)"
  "sv_matches (service_of s) = map_option match_of \<circ> sy_rooms s"
  "sv_sessions (service_of s) = map_option marks \<circ> sessions (sy_sessions s)"
  by (simp_all add: service_of_def)

lemma match_of_same:
  assumes "rp_room rp' = rp_room rp" "promise_of (rp_co rp') = promise_of (rp_co rp)"
  shows "match_of rp' = match_of rp"
  using assms by (simp add: match_of_def)

text \<open>Steps that the specification does not see.\<close>

lemma service_same:
  assumes "players (sy_pool t) = players (sy_pool s)" "sessions (sy_sessions t) = sessions (sy_sessions s)"
    and "sy_rooms t = (sy_rooms s)(k \<mapsto> rp')" "sy_rooms s k = Some rp" "match_of rp' = match_of rp"
  shows "service_of t = service_of s"
proof -
  have "(map_option match_of \<circ> sy_rooms s)(k \<mapsto> match_of rp) = map_option match_of \<circ> sy_rooms s"
    using assms(4) by (intro fun_upd_idem) simp
  then show ?thesis using assms by (simp add: service_of_def)
qed

lemma map_option_restrict: "map_option f \<circ> (m |` A) = (map_option f \<circ> m) |` A"
  by (auto simp: restrict_map_def)

lemma tickets_known:
  assumes inv: "sys_inv grow s" and t: "t \<in> tickets (service_of s)"
  shows "cells (heap_of s) (tk_number t) \<noteq> None"
proof -
  have "t \<in> ticket_of ` members s"
    using t base_facts(4) [OF sys_facts(1) [OF inv]] sys_facts(4) [OF inv]
    unfolding tickets_def room_inv_def by (fastforce simp: match_of_def ran_def queued_def)
  then show ?thesis
    using stream_facts(3) [OF sys_facts(6) [OF inv]] by (auto simp: members_def ran_def)
qed

lemma service_joins:
  assumes inv: "sys_inv grow s" and e: "EnterMatchmaking grow joined now ok msg (sy_pool s) = (p, Inr st)"
  shows "service_step (service_of s) (service_of (s\<lparr>sy_pool := p, sy_streams := Z\<rparr>))"
proof -
  note r = enter_ready [OF base_facts(1) [OF sys_facts(1) [OF inv]] e]
  let ?t = "ticket_of (gw_qp st)"
  obtain player :: PlayerInfo and qp where st: "st = fresh_stream now ok qp"
    and enq: "Enqueue grow joined (pi_PlayerId player) (pi_DisplayName player) (pi_Mmr player) (sy_pool s) = (p, Inr qp)"
    by (rule EnterMatchmaking_Inr [OF e]) (rule that)
  have pl: "players p = (players (sy_pool s))(PlayerID qp \<mapsto> qp)" "players (sy_pool s) (PlayerID qp) = None" "gw_qp st = qp"
    using enq by (auto simp: Enqueue_def Let_def st fresh_stream_def pushed_def split: if_splits prod.splits)
  have "sv_waiting (service_of s) (tk_id ?t) = None" using pl by simp
  moreover have "valid_ticket ?t" using r(3) by (simp add: valid_ticket_def valid_mmr_def)
  moreover have "tk_number ?t \<notin> tk_number ` tickets (service_of s)"
  proof
    assume "tk_number ?t \<in> tk_number ` tickets (service_of s)"
    then obtain u where "u \<in> tickets (service_of s)" "tk_number u = tk_number ?t" by auto
    then show False using tickets_known [OF inv, of u] r(4) by simp
  qed
  ultimately have "service_step (service_of s) ((service_of s)\<lparr>sv_waiting := (sv_waiting (service_of s))(tk_id ?t \<mapsto> ?t)\<rparr>)"
    by (rule service_step.arrives)
  moreover have "service_of (s\<lparr>sy_pool := p, sy_streams := Z\<rparr>) = (service_of s)\<lparr>sv_waiting := (sv_waiting (service_of s))(tk_id ?t \<mapsto> ?t)\<rparr>"
    using pl by (simp add: service_of_def)
  ultimately show ?thesis by simp
qed

lemma service_streams:
  assumes inv: "sys_inv grow s" and step: "gw_step sent (stream_view st s) g"
  shows "service_of (s\<lparr>sy_pool := g_pool g, sy_bools := B, sy_streams := Z, sy_log := l\<rparr>) = service_of s
    \<or> service_step (service_of s) (service_of (s\<lparr>sy_pool := g_pool g, sy_bools := B, sy_streams := Z, sy_log := l\<rparr>))"
  using step
proof (cases rule: gw_step_effect)
  case (left news)
  let ?i = "PlayerID (gw_qp st)"
  have "players (g_pool g) = (players (sy_pool s))(?i := None)"
    using Dequeue_players [OF base_facts(8) [OF sys_facts(1) [OF inv]], of ?i] left(1) by (simp add: stream_view_def)
  then have "service_of (s\<lparr>sy_pool := g_pool g, sy_bools := B, sy_streams := Z, sy_log := l\<rparr>)
      = (service_of s)\<lparr>sv_waiting := (sv_waiting (service_of s))(?i := None)\<rparr>"
    by (simp add: service_of_def fun_upd_comp)
  then show ?thesis using service_step.leaves [of "service_of s" ?i] by simp
qed (simp_all add: stream_view_def service_of_def)

lemma service_extracts:
  assumes srt: "match_sort srt" and inv: "sys_inv grow s"
    and ex: "ExtractMatch srt ks now (sy_pool s) = (p, Some qs)" and ks: "covers ks (brackets (sy_pool s))"
    and sid: "fresh_id sid s" and k: "sy_rooms s k = None" and op: "open_room sid later_t qs (sy_bools s) = (B, rp)"
  shows "service_step (service_of s) (service_of (s\<lparr>sy_pool := p, sy_bools := B, sy_rooms := (sy_rooms s)(k \<mapsto> rp)\<rparr>))"
proof -
  note b = base_facts [OF sys_facts(1) [OF inv]]
  note x = match_sort.extract_success [OF srt b(8) ks ex]
  let ?ts = "map ticket_of qs"
  have ids: "tk_id ` set ?ts = PlayerID ` set qs" by (force simp: image_iff)
  obtain bk where bk: "set qs \<subseteq> nearby (players (sy_pool s)) bk" using x by blast
  have near: "\<bar>mmr q div BracketSize - bk\<bar> \<le> MaxBracketExpansion" if "q \<in> set qs" for q
  proof -
    have "q \<in> queued (sy_pool s)" using x that by blast
    then obtain n st where "sy_streams s n = Some st" "gw_qp st = q" using b(4) by (auto simp: members_def ran_def)
    then have "0 \<le> mmr q" using stream_facts(2) [OF sys_facts(6) [OF inv]] by (auto simp: valid_mmr_def)
    then show ?thesis using bk that by (auto simp: nearby_def bracketKey_def)
  qed
  have wait: "sv_waiting (service_of s) (tk_id t) = Some t" if "t \<in> set ?ts" for t
    using that x queued_id [OF b(8)] by auto
  have len: "length ?ts = 10" "distinct (map tk_id ?ts)" using x by (simp_all add: PlayersPerMatch_def comp_def)
  have call: "may_call ?ts (service_of s)"
    unfolding may_call_def
  proof (intro conjI ballI exI [of _ bk])
    show "\<bar>tk_mmr t div BracketSize - bk\<bar> \<le> MaxBracketExpansion" if "t \<in> set ?ts" for t using that near by auto
  qed (use len wait in auto)
  have new: "\<forall>m \<in> ran (sv_matches (service_of s)). mt_session m \<noteq> sid"
  proof
    fix m
    assume "m \<in> ran (sv_matches (service_of s))"
    then obtain k1 y where "sy_rooms s k1 = Some y" "m = match_of y" by (auto simp: ran_def)
    then show "mt_session m \<noteq> sid" using sid unfolding fresh_id_def match_of_def by auto
  qed
  have "match_of rp = \<lparr>mt_session = sid, mt_tickets = ?ts, mt_state = Asking\<rparr>"
    using op by (auto simp: open_room_def match_of_def promise_of_def launch_def split: prod.splits)
  then have "service_of (s\<lparr>sy_pool := p, sy_bools := B, sy_rooms := (sy_rooms s)(k \<mapsto> rp)\<rparr>)
      = (service_of s)\<lparr>sv_waiting := (sv_waiting (service_of s)) |` (- tk_id ` set ?ts),
          sv_matches := (sv_matches (service_of s))(k \<mapsto> \<lparr>mt_session = sid, mt_tickets = ?ts, mt_state = Asking\<rparr>)\<rparr>"
    using x unfolding ids by (simp add: service_of_def map_option_restrict)
  moreover have "sv_matches (service_of s) k = None" using k by simp
  ultimately show ?thesis using service_step.calls [OF call _ new, of k] by simp
qed

section \<open>The ready check\<close>

text \<open>Somebody has not accepted a failed check, so not everybody is put back.\<close>

lemma accepters_strict:
  assumes "j < length (rm_players (co_room co))" "length (co_accepted co) = length (rm_players (co_room co))"
    and "\<not> co_accepted co ! j" "distinct (map PlayerID (rm_players (co_room co)))"
  shows "ticket_of ` set (accepters co) \<subset> set (map ticket_of (rm_players (co_room co)))"
proof -
  let ?qs = "rm_players (co_room co)"
  have "ticket_of (?qs ! j) \<notin> ticket_of ` set (accepters co)"
  proof
    assume "ticket_of (?qs ! j) \<in> ticket_of ` set (accepters co)"
    then obtain q where q: "q \<in> set (accepters co)" "PlayerID q = PlayerID (?qs ! j)" by (metis imageE ticket_of_simps(1))
    then obtain i where i: "i < length ?qs" "?qs ! i = q" "co_accepted co ! i" using assms(2) by (auto simp: accepters_def set_zip)
    then have "map PlayerID ?qs ! i = map PlayerID ?qs ! j" using q(2) assms(1) by simp
    then have "i = j" using i(1) assms(1) nth_eq_iff_index_eq [OF assms(4), of i j] by simp
    with i(3) assms(3) show False by simp
  qed
  moreover have "set (accepters co) \<subseteq> set ?qs" by (auto simp: accepters_def dest: set_zip_leftD)
  ultimately show ?thesis using assms(1) by auto
qed

lemma promise_cong:
  "co_at co' = co_at co \<Longrightarrow> co_room co' = co_room co \<Longrightarrow> co_accepted co' = co_accepted co \<Longrightarrow>
    co_allAccepted co' = co_allAccepted co \<Longrightarrow> promise_of co' = promise_of co"
  using accepters_cong [of co' co] by (simp add: promise_of_def claims_def split: co_pc.split)

lemma promise_failed:
  assumes room: "room_ok r co" and d: "distinct (map PlayerID (rm_players r))" and j: "j < length (rm_players r)" "\<not> co_accepted co ! j"
  shows "promise_of (fail_room co) = Failed (ticket_of ` set (accepters co))"
    "ticket_of ` set (accepters co) \<subset> set (map ticket_of (rm_players r))"
proof -
  have "accepters (fail_room co) = accepters co" by (intro accepters_cong) (simp_all add: fail_room_def)
  then show "promise_of (fail_room co) = Failed (ticket_of ` set (accepters co))"
    by (simp add: promise_of_def claims_def) (simp add: fail_room_def)
  show "ticket_of ` set (accepters co) \<subset> set (map ticket_of (rm_players r))"
    using accepters_strict [of j co] room d j by (simp add: room_ok_def)
qed

lemma promise_step:
  assumes step: "co_step grow v w" and inv: "check_inv r v" and d: "distinct (map PlayerID (rm_players r))"
  obtains (same) "promise_of (ck_co w) = promise_of (ck_co v)" "ck_pool w = ck_pool v" "ck_sessions w = ck_sessions v"
  | (met) now where "promise_of (ck_co v) = Asking" "promise_of (ck_co w) = Met" "ck_pool w = ck_pool v"
      "ck_sessions w = CreateSession now (rm_session r) (map PlayerID (rm_players r)) (ck_sessions v)"
  | (failed) T where "promise_of (ck_co v) = Asking" "promise_of (ck_co w) = Failed T" "ck_pool w = ck_pool v"
      "ck_sessions w = ck_sessions v" "T \<subset> set (map ticket_of (rm_players r))"
  | (requeues) q qs where "co_at (ck_co v) = Requeueing (q # qs)" "promise_of (ck_co v) = Failed (ticket_of ` set (q # qs))"
      "promise_of (ck_co w) = Failed (ticket_of ` set qs)" "ck_pool w = fst (ReEnqueue grow q (ck_pool v))"
      "ck_sessions w = ck_sessions v"
proof -
  have ok: "room_ok r (ck_co v)" "index_ok (ck_co v)" "results_ok r (ck_co v) (ck_bools v)"
    using inv by (simp_all add: check_inv_def)
  have r: "co_room (ck_co v) = r" "length (co_accepted (ck_co v)) = length (rm_players r)" using ok(1) by (simp_all add: room_ok_def)
  from step show thesis
  proof (cases rule: co_step.cases)
    case (fan_in i co B)
    then have "promise_of co = promise_of (ck_co v)"
      by (intro promise_cong) (auto simp: fan_in_recv_def split: if_splits prod.splits received.splits)
    with fan_in show thesis by (intro same) simp_all
  next
    case (fan_in_end i co)
    then have "promise_of co = promise_of (ck_co v)"
      by (intro promise_cong) (auto simp: fan_in_done_def split: if_splits)
    with fan_in_end show thesis by (intro same) simp_all
  next
    case (gathered co)
    then obtain i b rest where at: "co_at (ck_co v) = Gathering" and f: "co_fanIn (ck_co v) = (i, b) # rest"
      by (auto simp: gather_def split: if_splits list.splits)
    let ?c = "(ck_co v)\<lparr>co_fanIn := rest, co_received := Suc (co_received (ck_co v)), co_accepted := (co_accepted (ck_co v))[i := b]\<rparr>"
    have co: "co = (if b then ?c else fail_room ?c)" using gathered(2) at f by (auto simp: gather_def Let_def split: if_splits)
    show thesis
    proof (cases b)
      case True
      have "promise_of ?c = promise_of (ck_co v)" using at by (simp add: promise_of_def)
      with True co gathered show thesis by (intro same) simp_all
    next
      case False
      have i: "i < length (rm_players r)" using ok(2) f r(1) by (auto simp: index_ok_def)
      have "room_ok r ?c" "\<not> co_accepted ?c ! i" using ok(1) i r(2) False by (simp_all add: room_ok_def)
      note pf = promise_failed [OF this(1) d i this(2)]
      from pf False co gathered at show thesis
        by (intro failed [of "ticket_of ` set (accepters ?c)"]) (simp_all add: promise_of_def)
    qed
  next
    case (timed_out co)
    then have at: "co_at (ck_co v) = Gathering" "co_received (ck_co v) < length (rm_players r)" and co: "co = fail_room (ck_co v)"
      using r by (auto simp: gather_timeout_def split: if_splits)
    have "{i. i < length (rm_players r) \<and> co_accepted (ck_co v) ! i} \<noteq> {..<length (rm_players r)}"
      using ok(2) at r(1) by (auto simp: index_ok_def)
    then obtain j where j: "j < length (rm_players r)" "\<not> co_accepted (ck_co v) ! j" by auto
    note pf = promise_failed [OF ok(1) d j]
    from pf co timed_out(1) at(1) show thesis
      by (intro failed [of "ticket_of ` set (accepters (ck_co v))"]) (simp_all add: promise_of_def)
  next
    case (confirmed now co ss)
    then have "co_at (ck_co v) = Gathering" by (auto simp: confirm_def split: if_splits)
    with confirmed ok(2) r(1) show thesis
      by (intro met [of now]) (auto simp: confirm_def promise_of_def index_ok_def split: if_splits)
  next
    case (published co B)
    then have room: "co_room co = co_room (ck_co v)" "co_accepted co = co_accepted (ck_co v)"
      by (auto simp: publish_def split: co_pc.splits list.splits option.splits outcome.splits)
    note acc = accepters_cong [OF this]
    have "promise_of co = promise_of (ck_co v)"
      using published(2) acc
      by (auto simp: publish_def promise_of_def claims_def split: co_pc.splits list.splits option.splits outcome.splits if_splits)
    with published(1) show thesis by (intro same) simp_all
  next
    case (requeued co p)
    then obtain qs where at: "co_at (ck_co v) = Requeueing qs" by (auto simp: requeue_def split: co_pc.splits)
    then have no: "\<not> co_allAccepted (ck_co v)" using ok(3) by (simp add: results_ok_def)
    show thesis
    proof (cases qs)
      case Nil
      with requeued at no show thesis by (intro same) (auto simp: requeue_def promise_of_def claims_def)
    next
      case (Cons q qs')
      with requeued at no show thesis by (intro requeues [of q qs']) (auto simp: requeue_def promise_of_def claims_def)
    qed
  qed
qed

lemma service_coordinates:
  assumes inv: "sys_inv grow s" and k: "sy_rooms s k = Some rp" and step: "co_step grow (room_view rp s) c"
  defines "t \<equiv> s\<lparr>sy_pool := ck_pool c, sy_sessions := ck_sessions c, sy_bools := ck_bools c,
           sy_rooms := (sy_rooms s)(k \<mapsto> rp\<lparr>rp_co := ck_co c\<rparr>)\<rparr>"
  shows "service_of t = service_of s \<or> service_step (service_of s) (service_of t)"
proof -
  note r = sys_facts(4) [OF inv k]
  let ?r = "rp_room rp" and ?S = "service_of s"
  have v: "ck_co (room_view rp s) = rp_co rp" "ck_pool (room_view rp s) = sy_pool s" "ck_sessions (room_view rp s) = sy_sessions s"
    by (simp_all add: room_view_def)
  have d: "distinct (map PlayerID (rm_players ?r))" using room_proc [OF r] by (simp add: proc_ok_def)
  have room: "rp_room (rp\<lparr>rp_co := ck_co c\<rparr>) = ?r" using co_step_room [OF step] by (simp add: room_view_def)
  have m: "sv_matches ?S k = Some (match_of rp)" using k by simp
  have upd: "match_of (rp\<lparr>rp_co := ck_co c\<rparr>) = (match_of rp)\<lparr>mt_state := promise_of (ck_co c)\<rparr>"
    using room by (simp add: match_of_def)
  have state: "mt_state (match_of rp) = promise_of (rp_co rp)" "mt_session (match_of rp) = rm_session ?r"
    "mt_tickets (match_of rp) = map ticket_of (rm_players ?r)" by (simp_all add: match_of_def)
  have ids: "map tk_id (map ticket_of (rm_players ?r)) = map PlayerID (rm_players ?r)" by simp
  from step room_check [OF r] d show ?thesis
  proof (cases rule: promise_step)
    case same
    then have "service_of t = ?S"
      unfolding t_def by (intro service_same [of _ s k "rp\<lparr>rp_co := ck_co c\<rparr>" rp] match_of_same) (use v k room in simp_all)
    then show ?thesis ..
  next
    case (met now)
    have "service_of t = ?S\<lparr>sv_matches := (sv_matches ?S)(k \<mapsto> (match_of rp)\<lparr>mt_state := Met\<rparr>),
           sv_sessions := (sv_sessions ?S)(mt_session (match_of rp) \<mapsto> (map tk_id (mt_tickets (match_of rp)), Map.empty))\<rparr>"
      using met v upd unfolding state ids by (simp add: t_def service_of_def CreateSession_def marks_def)
    moreover have "mt_state (match_of rp) = Asking" using met(1) v by (simp add: state)
    ultimately show ?thesis using service_step.meets [OF m] by simp
  next
    case (failed T)
    have "service_of t = ?S\<lparr>sv_matches := (sv_matches ?S)(k \<mapsto> (match_of rp)\<lparr>mt_state := Failed T\<rparr>)\<rparr>"
      using failed v upd by (simp add: t_def service_of_def)
    moreover have "mt_state (match_of rp) = Asking" "T \<subset> set (mt_tickets (match_of rp))" using failed v by (simp_all add: state)
    ultimately show ?thesis using service_step.fails [OF m] by simp
  next
    case (requeues q qs)
    let ?T = "ticket_of ` set (q # qs)"
    have "distinct (q # qs)" "set (q # qs) \<subseteq> set (rm_players ?r)"
      using requeues(1) v proc_requeueing [OF room_proc [OF r]] accepters_players [of "rp_co rp"] by auto
    then have q: "ticket_of q \<notin> ticket_of ` set qs"
      using d by (auto simp: distinct_map inj_on_def ticket_of_def image_iff)
    then have T: "?T - {ticket_of q} = ticket_of ` set qs" by auto
    have st: "mt_state (match_of rp) = Failed ?T" "ticket_of q \<in> ?T" using requeues(2) v by (simp_all add: state)
    have pool: "ck_pool c = fst (ReEnqueue grow q (sy_pool s))" using requeues(4) v by simp
    show ?thesis
    proof (cases "players (sy_pool s) (PlayerID q)")
      case None
      then have "service_of t = ?S\<lparr>sv_waiting := (sv_waiting ?S)(tk_id (ticket_of q) \<mapsto> ticket_of q),
           sv_matches := (sv_matches ?S)(k \<mapsto> (match_of rp)\<lparr>mt_state := Failed (?T - {ticket_of q})\<rparr>)\<rparr>"
        using requeues(3,5) v upd pool unfolding T by (simp add: t_def service_of_def ReEnqueue_def Let_def)
      moreover have "sv_waiting ?S (tk_id (ticket_of q)) = None" using None by simp
      ultimately show ?thesis using service_step.returns [OF m st] by simp
    next
      case (Some x)
      then have "service_of t = ?S\<lparr>sv_matches := (sv_matches ?S)(k \<mapsto> (match_of rp)\<lparr>mt_state := Failed (?T - {ticket_of q})\<rparr>)\<rparr>"
        using requeues(3,5) v upd pool unfolding T by (simp add: t_def service_of_def ReEnqueue_def)
      moreover have "sv_waiting ?S (tk_id (ticket_of q)) \<noteq> None" using Some by simp
      ultimately show ?thesis using service_step.drops [OF m st] by simp
    qed
  qed
qed

lemma service_submits:
  assumes inv: "sys_inv grow s" and sub: "SubmitResult RecordResult ctx_done now req (sy_sessions s) = (ss, reply)"
  shows "service_of (s\<lparr>sy_sessions := ss\<rparr>) = service_of s \<or> service_step (service_of s) (service_of (s\<lparr>sy_sessions := ss\<rparr>))"
proof -
  consider "ss = sy_sessions s"
    | now sid pid result score where "ss = fst (RecordResult now sid pid result score (sy_sessions s))"
    using sub by (auto simp: SubmitResult_def split: if_splits prod.splits sum.splits dest: arg_cong [of _ _ fst])
      (metis fst_conv)+
  then show ?thesis
  proof cases
    case 1
    then show ?thesis by simp
  next
    case (2 now sid pid result score)
    show ?thesis
    proof (cases rule: RecordResult_cases [of "sy_sessions s" sid now pid result score])
      case (Recorded u s2 delta)
      have p: "sv_sessions (service_of s) sid = Some (PlayerIDs u, snd (marks u))" using Recorded(1) by (simp add: marks_def)
      have n: "snd (marks u) pid = None" using Recorded(3) by (auto simp: marks_def domIff)
      have x: "(result, delta) \<in> {(1, 25), (2, - 25), (3, 0)}"
        using Recorded(4) by (auto simp: result_delta_def mmr_deltas split: if_splits)
      have "marks s2 = (PlayerIDs u, (snd (marks u))(pid \<mapsto> (result, delta)))"
        unfolding Recorded(5) by (simp add: marks_def Let_def)
      then have "service_of (s\<lparr>sy_sessions := ss\<rparr>)
          = (service_of s)\<lparr>sv_sessions := (sv_sessions (service_of s))(sid \<mapsto> (PlayerIDs u, (snd (marks u))(pid \<mapsto> (result, delta))))\<rparr>"
        using Recorded(6) 2 by (simp add: service_of_def)
      then show ?thesis using service_step.records [OF p Recorded(2) n x] by simp
    qed (use 2 in simp_all)
  qed
qed

section \<open>Every step is a step of the specification\<close>

lemma service_simulates:
  assumes srt: "match_sort srt" and inv: "sys_inv grow s" and step: "sys_step grow srt s t"
  shows "service_of t = service_of s \<or> service_step (service_of s) (service_of t)"
  using step
proof (cases rule: sys_step.cases)
  case (refuses joined now ok msg p e)
  then have "p = sy_pool s"
    by (auto simp: EnterMatchmaking_def Enqueue_def Let_def split: sum.splits prod.splits option.splits if_splits)
  with refuses show ?thesis by simp
next
  case (joins joined now ok msg p st n)
  with service_joins [OF inv] show ?thesis by simp
next
  case (streams n st sent g)
  with service_streams [OF inv] show ?thesis by simp
next
  case (no_match ks now p)
  then have "p = sy_pool s" using match_sort.extract_failure [OF srt base_facts(8) [OF sys_facts(1) [OF inv]]] by blast
  with no_match show ?thesis by simp
next
  case (extracts ks now p qs sid k later_t B rp)
  with service_extracts [OF srt inv] show ?thesis by simp
next
  case (notifies k rp rp' H missed)
  then have "rp_co rp' = rp_co rp" by (auto simp: notify_next_def split: if_splits prod.splits outcome.splits)
  then have "service_of t = service_of s"
    unfolding notifies(1) by (intro service_same [of _ s k rp' rp] match_of_same) (use notifies in simp_all)
  then show ?thesis ..
next
  case (launches k rp rp')
  then have "rp_co rp' = rp_co rp" by (auto simp: launch_next_def split: if_splits)
  then have "service_of t = service_of s"
    unfolding launches(1) by (intro service_same [of _ s k rp' rp] match_of_same) (use launches in simp_all)
  then show ?thesis ..
next
  case (coordinates k rp c)
  with service_coordinates [OF inv coordinates(2,4)] show ?thesis by simp
next
  case (expires k rp)
  have "promise_of (deadline (rp_co rp)) = promise_of (rp_co rp)" by (intro promise_cong) (simp_all add: deadline_def)
  then have "service_of t = service_of s"
    unfolding expires(1) by (intro service_same [of _ s k "rp\<lparr>rp_co := deadline (rp_co rp)\<rparr>" rp] match_of_same)
      (use expires in \<open>simp_all add: deadline_def\<close>)
  then show ?thesis ..
next
  case (submits ctx_done now req ss reply)
  with service_submits [OF inv] show ?thesis by simp
qed

lemma service_start: "service_init (service_of sys_start)"
  by (simp add: service_init_def service_of_def sys_start_def NewPool_def NewSessionStore_def)

lemma service_machine:
  assumes "match_sort srt"
  shows "forward_simulation sys_init (sys_step grow srt) (sys_inv grow) service_init service_step service_of"
proof (rule forward_simulation.intro [OF sys_machine [OF assms]], unfold_locales)
  show "service_init (service_of s)" if "sys_init s" for s using that service_start by (simp add: sys_init_def)
  show "service_step\<^sup>*\<^sup>* (service_of s) (service_of t)" if "sys_inv grow s" "sys_step grow srt s t" for s t
    using service_simulates [OF assms that] by auto
qed

interpretation server_service: forward_simulation sys_init "sys_step grow insertionSort" "sys_inv grow" service_init service_step service_of
  for grow
  by (rule service_machine [OF match_insertion.match_sort_axioms])

section \<open>Properties\<close>

lemma service_reaches:
  assumes "match_sort srt" "runs grow srt s"
  shows "reachable service_init service_step (service_of s)" "service_inv (service_of s)"
  using forward_simulation.reachable_abs [OF service_machine [OF assms(1)] assms(2)]
    forward_simulation.abs_inv [OF service_machine [OF assms(1)] service.inductive_invariant_axioms assms(2)] by simp_all

text \<open>C5: the server implements the specification of \<open>Nexus_Service\<close>: what it holds is always a state the
  specification can reach, and everything any of its goroutines does is one step of the specification or
  nothing that the specification can see.\<close>

theorem server_keeps_promise:
  assumes "match_sort srt" "runs grow srt s"
  shows "reachable service_init service_step (service_of s)
    \<and> (\<forall>t. sys_step grow srt s t \<longrightarrow> service_of t = service_of s \<or> service_step (service_of s) (service_of t))"
  using service_reaches(1) [OF assms] service_simulates [OF assms(1) runs_inv(1) [OF assms]] by blast

theorem server_keeps_promise_witness:
  "\<exists>s. reachable service_init service_step (service_of s) \<and> sv_sessions (service_of s) ''s'' \<noteq> None"
proof -
  obtain s t where s: "runs demo_grow insertionSort s" "GetSession ''s'' (sy_sessions s) = Some t" by (rule demo_session)
  then have "sv_sessions (service_of s) ''s'' \<noteq> None" by (simp add: GetSession_def)
  with server_keeps_promise [OF match_insertion.match_sort_axioms s(1)] show ?thesis by blast
qed

text \<open>C19: the players of a session have ratings in \<open>[0, 10000]\<close>, any two of them less than 2500 apart, and
  the session holds at most one result of each, with the delta it earns. This is proved of the
  specification and carried over to the server.\<close>

theorem session_is_fair:
  assumes "match_sort srt" "runs grow srt s" "GetSession sid (sy_sessions s) = Some t"
  shows "(\<exists>k rp. sy_rooms s k = Some rp \<and> rm_session (rp_room rp) = sid \<and> PlayerIDs t = map PlayerID (rm_players (rp_room rp))
      \<and> (\<forall>x \<in> set (rm_players (rp_room rp)). \<forall>y \<in> set (rm_players (rp_room rp)).
            0 \<le> mmr x \<and> mmr x \<le> 10000 \<and> \<bar>mmr x - mmr y\<bar> < 2500))
    \<and> dom (Results t) \<subseteq> set (PlayerIDs t)
    \<and> (\<forall>i e. Results t i = Some e \<longrightarrow> (re_Result e, MMRDelta e) \<in> {(1, 25), (2, - 25), (3, 0)})"
proof -
  have inv: "service_inv (service_of s)" by (rule service_reaches(2) [OF assms(1,2)])
  have "sv_sessions (service_of s) sid = Some (PlayerIDs t, snd (marks t))"
    using assms(3) by (simp add: GetSession_def marks_def)
  then obtain m where m: "m \<in> ran (sv_matches (service_of s))" "mt_session m = sid" "PlayerIDs t = map tk_id (mt_tickets m)"
    and R: "dom (snd (marks t)) \<subseteq> set (PlayerIDs t)" "ran (snd (marks t)) \<subseteq> {(1, 25), (2, - 25), (3, 0)}"
    using inv unfolding service_inv_def sessions_ok_def by blast
  obtain k rp where k: "sy_rooms s k = Some rp" and rp: "m = match_of rp" using m(1) by (auto simp: ran_def)
  have ok: "match_ok (match_of rp)" by (rule service_matchD(1) [OF inv, of k]) (simp add: k)
  have "0 \<le> mmr x \<and> mmr x \<le> 10000 \<and> \<bar>mmr x - mmr y\<bar> < 2500"
    if "x \<in> set (rm_players (rp_room rp))" "y \<in> set (rm_players (rp_room rp))" for x y
    using ok that unfolding match_ok_def by (fastforce simp: match_of_def valid_ticket_def MaxMMR_def)
  moreover have "PlayerIDs t = map PlayerID (rm_players (rp_room rp))" "rm_session (rp_room rp) = sid"
    using m(2,3) rp by (simp_all add: match_of_def)
  moreover have "(re_Result e, MMRDelta e) \<in> {(1, 25), (2, - 25), (3, 0)}" if "Results t i = Some e" for i e
    using R(2) that by (force simp: marks_def ran_def)
  moreover have "dom (Results t) \<subseteq> set (PlayerIDs t)" using R(1) by (force simp: marks_def dom_def)
  ultimately show ?thesis using k by blast
qed

theorem session_is_fair_witness:
  "\<exists>s t. runs demo_grow insertionSort s \<and> GetSession ''s'' (sy_sessions s) = Some t \<and> dom (Results t) \<subseteq> set (PlayerIDs t)"
proof -
  obtain s t where s: "runs demo_grow insertionSort s" "GetSession ''s'' (sy_sessions s) = Some t" by (rule demo_session)
  with session_is_fair [OF match_insertion.match_sort_axioms s] show ?thesis by blast
qed

end
