(* ===== verification/Nexus_Interceptor.thy ===== *)
theory Nexus_Interceptor
  imports Go_Channels
begin

text \<open>
  \<open>internal/interceptor/interceptor.go\<close> and the chains of \<open>cmd/server/main.go\<close>. A handler is a
  function on the server's state that returns or panics; an interceptor turns a handler into a
  handler. Log lines are kept with their level, method and code; the timing, the stack trace and the
  panic value in them are not.
\<close>

section \<open>Handlers and log lines\<close>

datatype log_level = LevelInfo | LevelWarn | LevelError

datatype log_line =
    UnaryCompleted log_level string code
  | StreamStarted string
  | StreamEnded log_level string code
  | PanicRecovered string
  | StreamRejected string

text \<open>The server's state as far as the interceptors touch it, and the rest of it.\<close>

record 's server =
  log_lines :: "log_line list"
  sem_heap :: "unit chans"
  app :: 's

definition slog :: "log_line \<Rightarrow> 's server \<Rightarrow> 's server" where
  "slog l st = st\<lparr>log_lines := log_lines st @ [l]\<rparr>"

type_synonym ('s, 'r) unary_handler = "'s server \<Rightarrow> 's server \<times> 'r reply outcome"
type_synonym 's stream_handler = "'s server \<Rightarrow> 's server \<times> grpc_error outcome"

section \<open>Unary interceptors\<close>

definition UnaryPanicRecovery :: "string \<Rightarrow> ('s, 'r) unary_handler \<Rightarrow> ('s, 'r) unary_handler" where
  "UnaryPanicRecovery meth handler st = (case handler st of
       (st', Panic) \<Rightarrow> (slog (PanicRecovered meth) st', Ret (None, Some Internal))
     | (st', Ret r) \<Rightarrow> (st', Ret r))"

definition UnaryLogger :: "string \<Rightarrow> ('s, 'r) unary_handler \<Rightarrow> ('s, 'r) unary_handler" where
  "UnaryLogger meth handler st = (case handler st of
       (st', Panic) \<Rightarrow> (st', Panic)
     | (st', Ret (resp, err)) \<Rightarrow>
         (let code = status_Code err;
              level = (if code \<noteq> OK then LevelWarn else LevelInfo)
          in (slog (UnaryCompleted level meth code) st', Ret (resp, err))))"

section \<open>Stream interceptors\<close>

definition StreamPanicRecovery :: "string \<Rightarrow> 's stream_handler \<Rightarrow> 's stream_handler" where
  "StreamPanicRecovery meth handler st = (case handler st of
       (st', Panic) \<Rightarrow> (slog (PanicRecovered meth) st', Ret (Some Internal))
     | (st', Ret err) \<Rightarrow> (st', Ret err))"

definition StreamLogger :: "string \<Rightarrow> 's stream_handler \<Rightarrow> 's stream_handler" where
  "StreamLogger meth handler st = (case handler (slog (StreamStarted meth) st) of
       (st', Panic) \<Rightarrow> (st', Panic)
     | (st', Ret err) \<Rightarrow>
         (let code = status_Code err;
              level = (if code \<noteq> OK \<and> code \<noteq> Canceled then LevelWarn else LevelInfo)
          in (slog (StreamEnded level meth code) st', Ret err)))"

subsection \<open>The concurrency limit\<close>

text \<open>
  \<open>MaxConcurrentStreams\<close> in its two halves: the guarded send that takes a slot, and the deferred
  receive that gives it back, which runs whether the handler returns or panics.
\<close>

definition acquire :: "chan_id \<Rightarrow> unit chans \<Rightarrow> (bool \<times> unit chans) outcome" where
  "acquire sem H = chan_try_send sem () H"

definition release :: "chan_id \<Rightarrow> unit chans \<Rightarrow> unit chans" where
  "release sem H = snd (chan_recv sem H)"

definition MaxConcurrentStreams :: "chan_id \<Rightarrow> string \<Rightarrow> 's stream_handler \<Rightarrow> 's stream_handler" where
  "MaxConcurrentStreams sem meth handler st = (case acquire sem (sem_heap st) of
       Panic \<Rightarrow> (st, Panic)
     | Ret (True, H) \<Rightarrow>
         (case handler (st\<lparr>sem_heap := H\<rparr>) of
            (st', out) \<Rightarrow> (st'\<lparr>sem_heap := release sem (sem_heap st')\<rparr>, out))
     | Ret (False, _) \<Rightarrow> (slog (StreamRejected meth) st, Ret (Some ResourceExhausted)))"

section \<open>The server's chains\<close>

definition maxStreams :: nat where "maxStreams = 500"

definition unary_chain :: "string \<Rightarrow> ('s, 'r) unary_handler \<Rightarrow> ('s, 'r) unary_handler" where
  "unary_chain meth handler = UnaryLogger meth (UnaryPanicRecovery meth handler)"

definition stream_chain :: "chan_id \<Rightarrow> string \<Rightarrow> 's stream_handler \<Rightarrow> 's stream_handler" where
  "stream_chain sem meth handler =
     StreamLogger meth (StreamPanicRecovery meth (MaxConcurrentStreams sem meth handler))"

lemmas interceptor_defs =
  UnaryPanicRecovery_def UnaryLogger_def StreamPanicRecovery_def StreamLogger_def slog_def
  unary_chain_def stream_chain_def

section \<open>Many streams at once\<close>

text \<open>
  The life of the semaphore: streams arrive and are admitted or rejected, and admitted ones end, in
  any order.
\<close>

record limiter =
  lim_heap :: "unit chans"
  running :: "nat set"

definition lim_init :: "nat \<Rightarrow> limiter" where
  "lim_init limit = \<lparr>lim_heap = fst (make_chan limit no_chans), running = {}\<rparr>"

inductive lim_step :: "chan_id \<Rightarrow> limiter \<Rightarrow> limiter \<Rightarrow> bool" for sem where
  admit: "i \<notin> running s \<Longrightarrow> acquire sem (lim_heap s) = Ret (True, H)
     \<Longrightarrow> lim_step sem s (s\<lparr>lim_heap := H, running := insert i (running s)\<rparr>)"
| reject: "acquire sem (lim_heap s) = Ret (False, H) \<Longrightarrow> lim_step sem s s"
| leave: "i \<in> running s
     \<Longrightarrow> lim_step sem s (s\<lparr>lim_heap := release sem (lim_heap s), running := running s - {i}\<rparr>)"

inductive_cases lim_stepE: "lim_step sem s t"

definition lim_inv :: "nat \<Rightarrow> limiter \<Rightarrow> bool" where
  "lim_inv limit s \<longleftrightarrow> finite (running s) \<and> (\<exists>ch. cells (lim_heap s) 0 = Some ch \<and> \<not> ch_closed ch
     \<and> ch_cap ch = limit \<and> length (ch_buf ch) = card (running s) \<and> card (running s) \<le> limit)"

lemma lim_inv_step: "lim_inv limit s \<Longrightarrow> lim_step 0 s t \<Longrightarrow> lim_inv limit t"
  by (erule lim_stepE)
    (auto simp: lim_inv_def acquire_def release_def chan_try_send_def chan_recv_def card_gt_0_iff
      split: if_splits list.splits)

interpretation limiter: inductive_invariant "\<lambda>s. s = lim_init limit" "lim_step 0" "lim_inv limit"
proof unfold_locales
  fix s t
  show "lim_inv limit s" if "s = lim_init limit"
    using that by (simp add: lim_inv_def lim_init_def make_chan_def no_chans_def)
  show "lim_inv limit t" if "lim_inv limit s" "lim_step 0 s t"
    using lim_inv_step that .
qed

section \<open>Properties\<close>

text \<open>The unary chain contains panics: whatever the handler does the call returns; a panic becomes
  \<open>Internal\<close> with no response, everything else passes unchanged; and exactly one completion line is
  logged, a warning exactly when the code is not OK.\<close>

theorem unary_chain_correct:
  "\<exists>resp err. snd (unary_chain meth handler st) = Ret (resp, err)
    \<and> (case snd (handler st) of Panic \<Rightarrow> resp = None \<and> err = Some Internal | Ret r \<Rightarrow> r = (resp, err))
    \<and> app (fst (unary_chain meth handler st)) = app (fst (handler st))
    \<and> log_lines (fst (unary_chain meth handler st)) = log_lines (fst (handler st))
        @ (if snd (handler st) = Panic then [PanicRecovered meth] else [])
        @ [UnaryCompleted (if status_Code err = OK then LevelInfo else LevelWarn) meth (status_Code err)]"
proof -
  obtain st' out where h: "handler st = (st', out)" by fastforce
  show ?thesis
  proof (cases out)
    case Panic
    with h show ?thesis by (simp add: interceptor_defs Let_def status_Code_def)
  next
    case (Ret r)
    obtain resp err where "r = (resp, err)" by fastforce
    with h Ret show ?thesis by (simp add: interceptor_defs Let_def)
  qed
qed

text \<open>C39: the stream chain contains panics too: it always returns, with \<open>Internal\<close> for a panic,
  \<open>ResourceExhausted\<close> without running the handler when no slot is free, and the handler's own error
  otherwise; every start line is closed by one end line, which is a warning unless the code is OK or
  Canceled.\<close>

theorem stream_chain_correct:
  assumes "cells (sem_heap st) sem = Some ch" "\<not> ch_closed ch"
  shows "\<exists>err mid. snd (stream_chain sem meth handler st) = Ret err
    \<and> log_lines (fst (stream_chain sem meth handler st)) =
        mid @ [StreamEnded (if status_Code err \<in> {OK, Canceled} then LevelInfo else LevelWarn) meth (status_Code err)]
    \<and> (if length (ch_buf ch) < ch_cap ch
       then let h = handler ((slog (StreamStarted meth) st)\<lparr>sem_heap :=
                  (sem_heap st)\<lparr>cells := (cells (sem_heap st))(sem \<mapsto> ch\<lparr>ch_buf := ch_buf ch @ [()]\<rparr>)\<rparr>\<rparr>)
            in (case snd h of Panic \<Rightarrow> err = Some Internal | Ret e \<Rightarrow> err = e)
             \<and> sem_heap (fst (stream_chain sem meth handler st)) = release sem (sem_heap (fst h))
       else err = Some ResourceExhausted \<and> app (fst (stream_chain sem meth handler st)) = app st
            \<and> sem_heap (fst (stream_chain sem meth handler st)) = sem_heap st)"
proof (cases "length (ch_buf ch) < ch_cap ch")
  case False
  with assms show ?thesis
    by (simp add: interceptor_defs MaxConcurrentStreams_def acquire_def chan_try_send_def status_Code_def Let_def)
next
  case True
  let ?st = "(slog (StreamStarted meth) st)\<lparr>sem_heap :=
     (sem_heap st)\<lparr>cells := (cells (sem_heap st))(sem \<mapsto> ch\<lparr>ch_buf := ch_buf ch @ [()]\<rparr>)\<rparr>\<rparr>"
  obtain st' out where h: "handler ?st = (st', out)" by fastforce
  have "MaxConcurrentStreams sem meth handler (slog (StreamStarted meth) st)
      = (st'\<lparr>sem_heap := release sem (sem_heap st')\<rparr>, out)"
    using True assms h by (simp add: MaxConcurrentStreams_def acquire_def chan_try_send_def slog_def)
  with True h show ?thesis
    by (cases out) (auto simp: stream_chain_def StreamLogger_def StreamPanicRecovery_def slog_def Let_def)
qed

definition idle_server :: "unit server" where
  "idle_server = \<lparr>log_lines = [], sem_heap = fst (make_chan 1 no_chans), app = ()\<rparr>"

theorem stream_chain_correct_witness:
  "snd (stream_chain 0 ''m'' (\<lambda>st. (st, Panic)) idle_server) = Ret (Some Internal)"
proof -
  have "cells (sem_heap idle_server) 0 = Some \<lparr>ch_cap = 1, ch_buf = [], ch_closed = False\<rparr>"
    by (simp add: idle_server_def make_chan_def no_chans_def)
  from stream_chain_correct [OF this, of "''m''" "\<lambda>st. (st, Panic)"] show ?thesis by auto
qed

text \<open>At any time, in any order of arrivals and ends, at most \<open>limit\<close> streams run; a newcomer is
  admitted exactly while fewer run, and the receive that gives a slot back never waits.\<close>

theorem stream_limit:
  assumes "reachable (\<lambda>s. s = lim_init limit) (lim_step 0) s"
  shows "finite (running s) \<and> card (running s) \<le> limit
    \<and> (\<exists>H. acquire 0 (lim_heap s) = Ret (card (running s) < limit, H))
    \<and> (running s \<noteq> {} \<longrightarrow> fst (chan_recv 0 (lim_heap s)) = Value ())"
proof -
  obtain ch where ch: "finite (running s)" "cells (lim_heap s) 0 = Some ch" "\<not> ch_closed ch"
    "ch_cap ch = limit" "length (ch_buf ch) = card (running s)" "card (running s) \<le> limit"
    using limiter.reachable_inv [OF assms] by (auto simp: lim_inv_def)
  have "ch_buf ch \<noteq> []" if "running s \<noteq> {}" using that ch(1,5) by auto
  then have "running s \<noteq> {} \<longrightarrow> fst (chan_recv 0 (lim_heap s)) = Value ()"
    using ch(2) by (cases "ch_buf ch") (auto simp: chan_recv_def)
  with ch show ?thesis by (auto simp: acquire_def chan_try_send_def)
qed

theorem stream_limit_witness:
  "\<exists>H. acquire 0 (lim_heap (lim_init maxStreams)) = Ret (True, H)"
proof -
  have "reachable (\<lambda>s. s = lim_init maxStreams) (lim_step 0) (lim_init maxStreams)"
    by (rule reachable.start) simp
  from stream_limit [OF this] show ?thesis by (simp add: lim_init_def maxStreams_def)
qed

end
