(* ===== verification/Nexus_Capacity.thy ===== *)
theory Nexus_Capacity
  imports Nexus_Ghost Nexus_Interceptor
begin

text \<open>
  The machine of the server behind its stream interceptor: a stream takes a slot of the semaphore before
  its handler runs, and \<open>MaxConcurrentStreams\<close> gives it back after the handler has returned. The outer
  machine carries two machines along, the server's and the limiter's.
\<close>

section \<open>State and steps\<close>

text \<open>
  \<open>running (fr_slots f)\<close> are the streams whose handler has been called and whose slot has not been given
  back; one that is not in \<open>sy_streams\<close> waits for its first message.
\<close>

record Front =
  fr_sys :: System
  fr_slots :: limiter

definition front_start :: Front where
  "front_start = \<lparr>fr_sys = sys_start, fr_slots = lim_init maxStreams\<rparr>"

definition front_init :: "Front \<Rightarrow> bool" where
  "front_init f \<longleftrightarrow> f = front_start"

definition take_slot :: "nat \<Rightarrow> Front \<Rightarrow> Front option" where
  "take_slot n f = (case acquire 0 (lim_heap (fr_slots f)) of
       Ret (True, H) \<Rightarrow> Some (f\<lparr>fr_slots := (fr_slots f)\<lparr>lim_heap := H, running := insert n (running (fr_slots f))\<rparr>\<rparr>)
     | _ \<Rightarrow> None)"

definition free_slot :: "nat \<Rightarrow> Front \<Rightarrow> Front" where
  "free_slot n f = f\<lparr>fr_slots :=
     (fr_slots f)\<lparr>lim_heap := release 0 (lim_heap (fr_slots f)), running := running (fr_slots f) - {n}\<rparr>\<rparr>"

definition unborn :: "nat \<Rightarrow> Front \<Rightarrow> bool" where
  "unborn n f \<longleftrightarrow> sy_streams (fr_sys f) n = None"

text \<open>
  A new stream is turned away or admitted; the handler of an admitted one refuses its first message or
  joins; anything else the server does opens no stream; a handler that has returned gives its slot back.
\<close>

inductive front_step :: "(nat \<Rightarrow> nat \<Rightarrow> nat) \<Rightarrow> match_sorter \<Rightarrow> Front \<Rightarrow> Front \<Rightarrow> bool" for grow srt where
  turned_away: "take_slot n f = None \<Longrightarrow> front_step grow srt f f"
| admitted: "n \<notin> running (fr_slots f) \<Longrightarrow> unborn n f \<Longrightarrow> take_slot n f = Some f' \<Longrightarrow> front_step grow srt f f'"
| refused: "n \<in> running (fr_slots f) \<Longrightarrow> unborn n f
     \<Longrightarrow> EnterMatchmaking grow joined now ok msg (sy_pool (fr_sys f)) = (p, Inl e)
     \<Longrightarrow> front_step grow srt f (free_slot n (f\<lparr>fr_sys := (fr_sys f)\<lparr>sy_pool := p\<rparr>\<rparr>))"
| joined: "n \<in> running (fr_slots f) \<Longrightarrow> unborn n f
     \<Longrightarrow> EnterMatchmaking grow joined now ok msg (sy_pool (fr_sys f)) = (p, Inr st)
     \<Longrightarrow> front_step grow srt f (f\<lparr>fr_sys := (fr_sys f)\<lparr>sy_pool := p, sy_streams := (sy_streams (fr_sys f))(n \<mapsto> st)\<rparr>\<rparr>)"
| serves: "sys_step grow srt (fr_sys f) s \<Longrightarrow> dom (sy_streams s) = dom (sy_streams (fr_sys f))
     \<Longrightarrow> front_step grow srt f (f\<lparr>fr_sys := s\<rparr>)"
| gone: "n \<in> running (fr_slots f) \<Longrightarrow> sy_streams (fr_sys f) n = Some st \<Longrightarrow> gw_at st = Returned err
     \<Longrightarrow> front_step grow srt f (free_slot n f)"

text \<open>The streams whose handler is at work.\<close>

definition live :: "System \<Rightarrow> nat set" where
  "live s = {n. \<exists>st. sy_streams s n = Some st \<and> (\<forall>err. gw_at st \<noteq> Returned err)}"

definition front_inv :: "Front \<Rightarrow> bool" where
  "front_inv f \<longleftrightarrow> lim_inv maxStreams (fr_slots f) \<and> live (fr_sys f) \<subseteq> running (fr_slots f)"

section \<open>The two machines inside\<close>

lemma take_slot_step: "n \<notin> running (fr_slots f) \<Longrightarrow> take_slot n f = Some f' \<Longrightarrow> lim_step 0 (fr_slots f) (fr_slots f')"
  using lim_step.admit [of n "fr_slots f" 0] by (auto simp: take_slot_def split: outcome.splits bool.splits)

lemma free_slot_step: "n \<in> running (fr_slots f) \<Longrightarrow> lim_step 0 (fr_slots f) (fr_slots (free_slot n f))"
  using lim_step.leave [of n "fr_slots f" 0] by (simp add: free_slot_def)

lemma take_slot_sys: "take_slot n f = Some f' \<Longrightarrow> fr_sys f' = fr_sys f \<and> running (fr_slots f') = insert n (running (fr_slots f))"
  by (auto simp: take_slot_def split: outcome.splits bool.splits)

lemma free_slot_simps [simp]: "fr_sys (free_slot n f) = fr_sys f" "running (fr_slots (free_slot n f)) = running (fr_slots f) - {n}"
  by (simp_all add: free_slot_def)

lemma front_slots:
  assumes "front_step grow srt f g"
  shows "(lim_step 0)\<^sup>*\<^sup>* (fr_slots f) (fr_slots g)"
  using assms
proof (cases rule: front_step.cases)
  case (admitted n)
  then show ?thesis using take_slot_step by blast
next
  case (refused n joined now ok msg p e)
  from free_slot_step [of n "f\<lparr>fr_sys := (fr_sys f)\<lparr>sy_pool := p\<rparr>\<rparr>"] show ?thesis
    unfolding refused(1) using refused(2) by auto
next
  case (gone n st err)
  then show ?thesis using free_slot_step [of n f] by auto
qed auto

lemma front_sys:
  assumes "front_step grow srt f g"
  shows "(sys_step grow srt)\<^sup>*\<^sup>* (fr_sys f) (fr_sys g)"
  using assms
proof (cases rule: front_step.cases)
  case (admitted n)
  then show ?thesis using take_slot_sys by simp
next
  case (refused n joined now ok msg p e)
  then show ?thesis using sys_step.refuses [OF refused(4), of srt] by auto
next
  case (joined n joined now ok msg p st)
  then have "sy_streams (fr_sys f) n = None" by (simp add: unborn_def)
  then show ?thesis using sys_step.joins [OF joined(4), of n srt] joined by auto
next
  case (serves s)
  then show ?thesis by auto
qed auto

lemma live_step:
  assumes "sys_step grow srt s t" "dom (sy_streams t) = dom (sy_streams s)"
  shows "live t \<subseteq> live s"
proof
  fix n
  assume n: "n \<in> live t"
  then obtain st where st: "sy_streams s n = Some st" using assms(2) by (auto simp: live_def dom_def)
  show "n \<in> live s"
  proof (rule ccontr)
    assume "n \<notin> live s"
    then obtain err where "gw_at st = Returned err" using st by (auto simp: live_def)
    from returned_step [OF assms(1) st this] n show False by (auto simp: live_def)
  qed
qed

lemma front_inv_step:
  assumes inv: "front_inv f" and step: "front_step grow srt f g"
  shows "front_inv g"
proof -
  have "lim_inv maxStreams (fr_slots g)"
    using front_slots [OF step] inv unfolding front_inv_def
    by (induction rule: rtranclp_induct) (auto intro: lim_inv_step)
  moreover have "live (fr_sys g) \<subseteq> running (fr_slots g)"
    using step
  proof (cases rule: front_step.cases)
    case (admitted n)
    then show ?thesis using inv take_slot_sys by (auto simp: front_inv_def)
  next
    case (refused n joined now ok msg p e)
    then show ?thesis using inv by (auto simp: front_inv_def live_def unborn_def)
  next
    case (joined n joined now ok msg p st)
    then show ?thesis using inv by (auto simp: front_inv_def live_def)
  next
    case (serves s)
    then show ?thesis using inv live_step by (fastforce simp: front_inv_def)
  next
    case (gone n st err)
    then show ?thesis using inv by (auto simp: front_inv_def live_def)
  qed (use inv in \<open>simp add: front_inv_def\<close>)
  ultimately show ?thesis by (simp add: front_inv_def)
qed

lemma front_inv_init: "front_init f \<Longrightarrow> front_inv f"
  using limiter.inv_init [of "lim_init maxStreams" maxStreams]
  by (simp add: front_init_def front_start_def front_inv_def live_def sys_start_def)

interpretation front_server: forward_simulation front_init "front_step grow srt" front_inv sys_init "sys_step grow srt" fr_sys
  for grow srt
proof unfold_locales
  show "front_inv f" if "front_init f" for f by (rule front_inv_init [OF that])
  show "front_inv g" if "front_inv f" "front_step grow srt f g" for f g by (rule front_inv_step [OF that])
  show "sys_init (fr_sys f)" if "front_init f" for f using that by (simp add: front_init_def front_start_def sys_init_def)
  show "(sys_step grow srt)\<^sup>*\<^sup>* (fr_sys f) (fr_sys g)" if "front_inv f" "front_step grow srt f g" for f g
    by (rule front_sys [OF that(2)])
qed

interpretation front_limiter:
  forward_simulation front_init "front_step grow srt" front_inv "\<lambda>l. l = lim_init maxStreams" "lim_step 0" fr_slots for grow srt
proof unfold_locales
  show "fr_slots f = lim_init maxStreams" if "front_init f" for f using that by (simp add: front_init_def front_start_def)
  show "(lim_step 0)\<^sup>*\<^sup>* (fr_slots f) (fr_slots g)" if "front_inv f" "front_step grow srt f g" for f g
    by (rule front_slots [OF that(2)])
qed

section \<open>Slots come free\<close>

text \<open>A run of the server that opens no stream is a run behind the interceptor.\<close>

lemma streams_stay:
  assumes "(sys_step grow srt)\<^sup>*\<^sup>* s t"
  shows "dom (sy_streams s) \<subseteq> dom (sy_streams t)"
  using assms
proof (induction rule: rtranclp_induct)
  case (step t u)
  from step(2) have "dom (sy_streams t) \<subseteq> dom (sy_streams u)" by (cases rule: sys_step.cases) auto
  with step(3) show ?case by simp
qed simp

lemma front_run:
  assumes "(sys_step grow srt)\<^sup>*\<^sup>* s t" "fr_sys f = s" "dom (sy_streams t) = dom (sy_streams s)"
  shows "(front_step grow srt)\<^sup>*\<^sup>* f (f\<lparr>fr_sys := t\<rparr>)"
  using assms
proof (induction arbitrary: f rule: converse_rtranclp_induct)
  case base
  then have "f\<lparr>fr_sys := t\<rparr> = f" by simp
  then show ?case by simp
next
  case (step s u)
  have "dom (sy_streams s) \<subseteq> dom (sy_streams u)" "dom (sy_streams u) \<subseteq> dom (sy_streams t)"
    using streams_stay step(1,2) by blast+
  then have d: "dom (sy_streams u) = dom (sy_streams s)" using step(5) by simp
  have "front_step grow srt f (f\<lparr>fr_sys := u\<rparr>)" using front_step.serves [of grow srt f u] step(1,4) d by simp
  moreover have "(front_step grow srt)\<^sup>*\<^sup>* (f\<lparr>fr_sys := u\<rparr>) (f\<lparr>fr_sys := t\<rparr>)"
    using step(3) [of "f\<lparr>fr_sys := u\<rparr>"] step(5) d by simp
  ultimately show ?case by (rule converse_rtranclp_into_rtranclp)
qed

text \<open>Whoever holds a slot can be brought to give it back: its handler ends, at its first message or later.\<close>

lemma slot_comes_free:
  assumes srt: "match_sort srt" and f: "reachable front_init (front_step grow srt) f" and n: "n \<in> running (fr_slots f)"
  obtains g where "(front_step grow srt)\<^sup>*\<^sup>* f g" "running (fr_slots g) = running (fr_slots f) - {n}"
    and "dom (sy_streams (fr_sys g)) = dom (sy_streams (fr_sys f))"
proof (cases "sy_streams (fr_sys f) n")
  case None
  have "EnterMatchmaking grow 0 0 True None (sy_pool (fr_sys f)) = (sy_pool (fr_sys f), Inl (Some InvalidArgument))"
    by (simp add: EnterMatchmaking_def join_check_def)
  from front_step.refused [OF n _ this, of srt] None show thesis
    by (intro that [of "free_slot n (f\<lparr>fr_sys := (fr_sys f)\<lparr>sy_pool := sy_pool (fr_sys f)\<rparr>\<rparr>)"])
      (auto simp: unborn_def)
next
  case (Some st)
  obtain t st' err where t: "(sys_step grow srt)\<^sup>*\<^sup>* (fr_sys f) t" "sy_streams t n = Some st'" "gw_at st' = Returned err"
    "dom (sy_streams t) = dom (sy_streams (fr_sys f))"
    using can_end_always [OF srt front_server.reachable_abs [OF f] Some] unfolding can_end_def by blast
  have "front_step grow srt (f\<lparr>fr_sys := t\<rparr>) (free_slot n (f\<lparr>fr_sys := t\<rparr>))"
    by (rule front_step.gone) (use n t(2,3) in simp_all)
  with front_run [OF t(1) refl t(4)] show thesis
    by (intro that [of "free_slot n (f\<lparr>fr_sys := t\<rparr>)"]) (use t(4) in simp_all)
qed

lemma admits_iff:
  assumes "lim_inv maxStreams (fr_slots f)"
  shows "take_slot n f \<noteq> None \<longleftrightarrow> card (running (fr_slots f)) < maxStreams"
  using assms by (auto simp: lim_inv_def take_slot_def acquire_def chan_try_send_def split: if_splits)

text \<open>
  Below the limit nothing is lost: every run of the server with at most 500 streams in all is a run
  behind the interceptor.
\<close>

lemma behind_limit:
  assumes "runs grow srt s" "card (dom (sy_streams s)) \<le> maxStreams"
  shows "\<exists>f. reachable front_init (front_step grow srt) f \<and> fr_sys f = s \<and> running (fr_slots f) = dom (sy_streams s)"
  using assms
proof (induction rule: reachable.induct)
  case (start s)
  have "reachable front_init (front_step grow srt) front_start" by (rule reachable.start) (simp add: front_init_def)
  moreover have "fr_sys front_start = s" "running (fr_slots front_start) = dom (sy_streams s)"
    using start by (simp_all add: front_start_def sys_init_def sys_start_def lim_init_def)
  ultimately show ?case by blast
next
  case (move s t)
  have fin: "finite (dom (sy_streams t))" using runs_finite [OF reachable.move [OF move(1,2)]] by simp
  have sub: "dom (sy_streams s) \<subseteq> dom (sy_streams t)" by (rule streams_stay [OF r_into_rtranclp [of "sys_step grow srt", OF move(2)]])
  obtain f where f: "reachable front_init (front_step grow srt) f" "fr_sys f = s" "running (fr_slots f) = dom (sy_streams s)"
    using move.IH card_mono [OF fin sub] move.prems by auto
  have inv: "front_inv f" by (rule front_server.reachable_inv [OF f(1)])
  show ?case
  proof (cases "dom (sy_streams t) = dom (sy_streams s)")
    case True
    have "front_step grow srt f (f\<lparr>fr_sys := t\<rparr>)" by (rule front_step.serves) (use move(2) True f(2) in simp_all)
    then show ?thesis using reachable.move [OF f(1)] f(3) True by (intro exI [of _ "f\<lparr>fr_sys := t\<rparr>"]) simp
  next
    case False
    from move(2) False obtain joined now ok msg p st n where
      e: "EnterMatchmaking grow joined now ok msg (sy_pool s) = (p, Inr st)" "sy_streams s n = None"
      and t: "t = s\<lparr>sy_pool := p, sy_streams := (sy_streams s)(n \<mapsto> st)\<rparr>"
      by (cases rule: sys_step.cases) auto
    have "card (dom (sy_streams s)) < card (dom (sy_streams t))"
      by (rule psubset_card_mono [OF fin]) (use sub False in blast)
    then obtain g where g: "take_slot n f = Some g"
      using admits_iff [of f n] inv f(3) move.prems by (auto simp: front_inv_def)
    note sys = take_slot_sys [OF g]
    have "front_step grow srt f g"
      by (rule front_step.admitted [OF _ _ g]) (use e(2) f(2,3) in \<open>auto simp: unborn_def\<close>)
    then have one: "reachable front_init (front_step grow srt) g" by (rule reachable.move [OF f(1)])
    have "front_step grow srt g (g\<lparr>fr_sys := (fr_sys g)\<lparr>sy_pool := p, sy_streams := (sy_streams (fr_sys g))(n \<mapsto> st)\<rparr>\<rparr>)"
      by (rule front_step.joined) (use e sys f(2) in \<open>auto simp: unborn_def\<close>)
    from reachable.move [OF one this] show ?thesis
      by (intro exI [of _ "g\<lparr>fr_sys := (fr_sys g)\<lparr>sy_pool := p, sy_streams := (sy_streams (fr_sys g))(n \<mapsto> st)\<rparr>\<rparr>"])
        (use sys f(2,3) t in auto)
  qed
qed

lemma demo_front:
  obtains f where "reachable front_init (front_step demo_grow insertionSort) f" "running (fr_slots f) = {..<10}"
    and "live (fr_sys f) = {..<10}" "unborn 10 f"
proof -
  obtain s where s: "runs demo_grow insertionSort s" and g: "gathered demo_id (\<lambda>_. 1000) 10 s" by (rule demo_gathered)
  have at: "\<exists>st. sy_streams s i = Some st \<and> gw_at st = Selecting" if "i < 10" for i using g that unfolding gathered_def by blast
  have none: "sy_streams s i = None" if "\<not> i < 10" for i using g that by (simp add: gathered_def)
  have "dom (sy_streams s) = {..<10}" using at none by (auto simp: dom_def) (metis option.distinct(1))
  moreover have "live s = {..<10}"
  proof (intro set_eqI iffI)
    show "i \<in> {..<10}" if "i \<in> live s" for i using that none [of i] by (cases "i < 10") (auto simp: live_def)
    show "i \<in> live s" if "i \<in> {..<10}" for i using at [of i] that by (auto simp: live_def)
  qed
  ultimately show thesis using that behind_limit [OF s] none [of 10] by (auto simp: maxStreams_def unborn_def)
qed

section \<open>Properties\<close>

text \<open>C11: behind the limit the server is still the server, so that everything proved of it holds; and at any
  time at most 500 stream handlers are at work, counting those that still wait for their first message.
  A newcomer is turned away exactly when 500 slots are taken, the receive that gives a slot back never
  waits, and a stream that is turned away leaves no trace.\<close>

theorem stream_capacity:
  assumes "reachable front_init (front_step grow srt) f"
  shows "runs grow srt (fr_sys f) \<and> finite (live (fr_sys f)) \<and> card (live (fr_sys f)) \<le> card (running (fr_slots f))
    \<and> card (running (fr_slots f)) \<le> 500
    \<and> (take_slot n f = None \<longleftrightarrow> card (running (fr_slots f)) = 500)
    \<and> (running (fr_slots f) \<noteq> {} \<longrightarrow> fst (chan_recv 0 (lim_heap (fr_slots f))) = Value ())"
proof -
  have inv: "front_inv f" by (rule front_server.reachable_inv [OF assms])
  then obtain ch where ch: "finite (running (fr_slots f))" "cells (lim_heap (fr_slots f)) 0 = Some ch"
    "length (ch_buf ch) = card (running (fr_slots f))" "card (running (fr_slots f)) \<le> 500"
    by (auto simp: front_inv_def lim_inv_def maxStreams_def)
  have live: "live (fr_sys f) \<subseteq> running (fr_slots f)" using inv by (simp add: front_inv_def)
  have "take_slot n f = None \<longleftrightarrow> card (running (fr_slots f)) = 500"
    using admits_iff [of f n] inv ch(4) by (auto simp: front_inv_def maxStreams_def)
  moreover have "running (fr_slots f) \<noteq> {} \<longrightarrow> fst (chan_recv 0 (lim_heap (fr_slots f))) = Value ()"
    using ch(1-3) by (cases "ch_buf ch") (auto simp: chan_recv_def)
  ultimately show ?thesis
    using front_server.reachable_abs [OF assms] live ch(1,4) card_mono finite_subset by blast
qed

theorem stream_capacity_witness:
  "\<exists>f. runs demo_grow insertionSort (fr_sys f) \<and> card (live (fr_sys f)) = 10 \<and> take_slot 10 f \<noteq> None"
proof -
  obtain f where f: "reachable front_init (front_step demo_grow insertionSort) f" "running (fr_slots f) = {..<10}"
    "live (fr_sys f) = {..<10}" by (rule demo_front)
  from stream_capacity [OF f(1), of 10] f show ?thesis by (intro exI [of _ f]) simp
qed

text \<open>The limit cannot shut a player out for ever: from every reachable state, with any slots taken, there
  is a run that ends with a given new stream admitted.\<close>

theorem stream_admitted_eventually:
  assumes "match_sort srt" "reachable front_init (front_step grow srt) f" "n \<notin> running (fr_slots f)" "unborn n f"
  shows "\<exists>g. (front_step grow srt)\<^sup>*\<^sup>* f g \<and> n \<in> running (fr_slots g) \<and> unborn n g"
proof -
  have admit: "\<exists>g. (front_step grow srt)\<^sup>*\<^sup>* f g \<and> n \<in> running (fr_slots g) \<and> unborn n g"
    if f: "reachable front_init (front_step grow srt) f" "n \<notin> running (fr_slots f)" "unborn n f"
      and free: "card (running (fr_slots f)) < maxStreams" for f
  proof -
    have "front_inv f" by (rule front_server.reachable_inv [OF f(1)])
    then obtain g where g: "take_slot n f = Some g" using admits_iff [of f n] free by (auto simp: front_inv_def)
    have "front_step grow srt f g" by (rule front_step.admitted [OF f(2,3) g])
    then show ?thesis using take_slot_sys [OF g] f(3) by (intro exI [of _ g]) (auto simp: unborn_def)
  qed
  show ?thesis
  proof (cases "card (running (fr_slots f)) < maxStreams")
    case True
    then show ?thesis by (rule admit [OF assms(2-4)])
  next
    case False
    have inv: "lim_inv maxStreams (fr_slots f)"
      using front_server.reachable_inv [OF assms(2)] by (simp add: front_inv_def)
    then have fin: "finite (running (fr_slots f))" "card (running (fr_slots f)) \<le> maxStreams" by (auto simp: lim_inv_def)
    with False obtain m where m: "m \<in> running (fr_slots f)"
      by (metis card.empty ex_in_conv maxStreams_def zero_less_numeral)
    obtain g where g: "(front_step grow srt)\<^sup>*\<^sup>* f g" "running (fr_slots g) = running (fr_slots f) - {m}"
      "dom (sy_streams (fr_sys g)) = dom (sy_streams (fr_sys f))"
      by (rule slot_comes_free [OF assms(1,2) m])
    have "card (running (fr_slots g)) < maxStreams"
      using fin m g(2) by (simp add: card_gt_0_iff) (metis Suc_pred card_gt_0_iff empty_iff less_eq_Suc_le)
    moreover have "unborn n g" using assms(4) g(3) unfolding unborn_def by (metis domIff)
    ultimately obtain h where "(front_step grow srt)\<^sup>*\<^sup>* g h" "n \<in> running (fr_slots h)" "unborn n h"
      using admit [OF reachable_steps [OF g(1) assms(2)]] assms(3) g(2) by blast
    then show ?thesis using g(1) by (meson rtranclp_trans)
  qed
qed

theorem stream_admitted_eventually_witness:
  "\<exists>f g. 10 \<notin> running (fr_slots f) \<and> (front_step demo_grow insertionSort)\<^sup>*\<^sup>* f g \<and> 10 \<in> running (fr_slots g)"
proof -
  obtain f where f: "reachable front_init (front_step demo_grow insertionSort) f" "running (fr_slots f) = {..<10}" "unborn 10 f"
    by (rule demo_front)
  from stream_admitted_eventually [OF match_insertion.match_sort_axioms f(1) _ f(3)] f(2) show ?thesis by fastforce
qed

end
