(* ===== verification/Nexus_Client.thy ===== *)
theory Nexus_Client
  imports Nexus_Gateway
begin

text \<open>
  \<open>client/main.go\<close>: one simulated player and the program that runs fifty of them. What the network, the
  server and the random generator do comes from an environment. The three global counters are passed
  as a state; the players run one after another, and the heartbeats are sent before the loop instead of
  beside it: \<open>Nexus_Bots\<close> shows that this gives the totals of every interleaving. A nil \<open>Match\<close> that is dereferenced is a panic. Logging and sleeping are not
  modelled.
\<close>

section \<open>Player data\<close>

definition numPlayers :: nat where "numPlayers = 50"

fun decimal :: "nat \<Rightarrow> string" where
  "decimal n = (if n < 10 then [char_of (48 + n)] else decimal (n div 10) @ [char_of (48 + n mod 10)])"

declare decimal.simps [simp del]

text \<open>\<open>%04d\<close>.\<close>

definition pad4 :: "nat \<Rightarrow> string" where
  "pad4 n = replicate (4 - length (decimal n)) (CHR ''0'') @ decimal n"

definition client_playerID :: "nat \<Rightarrow> string" where
  "client_playerID idx = ''player-'' @ pad4 idx"

definition join_request :: "nat \<Rightarrow> nat \<Rightarrow> GatewayRequest" where
  "join_request idx rnd = \<lparr>Action = Some (GatewayRequest_JoinQueue (Some \<lparr>jq_Player = Some
     \<lparr>pi_PlayerId = client_playerID idx, pi_DisplayName = ''Bot_'' @ pad4 idx, pi_Mmr = word_of_nat (1000 + rnd)\<rparr>\<rparr>))\<rparr>"

definition accept_request :: "nat \<Rightarrow> GatewayRequest" where
  "accept_request idx = \<lparr>Action = Some (GatewayRequest_AcceptMatch (Some \<lparr>am_PlayerId = client_playerID idx\<rparr>))\<rparr>"

definition heartbeat_request :: "gtime \<Rightarrow> GatewayRequest" where
  "heartbeat_request now = \<lparr>Action = Some (GatewayRequest_Heartbeat
     (Some \<lparr>hb_ClientTimestampMs = UnixMilli now\<rparr>))\<rparr>"

section \<open>State and environment\<close>

record stats =
  matched :: i64
  failed :: i64
  results :: i64

record client =
  cl_stats :: stats
  cl_sent :: "GatewayRequest list"
  cl_submitted :: "SubmitResultRequest option"

definition add_matched :: "client \<Rightarrow> client" where
  "add_matched c = c\<lparr>cl_stats := (cl_stats c)\<lparr>matched := matched (cl_stats c) + 1\<rparr>\<rparr>"

definition add_failed :: "client \<Rightarrow> client" where
  "add_failed c = c\<lparr>cl_stats := (cl_stats c)\<lparr>failed := failed (cl_stats c) + 1\<rparr>\<rparr>"

definition add_results :: "client \<Rightarrow> client" where
  "add_results c = c\<lparr>cl_stats := (cl_stats c)\<lparr>results := results (cl_stats c) + 1\<rparr>\<rparr>"

text \<open>
  \<open>ce_beats\<close> lists the ticks of the heartbeat goroutine until the context ends, each with the success
  of its \<open>Send\<close>; \<open>ce_recv\<close> lists what \<open>Recv\<close> returns, each with the success of the acceptance that may answer it;
  \<open>None\<close> is an error, and so is the end of the list, since the stream's context times out.
\<close>

record client_env =
  ce_dial :: bool
  ce_open :: bool
  ce_join :: bool
  ce_mmr :: nat
  ce_beats :: "(gtime \<times> bool) list"
  ce_recv :: "(GatewayResponse option \<times> bool) list"
  ce_seconds :: nat
  ce_result :: nat
  ce_score :: nat
  ce_submit :: "SubmitResultRequest \<Rightarrow> SubmitResultResponse reply"

section \<open>The heartbeat goroutine\<close>

text \<open>It ends with the context or with the first heartbeat that cannot be sent.\<close>

fun heartbeats :: "(gtime \<times> bool) list \<Rightarrow> client \<Rightarrow> client" where
  "heartbeats [] c = c"
| "heartbeats ((now, ok) # beats) c =
     (if ok then heartbeats beats (c\<lparr>cl_sent := cl_sent c @ [heartbeat_request now]\<rparr>) else c)"

lemma heartbeats_keep [simp]:
  "cl_stats (heartbeats beats c) = cl_stats c" "cl_submitted (heartbeats beats c) = cl_submitted c"
  by (induction beats c rule: heartbeats.induct) auto

section \<open>The loop over the server's responses\<close>

datatype loop_end = LoopDone client string | LoopReturned client | LoopPanic

fun client_loop :: "nat \<Rightarrow> (GatewayResponse option \<times> bool) list \<Rightarrow> client \<Rightarrow> loop_end" where
  "client_loop idx [] c = LoopDone c []"
| "client_loop idx ((None, _) # rs) c = LoopDone c []"
| "client_loop idx ((Some resp, ok) # rs) c =
     (if gr_Status resp = QUEUE_STATUS_WAITING then client_loop idx rs c
      else if gr_Status resp = QUEUE_STATUS_READY_CHECK then
        (case gr_Match resp of
           None \<Rightarrow> LoopPanic
         | Some _ \<Rightarrow> if ok then client_loop idx rs (c\<lparr>cl_sent := cl_sent c @ [accept_request idx]\<rparr>)
                      else LoopReturned (add_failed c))
      else if gr_Status resp = QUEUE_STATUS_IN_GAME then
        (case gr_Match resp of
           None \<Rightarrow> LoopPanic
         | Some m \<Rightarrow> if ma_SessionId m \<noteq> [] then LoopDone (add_matched c) (ma_SessionId m)
                      else client_loop idx rs (add_matched c))
      else if gr_Status resp = QUEUE_STATUS_CANCELLED then LoopReturned (add_failed c)
      else client_loop idx rs c)"

section \<open>One player\<close>

definition possibleResults :: "MatchResult list" where
  "possibleResults = [MATCH_RESULT_WIN, MATCH_RESULT_LOSS, MATCH_RESULT_DRAW]"

text \<open>The submission, once the loop has ended with a session id.\<close>

definition request_of :: "nat \<Rightarrow> client_env \<Rightarrow> string \<Rightarrow> SubmitResultRequest" where
  "request_of idx env sessionID = \<lparr>sr_SessionId = sessionID, sr_PlayerId = client_playerID idx,
     sr_Result = possibleResults ! (ce_result env), sr_Score = word_of_nat (ce_score env),
     sr_DurationS = word_of_nat (ce_seconds env)\<rparr>"

definition submit_result :: "nat \<Rightarrow> client_env \<Rightarrow> string \<Rightarrow> client \<Rightarrow> client outcome" where
  "submit_result idx env sessionID c =
     (let req = request_of idx env sessionID; c' = c\<lparr>cl_submitted := Some req\<rparr>
      in (case ce_submit env req of
            (_, Some err) \<Rightarrow> Ret (add_failed c')
          | (None, None) \<Rightarrow> Panic
          | (Some _, None) \<Rightarrow> Ret (add_results c')))"

fun after_loop :: "nat \<Rightarrow> client_env \<Rightarrow> loop_end \<Rightarrow> client outcome" where
  "after_loop idx env LoopPanic = Panic"
| "after_loop idx env (LoopReturned c) = Ret c"
| "after_loop idx env (LoopDone c sessionID) =
     (if sessionID = [] then Ret (add_failed c) else submit_result idx env sessionID c)"

definition simulatePlayer :: "nat \<Rightarrow> client_env \<Rightarrow> client \<Rightarrow> client outcome" where
  "simulatePlayer idx env c =
     (if \<not> ce_dial env then Ret (add_failed c)
      else if \<not> ce_open env then Ret (add_failed c)
      else if \<not> ce_join env then Ret (add_failed c)
      else after_loop idx env (client_loop idx (ce_recv env)
             (heartbeats (ce_beats env) (c\<lparr>cl_sent := cl_sent c @ [join_request idx (ce_mmr env)]\<rparr>))))"

text \<open>
  The simulation: every player starts from the counters the others have left. The random numbers are
  in the ranges the code asks for.
\<close>

fun run_players :: "nat \<Rightarrow> client_env list \<Rightarrow> stats \<Rightarrow> stats outcome" where
  "run_players idx [] st = Ret st"
| "run_players idx (env # envs) st =
     ret_bind (simulatePlayer idx env \<lparr>cl_stats = st, cl_sent = [], cl_submitted = None\<rparr>)
       (\<lambda>c. run_players (Suc idx) envs (cl_stats c))"

definition simulation :: "client_env list \<Rightarrow> stats outcome" where
  "simulation envs = run_players 0 (take numPlayers envs) \<lparr>matched = 0, failed = 0, results = 0\<rparr>"

definition env_ok :: "client_env \<Rightarrow> bool" where
  "env_ok env \<longleftrightarrow> ce_mmr env \<le> 4000 \<and> ce_result env < 3 \<and> ce_score env < 100 \<and> ce_seconds env \<in> {1, 2, 3}"

definition connected :: "client_env \<Rightarrow> bool" where
  "connected env \<longleftrightarrow> ce_dial env \<and> ce_open env \<and> ce_join env"

lemmas counter_defs = add_matched_def add_failed_def add_results_def

section \<open>Every player is counted once\<close>

definition ended :: "stats \<Rightarrow> i64" where
  "ended st = failed st + results st"

lemma ended_adds:
  "ended (cl_stats (add_matched c)) = ended (cl_stats c)"
  "ended (cl_stats (add_failed c)) = ended (cl_stats c) + 1"
  "ended (cl_stats (add_results c)) = ended (cl_stats c) + 1"
  by (simp_all add: counter_defs ended_def)

lemma client_loop_ended:
  "client_loop idx rs c = LoopDone c' sid \<Longrightarrow> ended (cl_stats c') = ended (cl_stats c)"
  "client_loop idx rs c = LoopReturned c' \<Longrightarrow> ended (cl_stats c') = ended (cl_stats c) + 1"
  by (induction idx rs c rule: client_loop.induct) (auto simp: ended_adds split: if_splits option.splits)

lemma simulatePlayer_ended:
  assumes "simulatePlayer idx env c = Ret c'"
  shows "ended (cl_stats c') = ended (cl_stats c) + 1"
proof -
  have sub: "ended (cl_stats c2) = ended (cl_stats c1) + 1" if "submit_result idx env sid c1 = Ret c2" for sid c1 c2
    using that by (auto simp: submit_result_def Let_def ended_adds split: prod.splits option.splits)
  have loop: "ended (cl_stats c2) = ended (cl_stats c1) + 1" if "after_loop idx env (client_loop idx rs c1) = Ret c2" for rs c1 c2
    using that sub by (cases "client_loop idx rs c1") (auto simp: ended_adds dest!: client_loop_ended split: if_splits)
  show ?thesis
    using assms loop by (fastforce simp: simulatePlayer_def ended_adds split: if_splits)
qed

lemma run_players_ended:
  "run_players idx envs st = Ret st' \<Longrightarrow> ended st' = ended st + word_of_nat (length envs)"
  by (induction envs arbitrary: idx st) (auto simp: simulatePlayer_ended)

text \<open>So the final report adds up to the fifty players, if none of them crashes.\<close>

lemma simulation_adds_up:
  assumes "simulation envs = Ret st" "numPlayers \<le> length envs"
  shows "failed st + results st = word_of_nat numPlayers"
  using run_players_ended [OF assms(1) [unfolded simulation_def]] assms(2) by (simp add: ended_def)

section \<open>Against a server that keeps the protocol\<close>

definition received :: "(GatewayResponse option \<times> bool) list \<Rightarrow> GatewayResponse list" where
  "received rs = map (the \<circ> fst) (takeWhile (\<lambda>x. fst x \<noteq> None) rs)"

lemma received_simps [simp]:
  "received [] = []" "received ((None, ok) # rs) = []" "received ((Some resp, ok) # rs) = resp # received rs"
  by (simp_all add: received_def)

text \<open>A client that comes to a session has accepted it.\<close>

lemma client_loop_protocol:
  assumes "proto_run q (received rs) \<noteq> None" "\<forall>a. q = InCheck a \<longrightarrow> accept_request idx \<in> set (cl_sent c)"
  shows "client_loop idx rs c \<noteq> LoopPanic
    \<and> (\<forall>c' sid. client_loop idx rs c = LoopDone c' sid \<and> sid \<noteq> [] \<longrightarrow> accept_request idx \<in> set (cl_sent c'))"
  using assms
proof (induction idx rs c arbitrary: q rule: client_loop.induct)
  case (3 idx resp ok rs c)
  obtain q' where q': "proto_step q resp = Some q'" "proto_run q' (received rs) \<noteq> None"
    using "3.prems"(1) by (auto split: option.splits)
  note step = q'(1) [unfolded proto_step_def queue_status_defs]
  note ih = "3.IH" [unfolded queue_status_defs]
  consider "gr_Status resp = 1" | m where "gr_Status resp = 7" "gr_Match resp = Some m" "q' = InCheck m"
    | m where "gr_Status resp = 3" "gr_Match resp = Some m" "q = InCheck m" "q' = Over" | "gr_Status resp = 5"
    using step by (auto split: if_splits proto.splits option.splits)
  then show ?case
  proof cases
    case 1
    then have "q' = InQueue" using step by (auto split: if_splits)
    then show ?thesis using ih(1) [of q'] 1 q'(2) by (simp add: queue_status_defs)
  next
    case (2 m)
    show ?thesis
    proof (cases ok)
      case True
      with ih(2) [OF _ _ 2(2) True, of q'] 2 q'(2) show ?thesis by (simp add: queue_status_defs)
    qed (use 2 in \<open>simp add: queue_status_defs\<close>)
  next
    case (3 m)
    then have acc: "accept_request idx \<in> set (cl_sent (add_matched c))"
      using "3.prems"(2) by (simp add: add_matched_def)
    then show ?thesis
      using ih(3) [of m q'] 3 q'(2) by (auto simp: queue_status_defs)
  next
    case 4
    then show ?thesis by (simp add: queue_status_defs)
  qed
qed simp_all

lemma client_loop_submits: "client_loop idx rs c = LoopDone c' sid \<Longrightarrow> cl_submitted c' = cl_submitted c"
  "client_loop idx rs c = LoopReturned c' \<Longrightarrow> cl_submitted c' = cl_submitted c"
  by (induction idx rs c rule: client_loop.induct) (auto simp: counter_defs split: if_splits option.splits)

section \<open>Properties\<close>

text \<open>Every simulated player can join: its request passes the gateway's checks for every rating the
  generator can draw, and the fifty ids are different, so none is refused as already queued.\<close>

theorem client_joins:
  assumes "rnd \<le> 4000"
  shows "(\<exists>player. join_check (Some (join_request idx rnd)) = Inr player \<and> pi_PlayerId player = client_playerID idx
      \<and> sint (pi_Mmr player) = 1000 + int rnd)
    \<and> distinct (map client_playerID [0..<numPlayers])"
proof -
  have "sint (word_of_nat (1000 + rnd) :: i32) = 1000 + int rnd"
    using assms sint_of_nat_i32 [of "1000 + rnd"] by simp
  moreover have "distinct (map client_playerID [0..<numPlayers])"
    unfolding numPlayers_def by code_simp
  ultimately show ?thesis
    using assms by (simp add: join_check_Inr join_request_def GetJoinQueue_def client_playerID_def MaxMMR_def)
qed

theorem client_joins_witness:
  "\<exists>player. join_check (Some (join_request 7 4000)) = Inr player \<and> sint (pi_Mmr player) = 5000"
  using client_joins [of 4000 7] by auto

text \<open>Against a server that keeps the gateway's protocol a simulated player never crashes, counts exactly
  one end (a result or a failure), and what it submits is a well-formed request for a non-empty session
  id, after having accepted a ready check.\<close>

theorem simulatePlayer_correct:
  assumes "env_ok env" "proto_run Before (received (ce_recv env)) \<noteq> None" "\<forall>req. ce_submit env req \<noteq> (None, None)"
    and "cl_submitted c = None"
  shows "\<exists>c'. simulatePlayer idx env c = Ret c'
    \<and> (results (cl_stats c') = results (cl_stats c) + 1 \<and> failed (cl_stats c') = failed (cl_stats c)
       \<or> results (cl_stats c') = results (cl_stats c) \<and> failed (cl_stats c') = failed (cl_stats c) + 1)
    \<and> (\<forall>req. cl_submitted c' = Some req \<longrightarrow> sr_SessionId req \<noteq> [] \<and> sr_PlayerId req = client_playerID idx
         \<and> sr_Result req \<in> {1, 2, 3} \<and> 0 < sint (sr_DurationS req) \<and> accept_request idx \<in> set (cl_sent c'))"
proof -
  let ?c = "heartbeats (ce_beats env) (c\<lparr>cl_sent := cl_sent c @ [join_request idx (ce_mmr env)]\<rparr>)"
  note loop = client_loop_protocol [OF assms(2), of idx ?c]
  have res: "possibleResults ! (ce_result env) \<in> {1, 2, 3}"
    using assms(1) by (auto simp: env_ok_def possibleResults_def match_result_defs less_Suc_eq numeral_3_eq_3)
  have dur: "0 < sint (word_of_nat (ce_seconds env) :: i32)"
    using assms(1) by (auto simp: env_ok_def)
  have kept: "results (cl_stats c') = results (cl_stats c0) \<and> failed (cl_stats c') = failed (cl_stats c0)"
    if "client_loop i rs c0 = LoopDone c' sid" for i rs c0 c' sid
    using that by (induction i rs c0 rule: client_loop.induct) (auto simp: add_matched_def split: if_splits option.splits)
  have lost: "results (cl_stats c') = results (cl_stats c0) \<and> failed (cl_stats c') = failed (cl_stats c0) + 1"
    if "client_loop i rs c0 = LoopReturned c'" for i rs c0 c'
    using that
    by (induction i rs c0 rule: client_loop.induct) (auto simp: add_matched_def add_failed_def split: if_splits option.splits)
  have sub: "ce_submit env req = (None, None) \<longleftrightarrow> False" for req using assms(3) by blast
  show ?thesis
  proof (cases "client_loop idx (ce_recv env) ?c")
    case (LoopDone c1 sid)
    with kept [OF this] loop client_loop_submits(1) [OF this] res dur assms(4) show ?thesis
      by (cases "ce_submit env \<lparr>sr_SessionId = sid, sr_PlayerId = client_playerID idx,
                   sr_Result = possibleResults ! (ce_result env), sr_Score = word_of_nat (ce_score env),
                   sr_DurationS = word_of_nat (ce_seconds env)\<rparr>")
        (auto simp: simulatePlayer_def submit_result_def request_of_def add_failed_def add_results_def Let_def sub split: option.splits)
  next
    case (LoopReturned c1)
    with lost [OF this] client_loop_submits(2) [OF this] assms(4) show ?thesis
      by (auto simp: simulatePlayer_def add_failed_def)
  qed (use loop in simp)
qed

definition lucky :: client_env where
  "lucky = \<lparr>ce_dial = True, ce_open = True, ce_join = True, ce_mmr = 500, ce_beats = [(1, True)],
     ce_recv = [(Some (joined_response 1), True), (Some (check_response 2 ann_event), True), (Some (game_response 3 ann_event), True)],
     ce_seconds = 2, ce_result = 0, ce_score = 42,
     ce_submit = (\<lambda>_. reply_ok \<lparr>sp_Accepted = True, sp_Message = [], sp_NewMmr = 25\<rparr>)\<rparr>"

definition new_client :: client where
  "new_client = \<lparr>cl_stats = \<lparr>matched = 0, failed = 0, results = 0\<rparr>, cl_sent = [], cl_submitted = None\<rparr>"

lemma lucky_protocol: "proto_run Before (received (ce_recv lucky)) \<noteq> None"
  by (simp add: lucky_def proto_step_def response_defs)

theorem simulatePlayer_correct_witness:
  "\<exists>c'. simulatePlayer 7 lucky new_client = Ret c' \<and> results (cl_stats c') = 1 \<and> accept_request 7 \<in> set (cl_sent c')"
proof -
  have "env_ok lucky" "\<forall>req. ce_submit lucky req \<noteq> (None, None)" "cl_submitted new_client = None"
    by (simp_all add: env_ok_def lucky_def reply_ok_def new_client_def)
  from simulatePlayer_correct [OF this(1) lucky_protocol this(2,3), of 7] show ?thesis
    by (auto simp: simulatePlayer_def submit_result_def lucky_def new_client_def response_defs assignment_def ann_event_def reply_ok_def
        counter_defs Let_def)
qed

end
