(* ===== verification/Nexus_EndToEnd.thy ===== *)
theory Nexus_EndToEnd
  imports Nexus_Ghost Nexus_Client
begin

text \<open>
  The simulated player of \<open>client/main.go\<close> against the server: what it receives is what its stream has
  sent, in that order and perhaps not yet all of it, and its submission is answered by \<open>SubmitResult\<close> on
  the server's session store.
\<close>

section \<open>What a stream tells its client\<close>

lemma in_game_session:
  assumes "match_sort srt" "runs grow srt s" "sy_streams s n = Some st" "resp \<in> set (gw_sent st)"
    and "gr_Status resp = QUEUE_STATUS_IN_GAME" "gr_Match resp = Some a"
  obtains t where "GetSession (ma_SessionId a) (sy_sessions s) = Some t" "PlayerID (gw_qp st) \<in> set (PlayerIDs t)"
    and "length (PlayerIDs t) = 10"
proof -
  have inv: "sys_inv grow s" by (rule runs_inv [OF assms(1,2)])
  obtain rp i where sv: "serves s (gw_qp st) rp i" and a: "a = assignment (rp_event rp i)" and c: "confirmed (rp_co rp)"
    using stream_assigned [OF sys_facts(6) [OF inv assms(3)] assms(4,6)] assms(5) by metis
  obtain k where k: "sy_rooms s k = Some rp" and i: "i < 10" "gw_qp st = rp_player rp i"
    using serves_room [OF inv sv] by metis
  note r = sys_facts(4) [OF inv k]
  obtain t where t: "GetSession (rm_session (rp_room rp)) (sy_sessions s) = Some t"
    "PlayerIDs t = map PlayerID (rm_players (rp_room rp))"
    by (rule confirmed_session [OF inv k c])
  show thesis
    by (rule that [of t]) (use t i a room_shape(2) [OF r] in \<open>simp_all add: assignment_def rp_player_def\<close>)
qed

lemma stream_protocol:
  assumes "match_sort srt" "runs grow srt s" "sy_streams s n = Some st"
  shows "proto_run Before (gw_sent st) \<noteq> None"
proof -
  have "sys_inv grow s" by (rule runs_inv [OF assms(1,2)])
  then have "reachable gate_init gate_step (stream_view st s)" using stream_facts(1) sys_facts(6) assms(3) by blast
  then have "gate_inv (stream_view st s)" by (rule stream_machine.reachable_inv)
  then show ?thesis by (auto simp: gate_inv_def sent_ok_def stream_view_def)
qed

lemma proto_run_prefix: "proto_run q (xs @ ys) \<noteq> None \<Longrightarrow> proto_run q xs \<noteq> None"
  by (induction xs arbitrary: q) (auto split: option.splits)

section \<open>What the client makes of it\<close>

lemma client_loop_kept:
  "client_loop idx rs c = LoopDone c' sid \<Longrightarrow> failed (cl_stats c') = failed (cl_stats c) \<and> results (cl_stats c') = results (cl_stats c)"
  "client_loop idx rs c = LoopReturned c' \<Longrightarrow> (\<And>c0. c' = add_failed c0 \<Longrightarrow> cl_submitted c0 = cl_submitted c
     \<Longrightarrow> failed (cl_stats c0) = failed (cl_stats c) \<Longrightarrow> results (cl_stats c0) = results (cl_stats c) \<Longrightarrow> P) \<Longrightarrow> P"
proof -
  show "client_loop idx rs c = LoopDone c' sid \<Longrightarrow> failed (cl_stats c') = failed (cl_stats c) \<and> results (cl_stats c') = results (cl_stats c)"
    by (induction idx rs c rule: client_loop.induct) (auto simp: add_matched_def split: if_splits option.splits)
  have "client_loop idx rs c = LoopReturned c' \<Longrightarrow> \<exists>c0. c' = add_failed c0 \<and> cl_submitted c0 = cl_submitted c
     \<and> failed (cl_stats c0) = failed (cl_stats c) \<and> results (cl_stats c0) = results (cl_stats c)"
    by (induction idx rs c rule: client_loop.induct) (auto simp: add_matched_def split: if_splits option.splits)
  then show "client_loop idx rs c = LoopReturned c' \<Longrightarrow> (\<And>c0. c' = add_failed c0 \<Longrightarrow> cl_submitted c0 = cl_submitted c
     \<Longrightarrow> failed (cl_stats c0) = failed (cl_stats c) \<Longrightarrow> results (cl_stats c0) = results (cl_stats c) \<Longrightarrow> P) \<Longrightarrow> P"
    by blast
qed

text \<open>A session id comes from an IN_GAME response.\<close>

lemma client_loop_session:
  assumes "client_loop idx rs c = LoopDone c' sid" "sid \<noteq> []"
  obtains resp m where "resp \<in> set (received rs)" "gr_Status resp = QUEUE_STATUS_IN_GAME" "gr_Match resp = Some m" "ma_SessionId m = sid"
  using assms
proof (induction idx rs c arbitrary: thesis rule: client_loop.induct)
  case (3 idx resp ok rs c)
  show ?case
  proof (cases "gr_Status resp = QUEUE_STATUS_IN_GAME \<and> (\<exists>m. gr_Match resp = Some m \<and> ma_SessionId m = sid)")
    case True
    then show ?thesis using "3.prems"(1) by auto
  next
    case False
    show ?thesis
      using "3.prems" "3.IH" False
      by (auto simp: queue_status_defs split: if_splits option.splits)
  qed
qed simp_all

text \<open>And an IN_GAME response with a session id is not missed, if every acceptance could be sent.\<close>

definition all_sent :: "client_env \<Rightarrow> bool" where
  "all_sent env \<longleftrightarrow> (\<forall>x \<in> set (ce_recv env). snd x)"

definition announces :: "GatewayResponse \<Rightarrow> bool" where
  "announces resp \<longleftrightarrow> gr_Status resp = QUEUE_STATUS_IN_GAME \<and> (\<exists>m. gr_Match resp = Some m \<and> ma_SessionId m \<noteq> [])"

lemma proto_run_over: "proto_run Over resps \<noteq> None \<Longrightarrow> resps = []"
  by (cases resps) (auto simp: proto_step_def split: option.splits if_splits)

lemma client_loop_reaches:
  assumes "proto_run q (received rs) \<noteq> None" "\<forall>x \<in> set rs. snd x" "\<exists>resp \<in> set (received rs). announces resp"
  shows "\<exists>c' sid. client_loop idx rs c = LoopDone c' sid \<and> sid \<noteq> []"
  using assms
proof (induction idx rs c arbitrary: q rule: client_loop.induct)
  case (3 idx resp ok rs c)
  obtain q' where q': "proto_step q resp = Some q'" "proto_run q' (received rs) \<noteq> None"
    using "3.prems"(1) by (auto split: option.splits)
  note step = q'(1) [unfolded proto_step_def queue_status_defs]
  have ok: ok and rest: "\<forall>x \<in> set rs. snd x" using "3.prems"(2) by simp_all
  have later: "\<exists>resp \<in> set (received rs). announces resp" if "\<not> announces resp" using "3.prems"(3) that by auto
  consider "gr_Status resp = 1" | m where "gr_Status resp = 7" "gr_Match resp = Some m"
    | m where "gr_Status resp = 3" "gr_Match resp = Some m" "q' = Over" | "gr_Status resp = 5" "q' = Over"
    using step by (auto split: if_splits proto.splits option.splits)
  then show ?case
  proof cases
    case 1
    then show ?thesis using "3.IH"(1) [OF _ q'(2) rest] later by (simp add: queue_status_defs announces_def)
  next
    case (2 m)
    then show ?thesis using "3.IH"(2) [OF _ _ 2(2) ok q'(2) rest] later ok by (simp add: queue_status_defs announces_def)
  next
    case (3 m)
    then have "announces resp" using proto_run_over [of "received rs"] q'(2) later by auto
    then show ?thesis using 3 by (simp add: queue_status_defs announces_def)
  next
    case 4
    then show ?thesis using proto_run_over [of "received rs"] q'(2) later by (simp add: queue_status_defs announces_def)
  qed
qed simp_all

definition delivered :: "client_env \<Rightarrow> Stream \<Rightarrow> bool" where
  "delivered env st \<longleftrightarrow> (\<exists>rest. gw_sent st = received (ce_recv env) @ rest)"

definition submits_to :: "client_env \<Rightarrow> bool \<Rightarrow> gtime \<Rightarrow> System \<Rightarrow> bool" where
  "submits_to env ctx_done now s \<longleftrightarrow> ce_submit env = (\<lambda>req. snd (SubmitResult RecordResult ctx_done now req (sy_sessions s)))"

lemma member_submits:
  assumes "GetSession (sr_SessionId req) ss = Some t" "sr_PlayerId req \<in> set (PlayerIDs t)"
    and "sr_SessionId req \<noteq> []" "sr_PlayerId req \<noteq> []" "sr_Result req \<in> {1, 2, 3}" "0 < sint (sr_DurationS req)"
  shows "\<exists>resp err. snd (SubmitResult RecordResult ctx_done now req ss) = (resp, err) \<and> (resp = None \<longleftrightarrow> err \<noteq> None)
    \<and> (err = None \<longleftrightarrow> \<not> ctx_done \<and> sr_PlayerId req \<notin> dom (Results t))"
proof (cases rule: RecordResult_cases [of ss "sr_SessionId req" now "sr_PlayerId req" "sr_Result req" "sr_Score req"])
  case (Recorded u s2 delta)
  then have "u = t" using assms(1) by (simp add: GetSession_def)
  with Recorded assms show ?thesis
    by (auto simp: SubmitResult_def reply_error_def reply_ok_def match_result_defs)
qed (use assms in \<open>auto simp: SubmitResult_def reply_error_def reply_ok_def match_result_defs GetSession_def result_delta_def split: if_splits\<close>)

lemma request_valid:
  assumes "env_ok env"
  shows "sr_Result (request_of idx env sid) \<in> {1, 2, 3}" "0 < sint (sr_DurationS (request_of idx env sid))"
    and "sr_PlayerId (request_of idx env sid) = client_playerID idx" "sr_PlayerId (request_of idx env sid) \<noteq> []"
  using assms by (auto simp: request_of_def env_ok_def possibleResults_def match_result_defs less_Suc_eq numeral_3_eq_3 client_playerID_def)

definition told_session :: "client_env \<Rightarrow> bool" where
  "told_session env \<longleftrightarrow> all_sent env \<and> (\<exists>resp \<in> set (received (ce_recv env)). announces resp)"

text \<open>The run of a player, by how its loop ends.\<close>

lemma simulatePlayer_run:
  assumes "connected env" "proto_run Before (received (ce_recv env)) \<noteq> None"
  obtains (lost) c1 where "simulatePlayer idx env c = Ret (add_failed c1)" "cl_submitted c1 = cl_submitted c"
      "failed (cl_stats c1) = failed (cl_stats c)" "results (cl_stats c1) = results (cl_stats c)" "\<not> told_session env"
  | (played) c1 sid resp m where "sid \<noteq> []" "resp \<in> set (received (ce_recv env))" "gr_Status resp = QUEUE_STATUS_IN_GAME"
      "gr_Match resp = Some m" "ma_SessionId m = sid"
      "simulatePlayer idx env c = submit_result idx env sid c1"
      "failed (cl_stats c1) = failed (cl_stats c)" "results (cl_stats c1) = results (cl_stats c)"
proof -
  let ?c = "heartbeats (ce_beats env) (c\<lparr>cl_sent := cl_sent c @ [join_request idx (ce_mmr env)]\<rparr>)"
  have run: "simulatePlayer idx env c = after_loop idx env (client_loop idx (ce_recv env) ?c)"
    using assms(1) by (simp add: simulatePlayer_def connected_def)
  have told: "\<exists>c' sid. client_loop idx (ce_recv env) ?c = LoopDone c' sid \<and> sid \<noteq> []" if "told_session env"
    using client_loop_reaches [OF assms(2)] that unfolding told_session_def all_sent_def by blast
  show thesis
  proof (cases "client_loop idx (ce_recv env) ?c")
    case (LoopDone c1 sid)
    note kept = client_loop_kept(1) [OF LoopDone] client_loop_submits(1) [OF LoopDone]
    show thesis
    proof (cases "sid = []")
      case True
      moreover have "\<not> told_session env" using told LoopDone True by auto
      ultimately show thesis using run LoopDone kept by (intro lost [of c1]) simp_all
    next
      case False
      obtain resp m where "resp \<in> set (received (ce_recv env))" "gr_Status resp = QUEUE_STATUS_IN_GAME"
        "gr_Match resp = Some m" "ma_SessionId m = sid" by (rule client_loop_session [OF LoopDone False])
      then show thesis using run LoopDone kept False by (intro played [of sid resp m c1]) simp_all
    qed
  next
    case (LoopReturned c1)
    obtain c0 where "c1 = add_failed c0" "cl_submitted c0 = cl_submitted ?c" "failed (cl_stats c0) = failed (cl_stats ?c)"
      "results (cl_stats c0) = results (cl_stats ?c)" by (rule client_loop_kept(2) [OF LoopReturned])
    moreover have "\<not> told_session env" using told LoopReturned by auto
    ultimately show thesis using run LoopReturned by (intro lost [of c0]) simp_all
  qed (use client_loop_protocol [OF assms(2), of idx ?c] in simp)
qed

section \<open>Example\<close>

text \<open>Ten simulated players with the ratings the generator gives for 0; the first one has played its match.\<close>

lemma ten_clients: "inj_on client_playerID {..<10}" "client_playerID i \<noteq> []"
proof -
  have "distinct (map client_playerID [0..<10])" by code_simp
  then have "inj_on client_playerID (set [0..<10])" by (simp only: distinct_map)
  moreover have "set [0..<10] = {..<10::nat}" by auto
  ultimately show "inj_on client_playerID {..<10}" by simp
qed (simp add: client_playerID_def)

lemma clients_play:
  obtains s n st where "runs demo_grow insertionSort s" "sy_streams s n = Some st" "PlayerID (gw_qp st) = client_playerID 0"
    and "\<exists>resp \<in> set (gw_sent st). announces resp"
proof -
  have ids: "\<forall>i < 10. client_playerID i \<noteq> [] \<and> 0 \<le> sint (1000 :: i32) \<and> sint (1000 :: i32) \<le> MaxMMR"
    using ten_clients demo_mmr by simp
  obtain s0 rp who where s0: "runs demo_grow insertionSort s0" "sy_rooms s0 0 = Some rp" and sid: "rm_session (rp_room rp) = ''s''"
    and ids': "set (map PlayerID (rm_players (rp_room rp))) = client_playerID ` {..<10}" "length (rm_players (rp_room rp)) = 10"
    and dec: "co_at (rp_co rp) = Finished" "co_allAccepted (rp_co rp)" "\<And>i. i < 10 \<Longrightarrow> slot_after who s0 rp i"
    using match_decided [OF match_insertion.match_sort_axioms ten_clients(1), of "\<lambda>_. 1000" 2 demo_grow "''s''"] ids demo_mmr(1) by metis
  obtain s where s: "runs demo_grow insertionSort s" and played: "\<And>i. i < 10 \<Longrightarrow> slot_played who s rp i"
    using room_plays [OF match_insertion.match_sort_axioms s0 dec] by metis
  have "client_playerID 0 \<in> set (map PlayerID (rm_players (rp_room rp)))" using ids'(1) by simp
  then obtain j where j: "j < 10" "PlayerID (rp_player rp j) = client_playerID 0"
    using ids'(2) by (auto simp: in_set_conv_nth rp_player_def)
  obtain st where st: "sy_streams s (who j) = Some st" "gw_qp st = rp_player rp j" "game_response 0 (rp_event rp j) \<in> set (gw_sent st)"
    using played [OF j(1)] unfolding slot_played_def by blast
  have "announces (game_response 0 (rp_event rp j))" by (simp add: announces_def game_response_def assignment_def sid)
  then show thesis using that [OF s st(1)] st(2,3) j(2) by auto
qed

section \<open>Properties\<close>

text \<open>C10: end to end: a simulated player whose connection carries what its stream has sent never crashes and is
  counted once. It submits only for a session that exists and lists it among ten players; the server
  then accepts the result, unless the deadline has passed or a result of this player has been recorded
  before. A player that has not been told IN_GAME submits nothing and counts as failed, and one that has
  read IN_GAME, with all its acceptances sent, does submit.\<close>

theorem end_to_end:
  assumes "match_sort srt" "runs grow srt s" "sy_streams s n = Some st" "PlayerID (gw_qp st) = client_playerID idx"
    and "connected env" "env_ok env" "delivered env st" "submits_to env ctx_done now s" "cl_submitted c = None"
  shows "\<exists>c'. simulatePlayer idx env c = Ret c'
    \<and> (case cl_submitted c' of
         None \<Rightarrow> failed (cl_stats c') = failed (cl_stats c) + 1 \<and> results (cl_stats c') = results (cl_stats c)
       | Some req \<Rightarrow> \<exists>t. GetSession (sr_SessionId req) (sy_sessions s) = Some t \<and> sr_PlayerId req = client_playerID idx
           \<and> client_playerID idx \<in> set (PlayerIDs t) \<and> length (PlayerIDs t) = 10
           \<and> (if \<not> ctx_done \<and> client_playerID idx \<notin> dom (Results t)
              then results (cl_stats c') = results (cl_stats c) + 1 \<and> failed (cl_stats c') = failed (cl_stats c)
              else failed (cl_stats c') = failed (cl_stats c) + 1 \<and> results (cl_stats c') = results (cl_stats c)))
    \<and> ((\<forall>resp \<in> set (gw_sent st). gr_Status resp \<noteq> QUEUE_STATUS_IN_GAME) \<longrightarrow> cl_submitted c' = None)
    \<and> (told_session env \<longrightarrow> cl_submitted c' \<noteq> None)"
proof -
  obtain rest where rest: "gw_sent st = received (ce_recv env) @ rest" using assms(7) by (auto simp: delivered_def)
  have proto: "proto_run Before (received (ce_recv env)) \<noteq> None"
    by (rule proto_run_prefix [of _ _ rest]) (use stream_protocol [OF assms(1-3)] rest in simp)
  from assms(5) proto show ?thesis
  proof (cases rule: simulatePlayer_run [of env idx c])
    case (lost c1)
    then show ?thesis using assms(9) by (intro exI [of _ "add_failed c1"]) (simp add: add_failed_def)
  next
    case (played c1 sid resp m)
    let ?req = "request_of idx env sid"
    have resp: "resp \<in> set (gw_sent st)" using played(2) rest by simp
    obtain t where t: "GetSession sid (sy_sessions s) = Some t" "client_playerID idx \<in> set (PlayerIDs t)" "length (PlayerIDs t) = 10"
      using in_game_session [OF assms(1-3) resp played(3,4)] played(5) assms(4) by metis
    have sid: "sr_SessionId ?req = sid" by (simp add: request_of_def)
    note v = request_valid [OF assms(6), of idx sid]
    obtain reply err where r: "snd (SubmitResult RecordResult ctx_done now ?req (sy_sessions s)) = (reply, err)"
      "reply = None \<longleftrightarrow> err \<noteq> None" "err = None \<longleftrightarrow> \<not> ctx_done \<and> client_playerID idx \<notin> dom (Results t)"
      using member_submits [of ?req "sy_sessions s" t ctx_done now] t v sid played(1) by auto
    then have reply: "ce_submit env ?req = (reply, err)" using assms(8) by (simp add: submits_to_def)
    have told: "\<not> (\<forall>resp \<in> set (gw_sent st). gr_Status resp \<noteq> QUEUE_STATUS_IN_GAME)" using resp played(3) by blast
    show ?thesis
    proof (cases err)
      case None
      then obtain x where "reply = Some x" using r(2) by auto
      then have "simulatePlayer idx env c = Ret (add_results (c1\<lparr>cl_submitted := Some ?req\<rparr>))"
        using played(6) reply None by (simp add: submit_result_def Let_def)
      then show ?thesis using None r(3) t sid v(3) told played(7,8)
        by (intro exI [of _ "add_results (c1\<lparr>cl_submitted := Some ?req\<rparr>)"]) (simp add: add_results_def)
    next
      case (Some e)
      then have "simulatePlayer idx env c = Ret (add_failed (c1\<lparr>cl_submitted := Some ?req\<rparr>))"
        using played(6) reply by (cases reply) (simp_all add: submit_result_def Let_def)
      moreover have "ctx_done \<or> client_playerID idx \<in> dom (Results t)" using Some r(3) by blast
      ultimately show ?thesis using t sid v(3) told played(7,8)
        by (intro exI [of _ "add_failed (c1\<lparr>cl_submitted := Some ?req\<rparr>)"]) (simp add: add_failed_def)
    qed
  qed
qed

theorem end_to_end_witness:
  "\<exists>s env c' t req. runs demo_grow insertionSort s \<and> simulatePlayer 0 env new_client = Ret c' \<and> cl_submitted c' = Some req
     \<and> GetSession (sr_SessionId req) (sy_sessions s) = Some t \<and> length (PlayerIDs t) = 10"
proof -
  obtain s n st where s: "runs demo_grow insertionSort s" "sy_streams s n = Some st" "PlayerID (gw_qp st) = client_playerID 0"
    and told: "\<exists>resp \<in> set (gw_sent st). announces resp" by (rule clients_play)
  define env where "env = lucky\<lparr>ce_recv := map (\<lambda>r. (Some r, True)) (gw_sent st),
     ce_submit := (\<lambda>req. snd (SubmitResult RecordResult False 0 req (sy_sessions s)))\<rparr>"
  have recv: "received (ce_recv env) = gw_sent st" by (simp add: env_def received_def comp_def takeWhile_eq_all_conv [THEN iffD2])
  have "connected env" "env_ok env" "delivered env st" "submits_to env False 0 s" "cl_submitted new_client = None" "told_session env"
    using told unfolding told_session_def delivered_def recv
    by (simp_all add: env_def connected_def lucky_def env_ok_def submits_to_def new_client_def all_sent_def)
  from end_to_end [OF match_insertion.match_sort_axioms s this(1-5)] this(6)
  obtain c' req t where c: "simulatePlayer 0 env new_client = Ret c'" "cl_submitted c' = Some req"
    "GetSession (sr_SessionId req) (sy_sessions s) = Some t" "length (PlayerIDs t) = 10"
    by (auto split: option.splits)
  show ?thesis
    by (rule exI [of _ s], rule exI [of _ env], rule exI [of _ c'], rule exI [of _ t], rule exI [of _ req]) (use s(1) c in simp)
qed

end
