(* ===== verification/Nexus_Bots.thy ===== *)
theory Nexus_Bots
  imports Nexus_Client
begin

text \<open>
  The goroutines of \<open>client/main.go\<close>: in every simulated player the main loop runs beside the heartbeat
  goroutine, and the fifty players run beside each other on three shared counters. \<open>Nexus_Client\<close> has
  them one after the other; here every receive, send and submission is a step of its own, and the result
  is shown to be the same in every interleaving.
\<close>

section \<open>One player\<close>

text \<open>
  Where the two goroutines are: a \<open>Send\<close> has a beginning and an end. \<open>bt_heard\<close> keeps what the main loop
  has received, with the success of the acceptance that answered it.
\<close>

datatype bot_pc = Receiving | Accepting GatewayResponse | Submitting string | HungUp | Crashed

datatype beat_pc = Resting | Beating gtime | Silent

record Bot =
  bt_client :: client
  bt_main :: bot_pc
  bt_beat :: beat_pc
  bt_done :: bool
  bt_heard :: "(GatewayResponse option \<times> bool) list"

definition heard :: "GatewayResponse option \<Rightarrow> bool \<Rightarrow> Bot \<Rightarrow> Bot" where
  "heard resp ok b = b\<lparr>bt_heard := bt_heard b @ [(resp, ok)]\<rparr>"

text \<open>The return of \<open>simulatePlayer\<close>: the deferred \<open>cancel\<close> ends the context.\<close>

definition leave_with :: "client \<Rightarrow> Bot \<Rightarrow> Bot" where
  "leave_with c b = b\<lparr>bt_client := c, bt_main := HungUp, bt_done := True\<rparr>"

definition bot_receives :: "GatewayResponse option \<Rightarrow> Bot \<Rightarrow> Bot option" where
  "bot_receives msg b =
     (if bt_main b \<noteq> Receiving then None
      else (case msg of
          None \<Rightarrow> Some (leave_with (add_failed (bt_client b)) (heard msg True b))
        | Some resp \<Rightarrow> Some (
            if gr_Status resp = QUEUE_STATUS_WAITING then heard msg True b
            else if gr_Status resp = QUEUE_STATUS_READY_CHECK then
              (case gr_Match resp of
                 None \<Rightarrow> (heard msg True b)\<lparr>bt_main := Crashed\<rparr>
               | Some _ \<Rightarrow> b\<lparr>bt_main := Accepting resp\<rparr>)
            else if gr_Status resp = QUEUE_STATUS_IN_GAME then
              (case gr_Match resp of
                 None \<Rightarrow> (heard msg True b)\<lparr>bt_main := Crashed\<rparr>
               | Some m \<Rightarrow>
                   if ma_SessionId m \<noteq> []
                   then (heard msg True b)\<lparr>bt_client := add_matched (bt_client b), bt_main := Submitting (ma_SessionId m), bt_done := True\<rparr>
                   else (heard msg True b)\<lparr>bt_client := add_matched (bt_client b)\<rparr>)
            else if gr_Status resp = QUEUE_STATUS_CANCELLED then leave_with (add_failed (bt_client b)) (heard msg True b)
            else heard msg True b)))"

definition bot_accepted :: "nat \<Rightarrow> bool \<Rightarrow> Bot \<Rightarrow> Bot option" where
  "bot_accepted idx ok b = (case bt_main b of
       Accepting resp \<Rightarrow> Some (
         if ok then (heard (Some resp) True b)\<lparr>bt_client := (bt_client b)\<lparr>cl_sent := cl_sent (bt_client b) @ [accept_request idx]\<rparr>,
                                               bt_main := Receiving\<rparr>
         else leave_with (add_failed (bt_client b)) (heard (Some resp) False b))
     | _ \<Rightarrow> None)"

definition bot_submitted :: "nat \<Rightarrow> client_env \<Rightarrow> Bot \<Rightarrow> Bot option" where
  "bot_submitted idx env b = (case bt_main b of
       Submitting sid \<Rightarrow> Some (case submit_result idx env sid (bt_client b) of
           Ret c \<Rightarrow> leave_with c b
         | Panic \<Rightarrow> b\<lparr>bt_main := Crashed\<rparr>)
     | _ \<Rightarrow> None)"

text \<open>The heartbeat goroutine.\<close>

definition beat_ticks :: "gtime \<Rightarrow> Bot \<Rightarrow> Bot option" where
  "beat_ticks now b = (if bt_beat b = Resting then Some (b\<lparr>bt_beat := Beating now\<rparr>) else None)"

definition beat_sent :: "bool \<Rightarrow> Bot \<Rightarrow> Bot option" where
  "beat_sent ok b = (case bt_beat b of
       Beating now \<Rightarrow> Some (
         if ok then b\<lparr>bt_client := (bt_client b)\<lparr>cl_sent := cl_sent (bt_client b) @ [heartbeat_request now]\<rparr>, bt_beat := Resting\<rparr>
         else b\<lparr>bt_beat := Silent\<rparr>)
     | _ \<Rightarrow> None)"

definition beat_stops :: "Bot \<Rightarrow> Bot option" where
  "beat_stops b = (if bt_beat b = Resting \<and> bt_done b then Some (b\<lparr>bt_beat := Silent\<rparr>) else None)"

inductive bot_step :: "nat \<Rightarrow> client_env \<Rightarrow> Bot \<Rightarrow> Bot \<Rightarrow> bool" for idx env where
  receives: "bot_receives msg b = Some b' \<Longrightarrow> bot_step idx env b b'"
| accepted: "bot_accepted idx ok b = Some b' \<Longrightarrow> bot_step idx env b b'"
| submitted: "bot_submitted idx env b = Some b' \<Longrightarrow> bot_step idx env b b'"
| ticks: "beat_ticks now b = Some b' \<Longrightarrow> bot_step idx env b b'"
| sent: "beat_sent ok b = Some b' \<Longrightarrow> bot_step idx env b b'"
| stops: "beat_stops b = Some b' \<Longrightarrow> bot_step idx env b b'"
| expires: "bot_step idx env b (b\<lparr>bt_done := True\<rparr>)"

text \<open>A player starts here when its JoinQueue request has been sent.\<close>

definition bot_start :: "nat \<Rightarrow> client_env \<Rightarrow> client \<Rightarrow> Bot" where
  "bot_start idx env c = \<lparr>bt_client = c\<lparr>cl_sent := cl_sent c @ [join_request idx (ce_mmr env)]\<rparr>, bt_main = Receiving,
     bt_beat = Resting, bt_done = False, bt_heard = []\<rparr>"

section \<open>Heartbeats do not matter\<close>

definition is_beat :: "GatewayRequest \<Rightarrow> bool" where
  "is_beat req \<longleftrightarrow> (\<exists>now. req = heartbeat_request now)"

definition quiet :: "client \<Rightarrow> client" where
  "quiet c = c\<lparr>cl_sent := filter (\<lambda>req. \<not> is_beat req) (cl_sent c)\<rparr>"

lemma quiet_simps [simp]: "cl_stats (quiet c) = cl_stats c" "cl_submitted (quiet c) = cl_submitted c"
  "quiet (add_failed c) = add_failed (quiet c)" "quiet (add_matched c) = add_matched (quiet c)"
  "quiet (add_results c) = add_results (quiet c)"
  "quiet (c\<lparr>cl_sent := cl_sent c @ [heartbeat_request now]\<rparr>) = quiet c"
  "quiet (c\<lparr>cl_sent := cl_sent c @ [accept_request idx]\<rparr>) = (quiet c)\<lparr>cl_sent := cl_sent (quiet c) @ [accept_request idx]\<rparr>"
  by (auto simp: quiet_def counter_defs is_beat_def accept_request_def heartbeat_request_def)

lemma quiet_submit: "submit_result idx env sid (quiet c) = (case submit_result idx env sid c of Ret c' \<Rightarrow> Ret (quiet c') | Panic \<Rightarrow> Panic)"
proof -
  have "quiet (c\<lparr>cl_submitted := x\<rparr>) = (quiet c)\<lparr>cl_submitted := x\<rparr>" for x by (simp add: quiet_def)
  then show ?thesis by (simp add: submit_result_def Let_def split: prod.split option.split)
qed

text \<open>
  What the sequential player makes of the responses so far, and of any that may follow, is where the
  main loop is.
\<close>

definition bot_inv :: "nat \<Rightarrow> client_env \<Rightarrow> client \<Rightarrow> Bot \<Rightarrow> bool" where
  "bot_inv idx env c0 b \<longleftrightarrow> (case bt_main b of
       Receiving \<Rightarrow> \<forall>rs. client_loop idx (bt_heard b @ rs) c0 = client_loop idx rs (quiet (bt_client b))
     | Accepting resp \<Rightarrow> gr_Status resp = QUEUE_STATUS_READY_CHECK \<and> gr_Match resp \<noteq> None
         \<and> (\<forall>rs. client_loop idx (bt_heard b @ rs) c0 = client_loop idx rs (quiet (bt_client b)))
     | Submitting sid \<Rightarrow> sid \<noteq> [] \<and> (\<forall>rs. client_loop idx (bt_heard b @ rs) c0 = LoopDone (quiet (bt_client b)) sid)
     | HungUp \<Rightarrow> \<forall>rs. after_loop idx env (client_loop idx (bt_heard b @ rs) c0) = Ret (quiet (bt_client b))
     | Crashed \<Rightarrow> \<forall>rs. after_loop idx env (client_loop idx (bt_heard b @ rs) c0) = Panic)"

lemma bot_inv_start:
  assumes "\<forall>req \<in> set (cl_sent c). \<not> is_beat req"
  shows "bot_inv idx env (bt_client (bot_start idx env c)) (bot_start idx env c)"
proof -
  have "\<not> is_beat (join_request idx (ce_mmr env))" by (simp add: is_beat_def join_request_def heartbeat_request_def)
  then have "quiet (bt_client (bot_start idx env c)) = bt_client (bot_start idx env c)"
    using assms by (simp add: quiet_def bot_start_def)
  then show ?thesis by (simp add: bot_inv_def) (simp add: bot_start_def)
qed

lemma bot_inv_step:
  assumes inv: "bot_inv idx env c0 b" and step: "bot_step idx env b b'"
  shows "bot_inv idx env c0 b'"
  using step
proof (cases rule: bot_step.cases)
  case (receives msg)
  then have at: "bt_main b = Receiving" by (simp add: bot_receives_def split: if_splits)
  with inv have loop: "client_loop idx (bt_heard b @ rs) c0 = client_loop idx rs (quiet (bt_client b))" for rs
    by (simp add: bot_inv_def)
  show ?thesis
  proof (cases msg)
    case None
    then show ?thesis using receives at loop by (auto simp: bot_receives_def bot_inv_def leave_with_def heard_def)
  next
    case (Some resp)
    then show ?thesis using receives at loop
      by (auto simp: bot_receives_def bot_inv_def leave_with_def heard_def split: if_splits option.splits)
  qed
next
  case (accepted ok)
  then obtain resp where at: "bt_main b = Accepting resp" by (auto simp: bot_accepted_def split: bot_pc.splits)
  then show ?thesis using inv accepted
    by (auto simp: bot_accepted_def bot_inv_def leave_with_def heard_def queue_status_defs split: if_splits)
next
  case submitted
  then obtain sid where at: "bt_main b = Submitting sid" by (auto simp: bot_submitted_def split: bot_pc.splits)
  with inv submitted quiet_submit [of idx env sid "bt_client b"] show ?thesis
    by (auto simp: bot_submitted_def bot_inv_def leave_with_def split: outcome.splits)
next
  case (ticks now)
  then show ?thesis using inv by (auto simp: beat_ticks_def bot_inv_def split: if_splits bot_pc.splits)
next
  case (sent ok)
  then show ?thesis using inv
    by (auto simp: beat_sent_def bot_inv_def split: if_splits beat_pc.splits bot_pc.splits)
next
  case stops
  then show ?thesis using inv by (auto simp: beat_stops_def bot_inv_def split: if_splits bot_pc.splits)
next
  case expires
  then show ?thesis using inv by (auto simp: bot_inv_def split: bot_pc.splits)
qed

definition quiet_env :: "client_env \<Rightarrow> Bot \<Rightarrow> client_env" where
  "quiet_env env b = env\<lparr>ce_recv := bt_heard b, ce_beats := []\<rparr>"

text \<open>The beginning of \<open>simulatePlayer\<close>, before there is a second goroutine.\<close>

definition bot_begin :: "nat \<Rightarrow> client_env \<Rightarrow> client \<Rightarrow> Bot" where
  "bot_begin idx env c = (if connected env then bot_start idx env c else leave_with (add_failed c) (bot_start idx env c))"

definition player_inv :: "nat \<Rightarrow> client_env \<Rightarrow> Bot \<Rightarrow> bool" where
  "player_inv idx env b \<longleftrightarrow>
     (if connected env then bot_inv idx env (bt_client (bot_start idx env new_client)) b
      else bt_main b = HungUp \<and> quiet (bt_client b) = add_failed new_client)"

lemma player_inv_begin: "player_inv idx env (bot_begin idx env new_client)"
  using bot_inv_start [of new_client idx env]
  by (simp add: player_inv_def bot_begin_def new_client_def leave_with_def quiet_def counter_defs)

lemma player_inv_step:
  assumes "player_inv idx env b" "bot_step idx env b b'"
  shows "player_inv idx env b'"
proof (cases "connected env")
  case True
  then show ?thesis using assms bot_inv_step by (simp add: player_inv_def)
next
  case False
  with assms(1) have b: "bt_main b = HungUp" "quiet (bt_client b) = add_failed new_client" by (simp_all add: player_inv_def)
  from assms(2) have "bt_main b' = HungUp \<and> quiet (bt_client b') = quiet (bt_client b)"
    using b(1)
    by (cases rule: bot_step.cases)
      (auto simp: bot_receives_def bot_accepted_def bot_submitted_def beat_ticks_def beat_sent_def beat_stops_def
        split: if_splits beat_pc.splits)
  then show ?thesis using b False by (simp add: player_inv_def)
qed

text \<open>A finished player has done what \<open>simulatePlayer\<close> does on what it has heard.\<close>

lemma player_outcome:
  assumes "player_inv idx env b" "bt_main b = HungUp"
  shows "simulatePlayer idx (quiet_env env b) new_client = Ret (quiet (bt_client b))"
proof (cases "connected env")
  case True
  have sub: "submit_result idx (quiet_env env b) sid c = submit_result idx env sid c" for sid c
    by (simp add: submit_result_def request_of_def quiet_env_def)
  have after: "after_loop idx (quiet_env env b) l = after_loop idx env l" for l
    by (cases l) (simp_all add: sub)
  have "\<forall>rs. after_loop idx env (client_loop idx (bt_heard b @ rs) (bt_client (bot_start idx env new_client))) = Ret (quiet (bt_client b))"
    using assms True by (simp add: player_inv_def bot_inv_def)
  from spec [OF this, of "[]"]
  have "after_loop idx env (client_loop idx (bt_heard b) (bt_client (bot_start idx env new_client))) = Ret (quiet (bt_client b))"
    by simp
  then show ?thesis
    using True by (simp add: simulatePlayer_def connected_def after) (simp add: quiet_env_def bot_start_def)
next
  case False
  then show ?thesis using assms by (auto simp: player_inv_def simulatePlayer_def connected_def quiet_env_def)
qed

section \<open>All players on shared counters\<close>

text \<open>
  \<open>bs_stats\<close> are the three atomic counters. The counters in a player's own record say what it has added to
  them.
\<close>

definition plus_stats :: "stats \<Rightarrow> stats \<Rightarrow> stats" where
  "plus_stats x y = \<lparr>matched = matched x + matched y, failed = failed x + failed y, results = results x + results y\<rparr>"

definition minus_stats :: "stats \<Rightarrow> stats \<Rightarrow> stats" where
  "minus_stats x y = \<lparr>matched = matched x - matched y, failed = failed x - failed y, results = results x - results y\<rparr>"

record Bots =
  bs_stats :: stats
  bs_bots :: "nat \<rightharpoonup> Bot"

abbreviation own_stats :: "Bot \<Rightarrow> stats" where
  "own_stats b \<equiv> cl_stats (bt_client b)"

definition bots_start :: Bots where
  "bots_start = \<lparr>bs_stats = cl_stats new_client, bs_bots = Map.empty\<rparr>"

inductive bots_step :: "(nat \<Rightarrow> client_env) \<Rightarrow> Bots \<Rightarrow> Bots \<Rightarrow> bool" for envs where
  spawns: "idx < numPlayers \<Longrightarrow> \<forall>i < idx. bs_bots B i \<noteq> None \<Longrightarrow> bs_bots B idx = None \<Longrightarrow> b = bot_begin idx (envs idx) new_client
     \<Longrightarrow> bots_step envs B (B\<lparr>bs_stats := plus_stats (bs_stats B) (own_stats b), bs_bots := (bs_bots B)(idx \<mapsto> b)\<rparr>)"
| moves: "bs_bots B idx = Some b \<Longrightarrow> bot_step idx (envs idx) b b'
     \<Longrightarrow> bots_step envs B (B\<lparr>bs_stats := plus_stats (bs_stats B) (minus_stats (own_stats b') (own_stats b)),
           bs_bots := (bs_bots B)(idx \<mapsto> b')\<rparr>)"

definition share :: "(stats \<Rightarrow> i64) \<Rightarrow> Bots \<Rightarrow> nat \<Rightarrow> i64" where
  "share f B i = (case bs_bots B i of None \<Rightarrow> 0 | Some b \<Rightarrow> f (own_stats b))"

definition bots_inv :: "(nat \<Rightarrow> client_env) \<Rightarrow> Bots \<Rightarrow> bool" where
  "bots_inv envs B \<longleftrightarrow> (\<forall>i b. bs_bots B i = Some b \<longrightarrow> i < numPlayers \<and> player_inv i (envs i) b)
     \<and> (\<forall>f \<in> {matched, failed, results}. f (bs_stats B) = (\<Sum>i<numPlayers. share f B i))"

lemma share_upd:
  assumes "idx < n"
  shows "(\<Sum>i<n. share f (B\<lparr>bs_stats := x, bs_bots := (bs_bots B)(idx \<mapsto> b)\<rparr>) i) =
    (\<Sum>i<n. share f B i) - share f B idx + f (own_stats b)"
proof -
  have split: "(\<Sum>i<n. g i) = g idx + (\<Sum>i \<in> {..<n} - {idx}. g i)" for g :: "nat \<Rightarrow> i64"
    using assms by (intro sum.remove) auto
  have "(\<Sum>i \<in> {..<n} - {idx}. share f (B\<lparr>bs_stats := x, bs_bots := (bs_bots B)(idx \<mapsto> b)\<rparr>) i)
      = (\<Sum>i \<in> {..<n} - {idx}. share f B i)"
    by (intro sum.cong) (auto simp: share_def)
  then show ?thesis
    unfolding split [of "share f B"] split [of "share f (B\<lparr>bs_stats := x, bs_bots := (bs_bots B)(idx \<mapsto> b)\<rparr>)"]
    by (simp add: share_def)
qed

lemma bots_inv_step:
  assumes inv: "bots_inv envs B" and step: "bots_step envs B B'"
  shows "bots_inv envs B'"
  using step
proof (cases rule: bots_step.cases)
  case (spawns idx b)
  then have p: "player_inv idx (envs idx) b" using player_inv_begin by simp
  have none: "share f B idx = 0" for f using spawns by (simp add: share_def)
  have "f (bs_stats B') = (\<Sum>i<numPlayers. share f B' i)" if "f \<in> {matched, failed, results}" for f
    using inv that none [of f] unfolding spawns(1) share_upd [OF spawns(2)] by (auto simp: bots_inv_def plus_stats_def)
  then show ?thesis using inv p spawns(1,2) by (simp add: bots_inv_def)
next
  case (moves idx b b')
  then have i: "idx < numPlayers" and "player_inv idx (envs idx) b" using inv by (simp_all add: bots_inv_def)
  from player_inv_step [OF this(2) moves(3)] have p: "player_inv idx (envs idx) b'" .
  have old: "share f B idx = f (own_stats b)" for f using moves by (simp add: share_def)
  have "f (bs_stats B') = (\<Sum>i<numPlayers. share f B' i)" if "f \<in> {matched, failed, results}" for f
    using inv that old [of f] unfolding moves(1) share_upd [OF i] by (auto simp: bots_inv_def plus_stats_def minus_stats_def)
  then show ?thesis using inv p i moves(1) by (simp add: bots_inv_def)
qed

interpretation players_machine: inductive_invariant "\<lambda>B. B = bots_start" "bots_step envs" "bots_inv envs" for envs
proof unfold_locales
  show "bots_inv envs B" if "B = bots_start" for B
    using that by (simp add: bots_inv_def bots_start_def share_def new_client_def)
qed (rule bots_inv_step)

section \<open>One after the other\<close>

text \<open>The sequential simulation only adds to the counters it starts from.\<close>

definition shift :: "stats \<Rightarrow> client \<Rightarrow> client" where
  "shift d c = c\<lparr>cl_stats := plus_stats d (cl_stats c)\<rparr>"

lemma shift_adds: "shift d (add_matched c) = add_matched (shift d c)" "shift d (add_failed c) = add_failed (shift d c)"
  "shift d (add_results c) = add_results (shift d c)" "shift d (c\<lparr>cl_sent := x\<rparr>) = (shift d c)\<lparr>cl_sent := x\<rparr>"
  "shift d (c\<lparr>cl_submitted := y\<rparr>) = (shift d c)\<lparr>cl_submitted := y\<rparr>"
  by (simp_all add: shift_def counter_defs plus_stats_def)

lemma shift_keeps [simp]: "cl_sent (shift d c) = cl_sent c" "cl_submitted (shift d c) = cl_submitted c"
  by (simp_all add: shift_def)

fun shift_end :: "stats \<Rightarrow> loop_end \<Rightarrow> loop_end" where
  "shift_end d (LoopDone c sid) = LoopDone (shift d c) sid"
| "shift_end d (LoopReturned c) = LoopReturned (shift d c)"
| "shift_end d LoopPanic = LoopPanic"

lemma client_loop_shift: "client_loop idx rs (shift d c) = shift_end d (client_loop idx rs c)"
  by (induction idx rs c rule: client_loop.induct) (simp_all add: shift_adds [symmetric] split: option.split)

lemma heartbeats_shift: "heartbeats beats (shift d c) = shift d (heartbeats beats c)"
  by (induction beats c rule: heartbeats.induct) (simp_all add: shift_adds)

lemma after_loop_shift: "after_loop idx env (shift_end d l) = ret_bind (after_loop idx env l) (\<lambda>c. Ret (shift d c))"
  by (cases l) (simp_all add: submit_result_def Let_def shift_adds split: prod.split option.split)

lemma simulatePlayer_shift:
  "simulatePlayer idx env (shift d c) = ret_bind (simulatePlayer idx env c) (\<lambda>c. Ret (shift d c))"
  by (simp add: simulatePlayer_def shift_adds [symmetric] heartbeats_shift client_loop_shift after_loop_shift)

lemma fresh_shift: "\<lparr>cl_stats = st, cl_sent = [], cl_submitted = None\<rparr> = shift st new_client"
  by (cases st) (simp add: shift_def new_client_def plus_stats_def)

lemma run_players_sum:
  assumes "\<And>i. i < length envs \<Longrightarrow> simulatePlayer (k + i) (envs ! i) new_client = Ret (cs i)"
  shows "\<exists>st'. run_players k envs st = Ret st' \<and> (\<forall>f \<in> {matched, failed, results}. f st' = f st + (\<Sum>i<length envs. f (cl_stats (cs i))))"
  using assms
proof (induction envs arbitrary: k cs st)
  case (Cons env envs)
  have first: "simulatePlayer k env new_client = Ret (cs 0)" using Cons.prems [of 0] by simp
  let ?st = "plus_stats st (cl_stats (cs 0))"
  obtain st' where st': "run_players (Suc k) envs ?st = Ret st'"
    "\<forall>f \<in> {matched, failed, results}. f st' = f ?st + (\<Sum>i<length envs. f (cl_stats (cs (Suc i))))"
    using Cons.IH [of "Suc k" "\<lambda>i. cs (Suc i)" ?st] Cons.prems [of "Suc i" for i] by auto
  have "run_players k (env # envs) st = Ret st'"
    using first st'(1) by (simp add: fresh_shift simulatePlayer_shift) (simp add: shift_def)
  then show ?case using st'(2) by (auto simp: plus_stats_def sum.lessThan_Suc_shift simp del: sum.lessThan_Suc)
qed simp

section \<open>A run to the end\<close>

lemma bots_lift:
  assumes "(bot_step idx (envs idx))\<^sup>*\<^sup>* b b'" "bs_bots B idx = Some b"
  shows "\<exists>B'. (bots_step envs)\<^sup>*\<^sup>* B B' \<and> bs_bots B' = (bs_bots B)(idx \<mapsto> b')"
  using assms(1)
proof (induction rule: rtranclp_induct)
  case base
  then show ?case using fun_upd_idem [of "bs_bots B" idx "Some b"] assms(2) by (intro exI [of _ B]) simp
next
  case (step b' b'')
  then obtain B' where B': "(bots_step envs)\<^sup>*\<^sup>* B B'" "bs_bots B' = (bs_bots B)(idx \<mapsto> b')" by blast
  then have "bs_bots B' idx = Some b'" by simp
  from rtranclp.rtrancl_into_rtrancl [OF B'(1) bots_step.moves [where envs = envs, OF this step.hyps(2)]] B'(2) show ?case
    by (intro exI) (rule conjI, assumption, simp)
qed

text \<open>If every player can come to its end by itself, they can all come to it in one run.\<close>

lemma all_finish:
  assumes "\<And>i. i < k \<Longrightarrow> \<exists>b. (bot_step i (envs i))\<^sup>*\<^sup>* (bot_begin i (envs i) new_client) b \<and> bt_main b = HungUp" "k \<le> numPlayers"
  shows "\<exists>B. reachable (\<lambda>B. B = bots_start) (bots_step envs) B
    \<and> (\<forall>i < k. \<exists>b. bs_bots B i = Some b \<and> bt_main b = HungUp) \<and> (\<forall>i \<ge> k. bs_bots B i = None)"
  using assms
proof (induction k)
  case 0
  have "reachable (\<lambda>B. B = bots_start) (bots_step envs) bots_start" by (rule reachable.start) simp
  then show ?case by (auto simp: bots_start_def)
next
  case (Suc k)
  obtain B where B: "reachable (\<lambda>B. B = bots_start) (bots_step envs) B"
    "\<forall>i < k. \<exists>b. bs_bots B i = Some b \<and> bt_main b = HungUp" "\<forall>i \<ge> k. bs_bots B i = None"
    using Suc.IH Suc.prems by fastforce
  obtain b where b: "(bot_step k (envs k))\<^sup>*\<^sup>* (bot_begin k (envs k) new_client) b" "bt_main b = HungUp"
    using Suc.prems(1) by blast
  let ?b = "bot_begin k (envs k) new_client"
  define B1 where "B1 = B\<lparr>bs_stats := plus_stats (bs_stats B) (own_stats ?b), bs_bots := (bs_bots B)(k \<mapsto> ?b)\<rparr>"
  have "k < numPlayers" "\<forall>i < k. bs_bots B i \<noteq> None" "bs_bots B k = None" using Suc.prems(2) B(2,3) by force+
  from reachable.move [OF B(1) bots_step.spawns [OF this refl]]
  have "reachable (\<lambda>B. B = bots_start) (bots_step envs) B1" by (simp only: B1_def)
  moreover have "bs_bots B1 k = Some ?b" by (simp add: B1_def)
  from bots_lift [where envs = envs, OF b(1) this] obtain B2 where B2: "(bots_step envs)\<^sup>*\<^sup>* B1 B2" "bs_bots B2 = (bs_bots B1)(k \<mapsto> b)" by blast
  ultimately have "reachable (\<lambda>B. B = bots_start) (bots_step envs) B2" by (blast intro: reachable_steps)
  moreover have "\<forall>i < Suc k. \<exists>b. bs_bots B2 i = Some b \<and> bt_main b = HungUp"
    using B(2) b(2) B2(2) by (auto simp: B1_def less_Suc_eq)
  moreover have "\<forall>i \<ge> Suc k. bs_bots B2 i = None" using B(3) B2(2) by (simp add: B1_def)
  ultimately show ?case by blast
qed

lemma lucky_finishes:
  "\<exists>b. (bot_step idx lucky)\<^sup>*\<^sup>* (bot_begin idx lucky new_client) b \<and> bt_main b = HungUp"
proof -
  let ?c = "bt_client (bot_start idx lucky new_client)" and ?w = "joined_response 1"
  let ?r = "check_response 2 ann_event" and ?g = "game_response 3 ann_event"
  define b0 where "b0 = bot_begin idx lucky new_client"
  define b1 where "b1 = heard (Some ?w) True b0"
  define b2 where "b2 = b1\<lparr>bt_main := Accepting ?r\<rparr>"
  define b3 where "b3 = (heard (Some ?r) True b2)\<lparr>bt_client := (bt_client b2)\<lparr>cl_sent := cl_sent (bt_client b2) @ [accept_request idx]\<rparr>,
    bt_main := Receiving\<rparr>"
  define b4 where "b4 = (heard (Some ?g) True b3)\<lparr>bt_client := add_matched (bt_client b3), bt_main := Submitting (evt_SessionID ann_event),
    bt_done := True\<rparr>"
  have at: "bt_main b0 = Receiving" "bt_main b1 = Receiving" "bt_main b2 = Accepting ?r" "bt_main b3 = Receiving"
    by (simp_all add: b0_def b1_def b2_def b3_def bot_begin_def bot_start_def heard_def connected_def lucky_def)
  have "bot_receives (Some ?w) b0 = Some b1" using at by (simp add: bot_receives_def response_defs b1_def)
  then have 1: "bot_step idx lucky b0 b1" by (rule bot_step.receives)
  have "bot_receives (Some ?r) b1 = Some b2" using at by (simp add: bot_receives_def response_defs b2_def)
  then have 2: "bot_step idx lucky b1 b2" by (rule bot_step.receives)
  have "bot_accepted idx True b2 = Some b3" using at by (simp add: bot_accepted_def b3_def)
  then have 3: "bot_step idx lucky b2 b3" by (rule bot_step.accepted)
  have "bot_receives (Some ?g) b3 = Some b4" using at by (simp add: bot_receives_def response_defs b4_def assignment_def ann_event_def)
  then have 4: "bot_step idx lucky b3 b4" by (rule bot_step.receives)
  have "\<exists>b5. bot_submitted idx lucky b4 = Some b5 \<and> bt_main b5 = HungUp"
    by (simp add: bot_submitted_def b4_def submit_result_def lucky_def reply_ok_def leave_with_def Let_def)
  then obtain b5 where b5: "bot_submitted idx lucky b4 = Some b5" "bt_main b5 = HungUp" by blast
  have "(bot_step idx lucky)\<^sup>*\<^sup>* b0 b5"
    using 1 2 3 4 bot_step.submitted [OF b5(1)] by (meson converse_rtranclp_into_rtranclp rtranclp.rtrancl_refl)
  then show ?thesis using b5(2) by (auto simp: b0_def)
qed

lemma lucky_run:
  obtains B where "reachable (\<lambda>B. B = bots_start) (bots_step (\<lambda>_. lucky)) B"
    "\<forall>i < numPlayers. \<exists>b. bs_bots B i = Some b \<and> bt_main b = HungUp"
  using all_finish [of numPlayers "\<lambda>_. lucky"] lucky_finishes by blast

section \<open>Properties\<close>

text \<open>C20: however the goroutines of the client interleave, when all fifty players have finished, the three
  shared counters are exactly those of the sequential simulation on what each player has heard, heartbeats
  left out; in particular failures and results add up to fifty.\<close>

theorem simulation_interleaved:
  assumes "reachable (\<lambda>B. B = bots_start) (bots_step envs) B" "\<forall>i < numPlayers. \<exists>b. bs_bots B i = Some b \<and> bt_main b = HungUp"
  shows "simulation (map (\<lambda>i. quiet_env (envs i) (the (bs_bots B i))) [0..<numPlayers]) = Ret (bs_stats B)
    \<and> failed (bs_stats B) + results (bs_stats B) = 50"
proof -
  let ?es = "map (\<lambda>i. quiet_env (envs i) (the (bs_bots B i))) [0..<numPlayers]"
  have inv: "bots_inv envs B" by (rule players_machine.reachable_inv [OF assms(1)])
  have "simulatePlayer (0 + i) (?es ! i) new_client = Ret (quiet (bt_client (the (bs_bots B i))))" if "i < length ?es" for i
  proof -
    have i: "i < numPlayers" using that by simp
    obtain b where b: "bs_bots B i = Some b" "bt_main b = HungUp" using assms(2) i by blast
    then show ?thesis using player_outcome [of i "envs i" b] inv i by (simp add: bots_inv_def)
  qed
  from run_players_sum [OF this, where st = "\<lparr>matched = 0, failed = 0, results = 0\<rparr>"]
  obtain st where st: "run_players 0 ?es \<lparr>matched = 0, failed = 0, results = 0\<rparr> = Ret st"
    "\<forall>f \<in> {matched, failed, results}. f st = f \<lparr>matched = 0, failed = 0, results = 0\<rparr> + (\<Sum>i<length ?es. f (own_stats (the (bs_bots B i))))"
    by auto
  have "(\<Sum>i<numPlayers. share f B i) = (\<Sum>i<numPlayers. f (own_stats (the (bs_bots B i))))" for f
    using assms(2) by (intro sum.cong) (auto simp: share_def)
  then have "matched st = matched (bs_stats B)" "failed st = failed (bs_stats B)" "results st = results (bs_stats B)"
    using inv st(2) by (simp_all add: bots_inv_def)
  then have "st = bs_stats B" by simp
  then have sim: "simulation ?es = Ret (bs_stats B)" using st(1) by (simp add: simulation_def)
  have "failed (bs_stats B) + results (bs_stats B) = word_of_nat numPlayers"
    by (rule simulation_adds_up [OF sim]) simp
  then show ?thesis using sim by (simp add: numPlayers_def)
qed

theorem simulation_interleaved_witness:
  "\<exists>B. reachable (\<lambda>B. B = bots_start) (bots_step (\<lambda>_. lucky)) B \<and> failed (bs_stats B) + results (bs_stats B) = 50"
proof (rule lucky_run)
  fix B
  assume B: "reachable (\<lambda>B. B = bots_start) (bots_step (\<lambda>_. lucky)) B"
    "\<forall>i < numPlayers. \<exists>b. bs_bots B i = Some b \<and> bt_main b = HungUp"
  from simulation_interleaved [OF B] B(1) show ?thesis by blast
qed

text \<open>The heartbeat goroutine and the main loop can be inside \<open>Send\<close> on the same stream at the same time,
  which grpc forbids.\<close>

theorem sends_overlap:
  "\<exists>b resp now. reachable (\<lambda>b. b = bot_start 7 lucky new_client) (bot_step 7 lucky) b
     \<and> bt_main b = Accepting resp \<and> bt_beat b = Beating now"
proof -
  let ?r = "reachable (\<lambda>b. b = bot_start 7 lucky new_client) (bot_step 7 lucky)"
  let ?b0 = "bot_start 7 lucky new_client" and ?resp = "check_response 2 ann_event"
  have r0: "?r ?b0" by (rule reachable.start) simp
  have "bot_receives (Some ?resp) ?b0 = Some (?b0\<lparr>bt_main := Accepting ?resp\<rparr>)"
    by (simp add: bot_receives_def bot_start_def response_defs)
  from reachable.move [OF r0 bot_step.receives [OF this]] have r1: "?r (?b0\<lparr>bt_main := Accepting ?resp\<rparr>)" .
  have "beat_ticks 3 (?b0\<lparr>bt_main := Accepting ?resp\<rparr>) = Some (?b0\<lparr>bt_main := Accepting ?resp, bt_beat := Beating 3\<rparr>)"
    by (simp add: beat_ticks_def bot_start_def)
  from reachable.move [OF r1 bot_step.ticks [OF this]] show ?thesis
    by (intro exI [of _ "?b0\<lparr>bt_main := Accepting ?resp, bt_beat := Beating 3\<rparr>"] exI [of _ ?resp] exI [of _ 3]) simp
qed

end
