(* ===== verification/Nexus_Worker.thy ===== *)
theory Nexus_Worker
  imports Nexus_Matchmaker
begin

text \<open>
  The life of the worker in \<open>internal/services/matchmaker.go\<close>, from \<open>StartWorker\<close> in \<open>main\<close> to the end of
  \<open>StopWorker\<close>: the wait group over the worker and the coordinators, next to \<open>ForceMatch\<close> calls, to
  coordinators that end, and to everything else that changes pool, store and channels. A tick is one
  step here.
\<close>

section \<open>State\<close>

datatype worker_pc = Polling | Gone

text \<open>
  \<open>lt_wg\<close> is the counter of the wait group, \<open>lt_ended\<close> counts the coordinators that have run their
  deferred \<open>Done\<close>, \<open>lt_waiting\<close> the calls of \<open>StopWorker\<close> that are inside \<open>Wait\<close>.
\<close>

record Lifetime =
  lt_srv :: MatchmakerServer
  lt_wg :: int
  lt_worker :: worker_pc
  lt_ended :: nat
  lt_waiting :: nat

definition StartWorker :: "MatchmakerServer \<Rightarrow> Lifetime" where
  "StartWorker srv = \<lparr>lt_srv = srv, lt_wg = 0 + 1, lt_worker = Polling, lt_ended = 0, lt_waiting = 0\<rparr>"

definition started_server :: Lifetime where
  "started_server = StartWorker (NewMatchmakerServer NewPool NewSessionStore)"

section \<open>Operations\<close>

definition wg_add :: "nat \<Rightarrow> Lifetime \<Rightarrow> Lifetime" where
  "wg_add n lt = lt\<lparr>lt_wg := lt_wg lt + int n\<rparr>"

text \<open>\<open>Done\<close> panics when it makes the counter negative.\<close>

definition wg_done :: "Lifetime \<Rightarrow> Lifetime outcome" where
  "wg_done lt = (if lt_wg lt - 1 < 0 then Panic else Ret (lt\<lparr>lt_wg := lt_wg lt - 1\<rparr>))"

text \<open>A tick adds one to the wait group for every coordinator it launches.\<close>

definition ticked :: "MatchmakerServer \<Rightarrow> Lifetime \<Rightarrow> Lifetime" where
  "ticked srv lt = wg_add (length (coordinators srv) - length (coordinators (lt_srv lt))) (lt\<lparr>lt_srv := srv\<rparr>)"

definition worker_turn :: "match_sorter \<Rightarrow> worker_case \<Rightarrow> Lifetime \<Rightarrow> Lifetime outcome option" where
  "worker_turn srt c lt =
     (if lt_worker lt = Gone then None
      else (case worker_select srt c (lt_srv lt) of
          None \<Rightarrow> None
        | Some Crashed \<Rightarrow> Some Panic
        | Some (Running srv) \<Rightarrow> Some (Ret (ticked srv lt))
        | Some (Exited srv) \<Rightarrow> Some (wg_done (lt\<lparr>lt_srv := srv, lt_worker := Gone\<rparr>))))"

definition forced :: "match_sorter \<Rightarrow> (nat \<Rightarrow> tick_env) \<Rightarrow> Lifetime \<Rightarrow> Lifetime outcome option" where
  "forced srt env lt = (case ForceMatch srt env (lt_srv lt) of
       None \<Rightarrow> None
     | Some Panic \<Rightarrow> Some Panic
     | Some (Ret (srv, reply)) \<Rightarrow> Some (Ret (ticked srv lt)))"

definition coordinator_ends :: "Lifetime \<Rightarrow> Lifetime outcome option" where
  "coordinator_ends lt =
     (if lt_ended lt < length (coordinators (lt_srv lt)) then Some (wg_done (lt\<lparr>lt_ended := Suc (lt_ended lt)\<rparr>)) else None)"

text \<open>\<open>StopWorker\<close>: the first call closes \<open>stopCh\<close> and waits, every other one returns at once.\<close>

definition stop_call :: "Lifetime \<Rightarrow> Lifetime" where
  "stop_call lt = (case StopWorker (lt_srv lt) of
       (srv, waits) \<Rightarrow> lt\<lparr>lt_srv := srv, lt_waiting := lt_waiting lt + (if waits then 1 else 0)\<rparr>)"

definition stop_return :: "Lifetime \<Rightarrow> Lifetime option" where
  "stop_return lt = (if 0 < lt_waiting lt \<and> lt_wg lt = 0 then Some (lt\<lparr>lt_waiting := lt_waiting lt - 1\<rparr>) else None)"

inductive life_step :: "match_sorter \<Rightarrow> Lifetime \<Rightarrow> Lifetime \<Rightarrow> bool" for srt where
  works: "worker_turn srt c lt = Some (Ret lt') \<Longrightarrow> life_step srt lt lt'"
| forces: "forced srt env lt = Some (Ret lt') \<Longrightarrow> life_step srt lt lt'"
| ends: "coordinator_ends lt = Some (Ret lt') \<Longrightarrow> life_step srt lt lt'"
| calls: "life_step srt lt (stop_call lt)"
| returns: "stop_return lt = Some lt' \<Longrightarrow> life_step srt lt lt'"
| others: "life_step srt lt (lt\<lparr>lt_srv := (lt_srv lt)\<lparr>srv_pool := p, srv_sessions := ss, srv_bools := B\<rparr>\<rparr>)"

inductive_cases life_stepE: "life_step srt lt lt'"

section \<open>What the counter counts\<close>

text \<open>A tick only adds coordinators, and leaves \<open>stopCh\<close> alone.\<close>

definition adds :: "MatchmakerServer \<Rightarrow> MatchmakerServer outcome \<Rightarrow> bool" where
  "adds srv out \<longleftrightarrow> (\<forall>srv'. out = Ret srv' \<longrightarrow> (\<exists>rooms. coordinators srv' = coordinators srv @ rooms)
     \<and> stop_closed srv' = stop_closed srv)"

lemma start_adds: "adds srv (start_ready_check sid now qs (srv\<lparr>srv_pool := p\<rparr>))"
  by (auto simp: adds_def start_ready_check_def Let_def split: prod.splits)

lemma adds_trans: "adds srv (Ret srv1) \<Longrightarrow> adds srv1 out \<Longrightarrow> adds srv out"
  by (fastforce simp: adds_def)

lemma tick_adds: "tick srt env n srv = Some out \<Longrightarrow> adds srv out"
proof (rule tick.raw_induct [where P = "\<lambda>srt env n srv out. adds srv out"])
  fix f srt env n srv out
  assume IH: "\<And>srt env n srv out. f srt env n srv = Some out \<Longrightarrow> adds srv out"
    and run: "(case ExtractMatch srt (te_keys (env n)) (te_extract (env n)) (srv_pool srv) of
        (p, None) \<Rightarrow> Some (Ret (srv\<lparr>srv_pool := p\<rparr>))
      | (p, Some qs) \<Rightarrow> (case start_ready_check (te_uuid (env n)) (te_now (env n)) qs (srv\<lparr>srv_pool := p\<rparr>) of
             Ret srv' \<Rightarrow> f srt env (Suc n) srv' | Panic \<Rightarrow> Some Panic)) = Some out"
  show "adds srv out"
  proof (cases "ExtractMatch srt (te_keys (env n)) (te_extract (env n)) (srv_pool srv)")
    case (Pair p sel)
    show ?thesis
    proof (cases sel)
      case None
      then show ?thesis using run Pair by (auto simp: adds_def)
    next
      case (Some qs)
      show ?thesis
      proof (cases "start_ready_check (te_uuid (env n)) (te_now (env n)) qs (srv\<lparr>srv_pool := p\<rparr>)")
        case (Ret srv1)
        then have "f srt env (Suc n) srv1 = Some out" using run Pair Some by simp
        moreover have "adds srv (Ret srv1)" using start_adds Ret by metis
        ultimately show ?thesis using IH adds_trans by blast
      qed (use run Pair Some in \<open>simp add: adds_def\<close>)
    qed
  qed
qed

definition wg_ok :: "Lifetime \<Rightarrow> bool" where
  "wg_ok lt \<longleftrightarrow> lt_ended lt \<le> length (coordinators (lt_srv lt))
     \<and> lt_wg lt = (if lt_worker lt = Polling then 1 else 0) + int (length (coordinators (lt_srv lt)) - lt_ended lt)
     \<and> lt_waiting lt \<le> (if stop_closed (lt_srv lt) then 1 else 0)
     \<and> (lt_worker lt = Gone \<longrightarrow> stop_closed (lt_srv lt))"

lemma wg_ticked:
  assumes "wg_ok lt" "adds (lt_srv lt) (Ret srv)"
  shows "wg_ok (ticked srv lt)"
  using assms by (auto simp: wg_ok_def adds_def ticked_def wg_add_def)

lemma worker_turn_cases:
  assumes "worker_turn srt c lt = Some (Ret lt')"
  obtains env srv where "c = Ticked env" "tick srt env 0 (lt_srv lt) = Some (Ret srv)" "lt' = ticked srv lt" "lt_worker lt = Polling"
  | "c = StopSeen" "stop_closed (lt_srv lt)" "0 < lt_wg lt" "lt' = lt\<lparr>lt_worker := Gone, lt_wg := lt_wg lt - 1\<rparr>"
    "lt_worker lt = Polling"
proof -
  have at: "lt_worker lt = Polling" using assms by (cases "lt_worker lt") (simp_all add: worker_turn_def)
  show thesis
    using assms at that by (cases c) (auto simp: worker_turn_def wg_done_def split: if_splits option.splits outcome.splits)
qed

lemma wg_ok_step:
  assumes ok: "wg_ok lt" and step: "life_step srt lt lt'"
  shows "wg_ok lt'"
  using step
proof (cases rule: life_step.cases)
  case (works c)
  then show ?thesis
  proof (cases rule: worker_turn_cases)
    case (1 env srv)
    then show ?thesis using wg_ticked [OF ok] tick_adds by metis
  next
    case 2
    then show ?thesis using ok by (auto simp: wg_ok_def)
  qed
next
  case (forces env)
  then obtain srv where "tick srt env 0 (lt_srv lt) = Some (Ret srv)" "lt' = ticked srv lt"
    by (auto simp: forced_def ForceMatch_def Let_def split: option.splits outcome.splits)
  then show ?thesis using wg_ticked [OF ok] tick_adds by metis
next
  case ends
  then show ?thesis using ok by (auto simp: coordinator_ends_def wg_done_def wg_ok_def split: if_splits)
next
  case calls
  then show ?thesis using ok by (auto simp: stop_call_def StopWorker_def wg_ok_def)
next
  case returns
  then show ?thesis using ok by (auto simp: stop_return_def wg_ok_def split: if_splits)
next
  case (others p ss B)
  then show ?thesis using ok by (simp add: wg_ok_def)
qed

definition life_init :: "Lifetime \<Rightarrow> bool" where
  "life_init lt \<longleftrightarrow> lt = started_server"

interpretation lifetime: inductive_invariant life_init "life_step srt" wg_ok for srt
proof unfold_locales
  show "wg_ok lt" if "life_init lt" for lt
    using that by (simp add: life_init_def started_server_def StartWorker_def NewMatchmakerServer_def wg_ok_def)
qed (rule wg_ok_step)

section \<open>Properties\<close>

text \<open>The wait group counts what it is meant to count, whatever else goes on: no \<open>Done\<close> of the worker or of
  a coordinator panics, and the one call of \<open>StopWorker\<close> that can be waiting is let through exactly when
  the worker is gone and every coordinator has ended; after \<open>stopCh\<close> is closed the worker can leave, and
  once it has left it never ticks again.\<close>

theorem worker_shutdown:
  assumes "reachable life_init (life_step srt) lt"
  shows "(stop_return lt \<noteq> None \<longleftrightarrow> 0 < lt_waiting lt \<and> lt_worker lt = Gone
       \<and> lt_ended lt = length (coordinators (lt_srv lt)))
    \<and> lt_waiting lt \<le> 1 \<and> coordinator_ends lt \<noteq> Some Panic \<and> worker_turn srt StopSeen lt \<noteq> Some Panic
    \<and> (stop_closed (lt_srv lt) \<and> lt_worker lt = Polling \<longrightarrow>
         (\<exists>lt'. worker_turn srt StopSeen lt = Some (Ret lt') \<and> lt_worker lt' = Gone))
    \<and> (lt_worker lt = Gone \<longrightarrow> worker_turn srt c lt = None)"
proof -
  have ok: "wg_ok lt" by (rule lifetime.reachable_inv [OF assms])
  show ?thesis
  proof (intro conjI)
    show "stop_return lt \<noteq> None \<longleftrightarrow> 0 < lt_waiting lt \<and> lt_worker lt = Gone \<and> lt_ended lt = length (coordinators (lt_srv lt))"
      using ok by (cases "lt_worker lt") (auto simp: stop_return_def wg_ok_def)
    show "lt_waiting lt \<le> 1" using ok by (auto simp: wg_ok_def split: if_splits)
    show "coordinator_ends lt \<noteq> Some Panic" using ok by (auto simp: coordinator_ends_def wg_done_def wg_ok_def)
    show "worker_turn srt StopSeen lt \<noteq> Some Panic"
      using ok by (cases "lt_worker lt") (auto simp: worker_turn_def wg_done_def wg_ok_def)
    show "stop_closed (lt_srv lt) \<and> lt_worker lt = Polling \<longrightarrow>
         (\<exists>lt'. worker_turn srt StopSeen lt = Some (Ret lt') \<and> lt_worker lt' = Gone)"
      using ok by (auto simp: worker_turn_def wg_done_def wg_ok_def)
    show "lt_worker lt = Gone \<longrightarrow> worker_turn srt c lt = None" by (simp add: worker_turn_def)
  qed
qed

theorem worker_shutdown_witness:
  "worker_turn insertionSort StopSeen (stop_call started_server) \<noteq> Some Panic \<and> lt_waiting (stop_call started_server) = 1
     \<and> stop_return (stop_call started_server) = None"
proof -
  have "reachable life_init (life_step insertionSort) (stop_call started_server)"
  proof (rule reachable.move)
    show "reachable life_init (life_step insertionSort) started_server" by (rule reachable.start) (simp add: life_init_def)
  qed (rule life_step.calls)
  moreover have "lt_waiting (stop_call started_server) = 1" "lt_worker (stop_call started_server) = Polling"
    by (simp_all add: stop_call_def StopWorker_def started_server_def StartWorker_def NewMatchmakerServer_def)
  ultimately show ?thesis using worker_shutdown by fastforce
qed

end
