(* ===== verification/Nexus_Main.thy ===== *)
theory Nexus_Main
  imports Nexus_Worker
begin

text \<open>
  The process of \<open>cmd/server/main.go\<close>, from the start of the worker to the exit code: the main goroutine
  in \<open>Listen\<close> and \<open>Serve\<close>, the goroutine that waits for a signal and shuts down, and next to them the
  worker, the coordinators and the RPCs. The grpc server appears by what its documentation says: \<open>Serve\<close>
  returns an error unless \<open>GracefulStop\<close> has been called; from that call on no RPC starts, and it returns
  when none is left. Whether \<open>Serve\<close> waits for that, too, is the parameter \<open>waits\<close>. A signal before
  \<open>signal.Notify\<close> ends the process at once and is not a step.
\<close>

section \<open>State\<close>

datatype main_pc = Listening | Serving | Exited int

datatype shutdown_pc = Unstarted | AwaitingSignal | Stopping | Draining | Drained

record Process =
  pr_life :: Lifetime
  pr_main :: main_pc
  pr_shutdown :: shutdown_pc
  pr_sigCh :: "unit chans"
  pr_rpcs :: nat

definition main_start :: Process where
  "main_start = \<lparr>pr_life = StartWorker (NewMatchmakerServer NewPool NewSessionStore), pr_main = Listening,
     pr_shutdown = Unstarted, pr_sigCh = no_chans, pr_rpcs = 0\<rparr>"

definition main_init :: "Process \<Rightarrow> bool" where
  "main_init p \<longleftrightarrow> p = main_start"

section \<open>The main goroutine\<close>

text \<open>From \<open>Listen\<close> to the call of \<open>Serve\<close>; the signal channel gets a buffer of one.\<close>

definition main_listen :: "bool \<Rightarrow> Process \<Rightarrow> Process option" where
  "main_listen ok p =
     (if pr_main p \<noteq> Listening then None
      else if \<not> ok then Some (p\<lparr>pr_main := Exited 1\<rparr>)
      else Some (p\<lparr>pr_sigCh := fst (make_chan 1 (pr_sigCh p)), pr_shutdown := AwaitingSignal, pr_main := Serving\<rparr>))"

definition graceful :: "Process \<Rightarrow> bool" where
  "graceful p \<longleftrightarrow> pr_shutdown p = Draining \<or> pr_shutdown p = Drained"

text \<open>The return of \<open>Serve\<close> and the end of \<open>main\<close>.\<close>

definition main_serve :: "bool \<Rightarrow> Process \<Rightarrow> Process option" where
  "main_serve waits p =
     (if pr_main p \<noteq> Serving then None
      else if \<not> graceful p then Some (p\<lparr>pr_main := Exited 1\<rparr>)
      else if waits \<and> pr_shutdown p \<noteq> Drained then None
      else Some (p\<lparr>pr_main := Exited 0\<rparr>))"

section \<open>The shutdown goroutine\<close>

text \<open>The runtime passes a signal on without waiting for room in the channel.\<close>

definition deliver_signal :: "Process \<Rightarrow> Process outcome" where
  "deliver_signal p = ret_bind (chan_try_send 0 () (pr_sigCh p)) (\<lambda>(sent, H). Ret (p\<lparr>pr_sigCh := H\<rparr>))"

definition shutdown_receives :: "Process \<Rightarrow> Process option" where
  "shutdown_receives p =
     (if pr_shutdown p \<noteq> AwaitingSignal then None
      else (case chan_recv 0 (pr_sigCh p) of
          (Blocked, _) \<Rightarrow> None
        | (_, H) \<Rightarrow> Some (p\<lparr>pr_sigCh := H, pr_life := stop_call (pr_life p), pr_shutdown := Stopping\<rparr>)))"

definition shutdown_stopped :: "Process \<Rightarrow> Process option" where
  "shutdown_stopped p =
     (if pr_shutdown p \<noteq> Stopping then None
      else map_option (\<lambda>lt. p\<lparr>pr_life := lt, pr_shutdown := Draining\<rparr>) (stop_return (pr_life p)))"

definition shutdown_drained :: "Process \<Rightarrow> Process option" where
  "shutdown_drained p =
     (if pr_shutdown p = Draining \<and> pr_rpcs p = 0 then Some (p\<lparr>pr_shutdown := Drained\<rparr>) else None)"

section \<open>The process\<close>

definition alive :: "Process \<Rightarrow> bool" where
  "alive p \<longleftrightarrow> (\<forall>c. pr_main p \<noteq> Exited c)"

text \<open>Nothing happens after the exit; \<open>ForceMatch\<close> is one of the RPCs.\<close>

inductive main_step :: "bool \<Rightarrow> match_sorter \<Rightarrow> Process \<Rightarrow> Process \<Rightarrow> bool" for waits srt where
  listens: "main_listen ok p = Some p' \<Longrightarrow> main_step waits srt p p'"
| serves: "main_serve waits p = Some p' \<Longrightarrow> main_step waits srt p p'"
| signalled: "pr_main p = Serving \<Longrightarrow> deliver_signal p = Ret p' \<Longrightarrow> main_step waits srt p p'"
| receives: "alive p \<Longrightarrow> shutdown_receives p = Some p' \<Longrightarrow> main_step waits srt p p'"
| stopped: "alive p \<Longrightarrow> shutdown_stopped p = Some p' \<Longrightarrow> main_step waits srt p p'"
| drained: "alive p \<Longrightarrow> shutdown_drained p = Some p' \<Longrightarrow> main_step waits srt p p'"
| rpc_starts: "pr_main p = Serving \<Longrightarrow> \<not> graceful p \<Longrightarrow> main_step waits srt p (p\<lparr>pr_rpcs := Suc (pr_rpcs p)\<rparr>)"
| rpc_ends: "alive p \<Longrightarrow> 0 < pr_rpcs p \<Longrightarrow> main_step waits srt p (p\<lparr>pr_rpcs := pr_rpcs p - 1\<rparr>)"
| works: "alive p \<Longrightarrow> worker_turn srt c (pr_life p) = Some (Ret lt) \<Longrightarrow> main_step waits srt p (p\<lparr>pr_life := lt\<rparr>)"
| ends: "alive p \<Longrightarrow> coordinator_ends (pr_life p) = Some (Ret lt) \<Longrightarrow> main_step waits srt p (p\<lparr>pr_life := lt\<rparr>)"
| forces: "alive p \<Longrightarrow> 0 < pr_rpcs p \<Longrightarrow> forced srt env (pr_life p) = Some (Ret lt)
     \<Longrightarrow> main_step waits srt p (p\<lparr>pr_life := lt\<rparr>)"
| others: "alive p \<Longrightarrow> main_step waits srt p (p\<lparr>pr_life := (pr_life p)\<lparr>lt_srv :=
     (lt_srv (pr_life p))\<lparr>srv_pool := q, srv_sessions := ss, srv_bools := B\<rparr>\<rparr>\<rparr>)"

inductive_cases main_stepE: "main_step waits srt p p'"

definition srv_of :: "Process \<Rightarrow> MatchmakerServer" where
  "srv_of p = lt_srv (pr_life p)"

definition sig_ready :: "unit chans \<Rightarrow> bool" where
  "sig_ready H \<longleftrightarrow> (\<exists>ch. cells H 0 = Some ch \<and> \<not> ch_closed ch \<and> ch_cap ch = 1)"

definition main_inv :: "bool \<Rightarrow> Process \<Rightarrow> bool" where
  "main_inv waits p \<longleftrightarrow> wg_ok (pr_life p)
     \<and> (pr_main p = Listening \<longrightarrow> pr_shutdown p = Unstarted) \<and> (pr_main p = Serving \<longrightarrow> pr_shutdown p \<noteq> Unstarted)
     \<and> (stop_closed (srv_of p) \<longleftrightarrow> pr_shutdown p \<notin> {Unstarted, AwaitingSignal})
     \<and> (lt_waiting (pr_life p) = (if pr_shutdown p = Stopping then 1 else 0))
     \<and> (graceful p \<longrightarrow> lt_worker (pr_life p) = Gone)
     \<and> (pr_shutdown p = Drained \<longrightarrow> pr_rpcs p = 0)
     \<and> (pr_shutdown p \<noteq> Unstarted \<longrightarrow> sig_ready (pr_sigCh p))
     \<and> (pr_shutdown p = Unstarted \<longrightarrow> pr_sigCh p = no_chans)
     \<and> (\<forall>c. pr_main p = Exited c \<longrightarrow> c = 0 \<and> graceful p \<or> c = 1 \<and> \<not> graceful p)
     \<and> (waits \<and> pr_main p = Exited 0 \<longrightarrow> pr_shutdown p = Drained)"

section \<open>The worker's life inside\<close>

lemma main_life:
  assumes "main_step waits srt p p'"
  shows "(life_step srt)\<^sup>*\<^sup>* (pr_life p) (pr_life p')"
  using assms
proof (cases rule: main_step.cases)
  case receives
  then have "pr_life p' = stop_call (pr_life p)"
    by (auto simp: shutdown_receives_def split: if_splits prod.splits received.splits)
  then show ?thesis using life_step.calls by auto
next
  case stopped
  then show ?thesis using life_step.returns by (auto simp: shutdown_stopped_def split: if_splits)
next
  case (works c lt)
  then show ?thesis using life_step.works by auto
next
  case (ends lt)
  then show ?thesis using life_step.ends by auto
next
  case (forces env lt)
  then show ?thesis using life_step.forces by auto
next
  case (others q ss B)
  then show ?thesis using life_step.others by auto
qed (auto simp: main_listen_def main_serve_def deliver_signal_def shutdown_drained_def split: if_splits)

text \<open>The worker, the coordinators and \<open>ForceMatch\<close> leave the shutdown alone.\<close>

definition same_stop :: "Lifetime \<Rightarrow> Lifetime \<Rightarrow> bool" where
  "same_stop lt lt' \<longleftrightarrow> stop_closed (lt_srv lt') = stop_closed (lt_srv lt) \<and> lt_waiting lt' = lt_waiting lt
     \<and> (lt_worker lt = Gone \<longrightarrow> lt_worker lt' = Gone)"

lemma ticked_same: "adds (lt_srv lt) (Ret srv) \<Longrightarrow> same_stop lt (ticked srv lt)"
  by (auto simp: same_stop_def adds_def ticked_def wg_add_def)

lemma worker_turn_same:
  assumes "worker_turn srt c lt = Some (Ret lt')"
  shows "same_stop lt lt'"
  using assms
proof (cases rule: worker_turn_cases)
  case (1 env srv)
  then show ?thesis using ticked_same tick_adds by metis
qed (simp add: same_stop_def)

lemma forced_same:
  assumes "forced srt env lt = Some (Ret lt')"
  shows "same_stop lt lt'"
  using assms
  by (auto simp: forced_def ForceMatch_def Let_def split: option.splits outcome.splits intro!: ticked_same tick_adds)

lemma ends_same: "coordinator_ends lt = Some (Ret lt') \<Longrightarrow> same_stop lt lt'"
  by (auto simp: coordinator_ends_def wg_done_def same_stop_def split: if_splits)

lemma main_inv_life:
  assumes "main_inv waits p" "wg_ok lt" "same_stop (pr_life p) lt"
  shows "main_inv waits (p\<lparr>pr_life := lt\<rparr>)"
  using assms by (auto simp: main_inv_def same_stop_def srv_of_def graceful_def)

lemma recv_ready: "chan_recv c H = (r, H') \<Longrightarrow> sig_ready H' = sig_ready H"
  by (auto simp: chan_recv_def sig_ready_def split: option.splits list.splits if_splits)

lemma shutdown_receives_cases:
  assumes "shutdown_receives p = Some p'"
  obtains r H where "pr_shutdown p = AwaitingSignal" "chan_recv 0 (pr_sigCh p) = (r, H)"
    and "p' = p\<lparr>pr_sigCh := H, pr_life := stop_call (pr_life p), pr_shutdown := Stopping\<rparr>"
  using assms by (auto simp: shutdown_receives_def split: if_splits prod.splits received.splits)

lemma main_serve_cases:
  assumes "main_serve waits p = Some p'"
  obtains "pr_main p = Serving" "p' = p\<lparr>pr_main := Exited (if graceful p then 0 else 1)\<rparr>" "graceful p \<and> waits \<longrightarrow> pr_shutdown p = Drained"
  using assms by (auto simp: main_serve_def split: if_splits)

lemma try_send_ready: "chan_try_send c v H = Ret (b, H') \<Longrightarrow> sig_ready H' = sig_ready H"
  by (auto simp: chan_try_send_def sig_ready_def split: option.splits if_splits)

lemma deliver_signal_cases:
  assumes "deliver_signal p = Ret p'"
  obtains b H where "chan_try_send 0 () (pr_sigCh p) = Ret (b, H)" "p' = p\<lparr>pr_sigCh := H\<rparr>"
  using assms by (auto simp: deliver_signal_def)

lemma first_stop_call:
  "\<not> stop_closed (lt_srv lt) \<Longrightarrow>
     stop_call lt = lt\<lparr>lt_srv := (lt_srv lt)\<lparr>stop_closed := True\<rparr>, lt_waiting := lt_waiting lt + 1\<rparr>"
  by (simp add: stop_call_def StopWorker_def)

lemma main_inv_step:
  assumes inv: "main_inv waits p" and step: "main_step waits srt p p'"
  shows "main_inv waits p'"
proof -
  have wg: "wg_ok (pr_life p')"
    using main_life [OF step] inv unfolding main_inv_def
    by (induction rule: rtranclp_induct) (auto intro: wg_ok_step)
  from step show ?thesis
  proof (cases rule: main_step.cases)
    case (listens ok)
    then show ?thesis using inv
      by (auto simp: main_inv_def main_listen_def graceful_def srv_of_def make_chan_def sig_ready_def no_chans_def split: if_splits)
  next
    case serves
    then have at: "pr_main p = Serving" and p': "p' = p\<lparr>pr_main := Exited (if graceful p then 0 else 1)\<rparr>"
      and *: "graceful p \<and> waits \<longrightarrow> pr_shutdown p = Drained"
      by (auto elim: main_serve_cases)
    show ?thesis
    proof (cases "graceful p")
      case True
      then show ?thesis using inv at * unfolding p' by (simp add: main_inv_def srv_of_def) (simp add: graceful_def)
    next
      case False
      then show ?thesis using inv at unfolding p' by (simp add: main_inv_def srv_of_def) (simp add: graceful_def)
    qed
  next
    case signalled
    then obtain b H where H: "chan_try_send 0 () (pr_sigCh p) = Ret (b, H)" and p': "p' = p\<lparr>pr_sigCh := H\<rparr>"
      by (elim deliver_signal_cases)
    have "pr_shutdown p \<noteq> Unstarted" using inv signalled(1) by (simp add: main_inv_def)
    then show ?thesis using inv try_send_ready [OF H] unfolding p' by (simp add: main_inv_def srv_of_def) (simp add: graceful_def)
  next
    case receives
    then obtain r H where at: "pr_shutdown p = AwaitingSignal" and recv: "chan_recv 0 (pr_sigCh p) = (r, H)"
      and p': "p' = p\<lparr>pr_sigCh := H, pr_life := stop_call (pr_life p), pr_shutdown := Stopping\<rparr>"
      by (elim shutdown_receives_cases)
    have "\<not> stop_closed (lt_srv (pr_life p))" "pr_main p \<noteq> Listening" "sig_ready (pr_sigCh p)" "lt_waiting (pr_life p) = 0"
      "\<forall>c. pr_main p = Exited c \<longrightarrow> c = 1"
      using inv at by (auto simp: main_inv_def srv_of_def graceful_def)
    then show ?thesis
      using wg first_stop_call recv_ready [OF recv] unfolding p' by (auto simp: main_inv_def graceful_def srv_of_def)
  next
    case stopped
    then show ?thesis using inv wg
      by (cases "lt_worker (pr_life p)")
        (auto simp: main_inv_def shutdown_stopped_def graceful_def srv_of_def stop_return_def wg_ok_def alive_def split: if_splits)
  next
    case drained
    then show ?thesis using inv by (auto simp: main_inv_def shutdown_drained_def graceful_def srv_of_def split: if_splits)
  next
    case (works c lt)
    then show ?thesis using main_inv_life [OF inv] wg worker_turn_same by simp
  next
    case (ends lt)
    then show ?thesis using main_inv_life [OF inv] wg ends_same by simp
  next
    case (forces env lt)
    then show ?thesis using main_inv_life [OF inv] wg forced_same by simp
  next
    case (others q ss B)
    then show ?thesis using main_inv_life [OF inv] wg by (simp add: same_stop_def)
  qed (use inv in \<open>auto simp: main_inv_def graceful_def srv_of_def\<close>)
qed

interpretation process: forward_simulation main_init "main_step waits srt" "main_inv waits" life_init "life_step srt" pr_life
  for waits srt
proof unfold_locales
  show "main_inv waits p" if "main_init p" for p
    using that lifetime.inv_init [of started_server]
    by (simp add: main_init_def main_inv_def main_start_def life_init_def started_server_def srv_of_def StartWorker_def
        NewMatchmakerServer_def graceful_def)
  show "main_inv waits p'" if "main_inv waits p" "main_step waits srt p p'" for p p' by (rule main_inv_step [OF that])
  show "life_init (pr_life p)" if "main_init p" for p
    using that by (simp add: main_init_def main_start_def life_init_def started_server_def)
  show "(life_step srt)\<^sup>*\<^sup>* (pr_life p) (pr_life p')" if "main_inv waits p" "main_step waits srt p p'" for p p'
    by (rule main_life [OF that(2)])
qed

section \<open>The way to a clean exit\<close>

text \<open>What stays while the process is brought down, from one phase to the next.\<close>

abbreviation phase :: "bool \<Rightarrow> match_sorter \<Rightarrow> shutdown_pc \<Rightarrow> Process \<Rightarrow> bool" where
  "phase waits srt pc p \<equiv> reachable main_init (main_step waits srt) p \<and> pr_main p = Serving \<and> pr_shutdown p = pc"

lemma phase_wg: "phase waits srt pc p \<Longrightarrow> main_inv waits p \<and> wg_ok (pr_life p)"
  using process.reachable_inv by (auto simp: main_inv_def)

lemma phase_step:
  assumes "phase waits srt pc p" "main_step waits srt p q" "pr_main q = Serving" "pr_shutdown q = pc'"
  shows "phase waits srt pc' q"
  using assms reachable.move [of main_init "main_step waits srt" p q] by simp

text \<open>All coordinators run to their end.\<close>

lemma coordinators_end:
  assumes "phase waits srt pc p"
  shows "\<exists>q. (main_step waits srt)\<^sup>*\<^sup>* p q \<and> phase waits srt pc q \<and> lt_ended (pr_life q) = length (coordinators (srv_of q))
    \<and> lt_worker (pr_life q) = lt_worker (pr_life p) \<and> pr_rpcs q = pr_rpcs p"
  using assms
proof (induction "length (coordinators (srv_of p)) - lt_ended (pr_life p)" arbitrary: p)
  case 0
  then have "lt_ended (pr_life p) = length (coordinators (srv_of p))"
    using phase_wg by (fastforce simp: wg_ok_def srv_of_def)
  then show ?case using 0(2) by (intro exI [of _ p]) simp
next
  case (Suc d)
  have wg: "wg_ok (pr_life p)" using phase_wg [OF Suc(3)] by simp
  define lt where "lt = (pr_life p)\<lparr>lt_ended := Suc (lt_ended (pr_life p)), lt_wg := lt_wg (pr_life p) - 1\<rparr>"
  have "coordinator_ends (pr_life p) = Some (Ret lt)"
    using wg Suc(2) by (auto simp: coordinator_ends_def wg_done_def wg_ok_def srv_of_def lt_def)
  then have step: "main_step waits srt p (p\<lparr>pr_life := lt\<rparr>)" using Suc(3) by (intro main_step.ends) (simp add: alive_def)
  have "phase waits srt pc (p\<lparr>pr_life := lt\<rparr>)" by (rule phase_step [OF Suc(3) step]) (use Suc(3) in simp_all)
  moreover have "d = length (coordinators (srv_of (p\<lparr>pr_life := lt\<rparr>))) - lt_ended (pr_life (p\<lparr>pr_life := lt\<rparr>))"
    using Suc(2) by (simp add: srv_of_def lt_def)
  ultimately obtain q where
    q: "(main_step waits srt)\<^sup>*\<^sup>* (p\<lparr>pr_life := lt\<rparr>) q" "phase waits srt pc q"
      "lt_ended (pr_life q) = length (coordinators (srv_of q))" "lt_worker (pr_life q) = lt_worker lt" "pr_rpcs q = pr_rpcs p"
    using Suc(1) [of "p\<lparr>pr_life := lt\<rparr>"] by auto
  show ?case
    by (intro exI [of _ q] conjI converse_rtranclp_into_rtranclp [of "main_step waits srt", OF step q(1)]) (use q in \<open>simp_all add: lt_def\<close>)
qed

lemma rpcs_end:
  assumes "phase waits srt pc p"
  shows "\<exists>q. (main_step waits srt)\<^sup>*\<^sup>* p q \<and> phase waits srt pc q \<and> pr_rpcs q = 0 \<and> pr_life q = pr_life p"
  using assms
proof (induction "pr_rpcs p" arbitrary: p)
  case 0
  then show ?case by (intro exI [of _ p]) simp
next
  case (Suc d)
  have step: "main_step waits srt p (p\<lparr>pr_rpcs := pr_rpcs p - 1\<rparr>)"
    by (rule main_step.rpc_ends) (use Suc(2,3) in \<open>simp_all add: alive_def\<close>)
  have "phase waits srt pc (p\<lparr>pr_rpcs := pr_rpcs p - 1\<rparr>)" by (rule phase_step [OF Suc(3) step]) (use Suc(3) in simp_all)
  moreover have "d = pr_rpcs (p\<lparr>pr_rpcs := pr_rpcs p - 1\<rparr>)" using Suc(2) by simp
  ultimately obtain q where
    q: "(main_step waits srt)\<^sup>*\<^sup>* (p\<lparr>pr_rpcs := pr_rpcs p - 1\<rparr>) q" "phase waits srt pc q" "pr_rpcs q = 0" "pr_life q = pr_life p"
    using Suc(1) [of "p\<lparr>pr_rpcs := pr_rpcs p - 1\<rparr>"] by auto
  show ?case
    by (intro exI [of _ q] conjI converse_rtranclp_into_rtranclp [of "main_step waits srt", OF step q(1)]) (use q in simp_all)
qed

lemma signal_comes:
  assumes p: "phase waits srt AwaitingSignal p"
  shows "\<exists>q. (main_step waits srt)\<^sup>*\<^sup>* p q \<and> phase waits srt Stopping q \<and> pr_rpcs q = pr_rpcs p"
proof -
  have "sig_ready (pr_sigCh p)" using phase_wg [OF p] p by (simp add: main_inv_def)
  then obtain ch where ch: "cells (pr_sigCh p) 0 = Some ch" "\<not> ch_closed ch" "ch_cap ch = 1" by (auto simp: sig_ready_def)
  have sig: "\<exists>q ch'. (main_step waits srt)\<^sup>*\<^sup>* p q \<and> phase waits srt AwaitingSignal q \<and> pr_rpcs q = pr_rpcs p \<and> cells (pr_sigCh q) 0 = Some ch' \<and> ch_buf ch' \<noteq> []"
  proof (cases "ch_buf ch = []")
    case True
    let ?ch = "ch\<lparr>ch_buf := [()]\<rparr>"
    let ?q = "p\<lparr>pr_sigCh := (pr_sigCh p)\<lparr>cells := (cells (pr_sigCh p))(0 \<mapsto> ?ch)\<rparr>\<rparr>"
    have "deliver_signal p = Ret ?q" using ch True by (simp add: deliver_signal_def chan_try_send_def)
    then have step: "main_step waits srt p ?q" using p by (intro main_step.signalled) simp_all
    have "phase waits srt AwaitingSignal ?q" by (rule phase_step [OF p step]) (use p in simp_all)
    then show ?thesis using step by (intro exI [of _ ?q] exI [of _ ?ch]) (simp add: r_into_rtranclp)
  qed (use p ch(1) in blast)
  then obtain q ch' where q: "(main_step waits srt)\<^sup>*\<^sup>* p q" "phase waits srt AwaitingSignal q" "pr_rpcs q = pr_rpcs p"
    "cells (pr_sigCh q) 0 = Some ch'" "ch_buf ch' \<noteq> []"
    by blast
  obtain H where "chan_recv 0 (pr_sigCh q) = (Value (), H)" using q(4,5) by (cases "ch_buf ch'") (simp_all add: chan_recv_def)
  then have r: "shutdown_receives q = Some (q\<lparr>pr_sigCh := H, pr_life := stop_call (pr_life q), pr_shutdown := Stopping\<rparr>)"
    (is "_ = Some ?q") using q(2) by (simp add: shutdown_receives_def)
  have step: "main_step waits srt q ?q" by (rule main_step.receives [OF _ r]) (use q(2) in \<open>simp add: alive_def\<close>)
  have "phase waits srt Stopping ?q" by (rule phase_step [OF q(2) step]) (use q(2) in simp_all)
  then show ?thesis using q(1,3) step by (intro exI [of _ ?q]) (simp add: rtranclp.rtrancl_into_rtrancl)
qed

lemma worker_stops:
  assumes p: "phase waits srt Stopping p"
  shows "\<exists>q. (main_step waits srt)\<^sup>*\<^sup>* p q \<and> phase waits srt Draining q \<and> pr_rpcs q = pr_rpcs p"
proof -
  have closed: "stop_closed (lt_srv (pr_life p))" using phase_wg [OF p] p by (simp add: main_inv_def srv_of_def)
  have gone: "\<exists>q. (main_step waits srt)\<^sup>*\<^sup>* p q \<and> phase waits srt Stopping q \<and> lt_worker (pr_life q) = Gone
      \<and> pr_rpcs q = pr_rpcs p"
  proof (cases "lt_worker (pr_life p)")
    case Polling
    define lt where "lt = (pr_life p)\<lparr>lt_worker := Gone, lt_wg := lt_wg (pr_life p) - 1\<rparr>"
    have "worker_turn srt StopSeen (pr_life p) = Some (Ret lt)"
      using closed Polling phase_wg [OF p] by (auto simp: worker_turn_def wg_done_def wg_ok_def lt_def)
    then have step: "main_step waits srt p (p\<lparr>pr_life := lt\<rparr>)" using p by (intro main_step.works) (simp_all add: alive_def)
    have "phase waits srt Stopping (p\<lparr>pr_life := lt\<rparr>)" by (rule phase_step [OF p step]) (use p in simp_all)
    then show ?thesis using step by (intro exI [of _ "p\<lparr>pr_life := lt\<rparr>"]) (simp add: lt_def r_into_rtranclp)
  qed (use p in blast)
  then obtain q0 where q0: "(main_step waits srt)\<^sup>*\<^sup>* p q0" "phase waits srt Stopping q0" "lt_worker (pr_life q0) = Gone"
    "pr_rpcs q0 = pr_rpcs p" by blast
  obtain q where q: "(main_step waits srt)\<^sup>*\<^sup>* q0 q" "phase waits srt Stopping q" "lt_ended (pr_life q) = length (coordinators (srv_of q))"
    "lt_worker (pr_life q) = Gone" "pr_rpcs q = pr_rpcs p" using coordinators_end [OF q0(2)] q0(3,4) by auto
  define lt where "lt = (pr_life q)\<lparr>lt_waiting := 0\<rparr>"
  have "stop_return (pr_life q) = Some lt"
    using q(2-4) phase_wg [OF q(2)] by (simp add: stop_return_def wg_ok_def main_inv_def srv_of_def lt_def)
  then have r: "shutdown_stopped q = Some (q\<lparr>pr_life := lt, pr_shutdown := Draining\<rparr>)"
    using q(2) by (simp add: shutdown_stopped_def)
  have step: "main_step waits srt q (q\<lparr>pr_life := lt, pr_shutdown := Draining\<rparr>)"
    by (rule main_step.stopped [OF _ r]) (use q(2) in \<open>simp add: alive_def\<close>)
  have "phase waits srt Draining (q\<lparr>pr_life := lt, pr_shutdown := Draining\<rparr>)"
    by (rule phase_step [OF q(2) step]) (use q(2) in simp_all)
  moreover have "(main_step waits srt)\<^sup>*\<^sup>* p (q\<lparr>pr_life := lt, pr_shutdown := Draining\<rparr>)"
    using q0(1) q(1) step by (meson rtranclp.rtrancl_into_rtrancl rtranclp_trans)
  ultimately show ?thesis using q(5) by (intro exI [of _ "q\<lparr>pr_life := lt, pr_shutdown := Draining\<rparr>"]) simp
qed

lemma server_drains:
  assumes p: "phase waits srt Draining p"
  shows "\<exists>q. (main_step waits srt)\<^sup>*\<^sup>* p q \<and> phase waits srt Drained q \<and> pr_rpcs q = 0 \<and> pr_life q = pr_life p"
proof -
  obtain q where q: "(main_step waits srt)\<^sup>*\<^sup>* p q" "phase waits srt Draining q" "pr_rpcs q = 0" "pr_life q = pr_life p"
    using rpcs_end [OF p] by blast
  have r: "shutdown_drained q = Some (q\<lparr>pr_shutdown := Drained\<rparr>)" using q(2,3) by (simp add: shutdown_drained_def)
  have step: "main_step waits srt q (q\<lparr>pr_shutdown := Drained\<rparr>)"
    by (rule main_step.drained [OF _ r]) (use q(2) in \<open>simp add: alive_def\<close>)
  have "phase waits srt Drained (q\<lparr>pr_shutdown := Drained\<rparr>)" by (rule phase_step [OF q(2) step]) (use q(2) in simp_all)
  then show ?thesis using q(1,3,4) step by (intro exI [of _ "q\<lparr>pr_shutdown := Drained\<rparr>"]) (simp add: rtranclp.rtrancl_into_rtrancl)
qed

text \<open>The process when it has just begun to serve.\<close>

definition serving_start :: Process where
  "serving_start = main_start\<lparr>pr_sigCh := fst (make_chan 1 no_chans), pr_shutdown := AwaitingSignal, pr_main := Serving\<rparr>"

lemma serving_phase: "phase waits srt AwaitingSignal serving_start"
proof (intro conjI)
  have "reachable main_init (main_step waits srt) main_start" by (rule reachable.start) (simp add: main_init_def)
  moreover have "main_step waits srt main_start serving_start"
    by (rule main_step.listens [of True]) (simp add: main_listen_def main_start_def serving_start_def)
  ultimately show "reachable main_init (main_step waits srt) serving_start" by (rule reachable.move)
qed (simp_all add: serving_start_def)

lemma drained_exits:
  assumes p: "phase waits srt Drained p"
  shows "main_step waits srt p (p\<lparr>pr_main := Exited 0\<rparr>)"
  by (rule main_step.serves) (use p in \<open>simp add: main_serve_def graceful_def\<close>)

text \<open>A \<open>ForceMatch\<close> that is still running when the worker has been stopped.\<close>

lemma late_room:
  assumes "wg_ok lt" "lt_srv lt = srv\<lparr>srv_pool := srv_pool ten_server, srv_sessions := ss, srv_bools := srv_bools ten_server\<rparr>"
  obtains lt' where "forced insertionSort ten_env lt = Some (Ret lt')" "lt_ended lt' < length (coordinators (lt_srv lt'))"
proof -
  let ?s = "lt_srv lt"
  have ready: "ready_pool (srv_pool ?s)" "chans_ok (srv_bools ?s)" "\<And>m. covers (te_keys (ten_env m)) (brackets (srv_pool ?s))"
    using ten_server_ready ten_env_covers by (simp_all add: assms(2))
  obtain p' sel where ex: "ExtractMatch insertionSort (te_keys (ten_env 0)) (te_extract (ten_env 0)) (srv_pool ?s) = (p', Some sel)"
    using ten_match by (auto simp: assms(2) ten_env_def ten_server_def NewMatchmakerServer_def)
  obtain srv1 r where one: "tick insertionSort ten_env 0 ?s = tick insertionSort ten_env (Suc 0) srv1" "tick_effect ?s [r] srv1"
    using match_insertion.tick_turn [OF ready(1,2), of ten_env 0 p' sel] ready(3) ex by metis
  note d = tick_effectD [OF one(2)]
  have "covers (te_keys (ten_env m)) (brackets (srv_pool srv1))" for m
    by (rule covers_mono [OF _ _ _ ready(3)]) (use ready(1) d(1,3) in \<open>auto simp: ready_pool_def\<close>)
  then obtain srv' rooms where two: "tick insertionSort ten_env (Suc 0) srv1 = Some (Ret srv')" "tick_effect srv1 rooms srv'"
    using match_insertion.tick_spec [OF d(1,2)] by metis
  have n: "length (coordinators ?s) < length (coordinators srv')" using d(10) tick_effectD(10) [OF two(2)] by simp
  show thesis
  proof (rule that)
    show "forced insertionSort ten_env lt = Some (Ret (ticked srv' lt))"
      using one(1) two(1) by (simp add: forced_def ForceMatch_def Let_def)
    show "lt_ended (ticked srv' lt) < length (coordinators (lt_srv (ticked srv' lt)))"
      using assms(1) n by (simp add: ticked_def wg_add_def wg_ok_def)
  qed
qed

section \<open>Properties\<close>

text \<open>C12: the process ends with 0 or 1: with 1 only before \<open>GracefulStop\<close> has been called, when listening or
  serving fails; with 0 only after a signal, when the worker has gone and \<open>StopWorker\<close> has returned, and,
  if \<open>Serve\<close> waits for \<open>GracefulStop\<close>, when no RPC is left, so that one open stream keeps the process
  alive whatever signals come; and passing on a signal never panics.\<close>

theorem main_exits:
  assumes "reachable main_init (main_step waits srt) p"
  shows "(pr_main p = Exited c \<longrightarrow> c = 0 \<or> c = 1)
    \<and> (pr_main p = Exited 0 \<longrightarrow> stop_closed (srv_of p) \<and> lt_worker (pr_life p) = Gone \<and> lt_waiting (pr_life p) = 0
         \<and> (waits \<longrightarrow> pr_shutdown p = Drained \<and> pr_rpcs p = 0))
    \<and> (pr_main p = Exited 1 \<longrightarrow> \<not> graceful p)
    \<and> (waits \<and> graceful p \<and> 0 < pr_rpcs p \<longrightarrow> alive p)
    \<and> (pr_main p = Serving \<longrightarrow> deliver_signal p \<noteq> Panic)"
proof -
  have inv: "main_inv waits p" by (rule process.reachable_inv [OF assms])
  have "deliver_signal p \<noteq> Panic" if "pr_main p = Serving"
  proof -
    have "sig_ready (pr_sigCh p)" using inv that by (simp add: main_inv_def)
    then show ?thesis by (auto simp: sig_ready_def deliver_signal_def chan_try_send_def split: if_splits)
  qed
  moreover have "alive p" if "waits" "graceful p" "0 < pr_rpcs p"
    using inv that by (auto simp: main_inv_def alive_def)
  moreover have "stop_closed (srv_of p) \<and> lt_worker (pr_life p) = Gone \<and> lt_waiting (pr_life p) = 0
      \<and> (waits \<longrightarrow> pr_shutdown p = Drained \<and> pr_rpcs p = 0)" if "pr_main p = Exited 0"
  proof -
    have g: "graceful p" "waits \<longrightarrow> pr_shutdown p = Drained" using inv that by (auto simp: main_inv_def)
    then show ?thesis using inv by (auto simp: main_inv_def graceful_def)
  qed
  moreover have "pr_main p = Exited c \<longrightarrow> c = 0 \<or> c = 1" for c using inv by (auto simp: main_inv_def)
  moreover have "pr_main p = Exited 1 \<longrightarrow> \<not> graceful p" using inv by (auto simp: main_inv_def)
  ultimately show ?thesis by blast
qed

theorem main_exits_witness:
  "\<exists>p. reachable main_init (main_step True insertionSort) p \<and> pr_main p = Exited 1 \<and> \<not> graceful p"
proof -
  have "reachable main_init (main_step True insertionSort) main_start" by (rule reachable.start) (simp add: main_init_def)
  moreover have "main_step True insertionSort main_start (main_start\<lparr>pr_main := Exited 1\<rparr>)"
    by (rule main_step.listens [of False]) (simp add: main_listen_def main_start_def)
  ultimately have r: "reachable main_init (main_step True insertionSort) (main_start\<lparr>pr_main := Exited 1\<rparr>)" by (rule reachable.move)
  from main_exits [OF r, of 1] r show ?thesis by (intro exI [of _ "main_start\<lparr>pr_main := Exited 1\<rparr>"]) simp
qed

text \<open>The server can always be brought down cleanly: from every state in which it serves, some run leads
  to exit code 0 with the worker gone, every coordinator ended and no RPC left.\<close>

theorem clean_exit_possible:
  assumes "reachable main_init (main_step waits srt) p" "pr_main p = Serving"
  shows "\<exists>q. (main_step waits srt)\<^sup>*\<^sup>* p q \<and> pr_main q = Exited 0 \<and> lt_worker (pr_life q) = Gone
    \<and> lt_ended (pr_life q) = length (coordinators (srv_of q)) \<and> pr_rpcs q = 0"
proof -
  let ?steps = "(main_step waits srt)\<^sup>*\<^sup>*"
  have "main_inv waits p" by (rule process.reachable_inv [OF assms(1)])
  then have "pr_shutdown p \<noteq> Unstarted" using assms(2) by (simp add: main_inv_def)
  then have "\<exists>q. ?steps p q \<and> phase waits srt Stopping q" if "pr_shutdown p = AwaitingSignal"
    using signal_comes assms that by blast
  then have "\<exists>q. ?steps p q \<and> phase waits srt Draining q" if "pr_shutdown p \<in> {AwaitingSignal, Stopping}"
    using worker_stops assms that by (metis (no_types, lifting) insertE rtranclp.rtrancl_refl rtranclp_trans singletonD)
  then obtain q where q: "?steps p q" "phase waits srt Drained q"
  proof (cases "pr_shutdown p = Drained")
    case False
    then have "\<exists>q. ?steps p q \<and> phase waits srt Draining q"
      using \<open>pr_shutdown p \<noteq> Unstarted\<close> assms \<open>pr_shutdown p \<in> {AwaitingSignal, Stopping} \<Longrightarrow> _\<close>
      by (cases "pr_shutdown p") auto
    then show thesis using that server_drains by (meson rtranclp_trans)
  qed (use that [of p] assms in simp)
  obtain r where r: "?steps q r" "phase waits srt Drained r" "lt_ended (pr_life r) = length (coordinators (srv_of r))"
    using coordinators_end [OF q(2)] by blast
  have "main_inv waits r" using phase_wg [OF r(2)] by simp
  then have "lt_worker (pr_life r) = Gone" "pr_rpcs r = 0" using r(2) by (simp_all add: main_inv_def graceful_def)
  moreover have "?steps p (r\<lparr>pr_main := Exited 0\<rparr>)"
    using q(1) r(1) drained_exits [OF r(2)] by (meson rtranclp.rtrancl_into_rtrancl rtranclp_trans)
  ultimately show ?thesis using r(3) by (intro exI [of _ "r\<lparr>pr_main := Exited 0\<rparr>"]) (simp add: srv_of_def)
qed

theorem clean_exit_possible_witness:
  "\<exists>q. (main_step True insertionSort)\<^sup>*\<^sup>* serving_start q \<and> pr_main q = Exited 0 \<and> pr_rpcs q = 0"
  using clean_exit_possible [of True insertionSort serving_start] serving_phase by blast

text \<open>But a clean exit does not mean that every ready check was waited for: \<open>ForceMatch\<close> may still be
  running when \<open>StopWorker\<close> has returned, and the coordinators it launches then are cut off by the exit.\<close>

theorem exit_cuts_coordinators:
  "\<exists>p. reachable main_init (main_step True insertionSort) p \<and> pr_main p = Exited 0
     \<and> lt_ended (pr_life p) < length (coordinators (srv_of p))"
proof -
  let ?step = "main_step True insertionSort"
  let ?reach = "reachable main_init ?step"
  have "?reach serving_start" using serving_phase by blast
  then have "?reach (serving_start\<lparr>pr_rpcs := Suc (pr_rpcs serving_start)\<rparr>)"
    by (rule reachable.move) (rule main_step.rpc_starts, simp_all add: serving_start_def graceful_def)
  then have "phase True insertionSort AwaitingSignal (serving_start\<lparr>pr_rpcs := Suc (pr_rpcs serving_start)\<rparr>)"
    "pr_rpcs (serving_start\<lparr>pr_rpcs := Suc (pr_rpcs serving_start)\<rparr>) = 1" by (simp_all add: serving_start_def main_start_def)
  then obtain p2 where p2: "phase True insertionSort Draining p2" "pr_rpcs p2 = 1"
    using signal_comes worker_stops by metis
  define p3 where "p3 = p2\<lparr>pr_life := (pr_life p2)\<lparr>lt_srv := (lt_srv (pr_life p2))
     \<lparr>srv_pool := srv_pool ten_server, srv_sessions := NewSessionStore, srv_bools := srv_bools ten_server\<rparr>\<rparr>\<rparr>"
  have "?step p2 p3" unfolding p3_def by (rule main_step.others) (use p2(1) in \<open>simp add: alive_def\<close>)
  then have p3: "phase True insertionSort Draining p3" by (rule phase_step [OF p2(1)]) (use p2(1) in \<open>simp_all add: p3_def\<close>)
  have "wg_ok (pr_life p3)" using phase_wg [OF p3] by simp
  then obtain lt where lt: "forced insertionSort ten_env (pr_life p3) = Some (Ret lt)" "lt_ended lt < length (coordinators (lt_srv lt))"
    using late_room [of "pr_life p3" NewSessionStore "lt_srv (pr_life p2)"] by (auto simp: p3_def)
  have "?step p3 (p3\<lparr>pr_life := lt\<rparr>)"
    by (rule main_step.forces [OF _ _ lt(1)]) (use p3 p2(2) in \<open>simp_all add: alive_def p3_def\<close>)
  then have "phase True insertionSort Draining (p3\<lparr>pr_life := lt\<rparr>)" by (rule phase_step [OF p3]) (use p3 in simp_all)
  then obtain q where q: "phase True insertionSort Drained q" "pr_life q = lt" using server_drains by fastforce
  have "?reach (q\<lparr>pr_main := Exited 0\<rparr>)" 
    by (rule reachable.move [of _ ?step q, OF _ drained_exits [OF q(1)]]) (use q(1) in blast)
  then show ?thesis using q(2) lt(2) by (intro exI [of _ "q\<lparr>pr_main := Exited 0\<rparr>"]) (simp add: srv_of_def)
qed

end
