(* ===== verification/Nexus_Snapshot.thy ===== *)
theory Nexus_Snapshot
  imports Nexus_Tracker
begin

text \<open>
  \<open>GetSession\<close> of \<open>internal/services/tracker.go\<close> next to \<open>RecordResult\<close> of \<open>internal/state/session.go\<close>.
  The store hands out the live \<open>*Session\<close>, and the handler reads its fields after the lock has been
  released; so here \<open>RecordResult\<close> is cut at its writes and the handler at its reads. \<open>Nexus_Session\<close> and
  \<open>Nexus_Tracker\<close> have each of them in one piece; \<open>record_pieces\<close> and \<open>reader_alone\<close> say that these are the
  same code.
\<close>

section \<open>Recording in pieces\<close>

text \<open>Everything before the first write, under the lock.\<close>

definition record_checks :: "string \<Rightarrow> string \<Rightarrow> i32 \<Rightarrow> i32 \<Rightarrow> SessionStore \<Rightarrow> session_error + ResultEntry" where
  "record_checks sid pid result score ss = (case sessions ss sid of
       None \<Rightarrow> Inl (ErrSessionNotFound sid)
     | Some session \<Rightarrow>
         if pid \<notin> set (PlayerIDs session) then Inl (ErrPlayerNotInSession pid sid)
         else if Results session pid \<noteq> None then Inl (ErrDuplicateSubmission pid sid)
         else (case result_delta result of
             Inl e \<Rightarrow> Inl e
           | Inr delta \<Rightarrow> Inr \<lparr>re_PlayerID = pid, re_Result = result, re_Score = score, MMRDelta = delta\<rparr>))"

definition on_session :: "string \<Rightarrow> (Session \<Rightarrow> Session) \<Rightarrow> SessionStore \<Rightarrow> SessionStore" where
  "on_session sid f ss = ss\<lparr>sessions := (sessions ss)(sid := map_option f (sessions ss sid))\<rparr>"

definition put_entry :: "ResultEntry \<Rightarrow> Session \<Rightarrow> Session" where
  "put_entry e s = s\<lparr>Results := (Results s)(re_PlayerID e \<mapsto> e)\<rparr>"

definition complete :: "Session \<Rightarrow> bool" where
  "complete s \<longleftrightarrow> card (dom (Results s)) = length (PlayerIDs s)"

definition set_final :: "Session \<Rightarrow> Session" where
  "set_final s = s\<lparr>Finalized := True\<rparr>"

definition set_ended :: "gtime \<Rightarrow> Session \<Rightarrow> Session" where
  "set_ended now s = s\<lparr>EndedAt := now\<rparr>"

lemma record_pieces:
  "RecordResult now sid pid result score ss = (case record_checks sid pid result score ss of
      Inl e \<Rightarrow> (ss, Inl e)
    | Inr e \<Rightarrow> (on_session sid (\<lambda>s. let s1 = put_entry e s in if complete s1 then set_ended now (set_final s1) else s1) ss,
                Inr (MMRDelta e)))"
  by (cases rule: RecordResult_cases [of ss sid now pid result score])
    (auto simp: record_checks_def on_session_def put_entry_def complete_def set_final_def set_ended_def Let_def)

section \<open>The machine\<close>

text \<open>
  The writer between its writes: at the assignment to the map, after it, and after the flag has been
  set. The reader: before the lookup, in the loop (with the keys it has visited), before and after it
  reads the end time, and done; or the process is gone, since the runtime ends it when it sees that a
  map is iterated while it is written.
\<close>

datatype writer = Unlocked | Inserting string ResultEntry | Inserted string | Marked string

datatype reader = Looking | Ranging "string set" "PlayerResult list" | Dating "PlayerResult list"
  | Flagging "PlayerResult list" i64 | Answered "SessionSummary reply" | Fatal

text \<open>\<open>rg_began\<close> keeps the results that were there when the loop began; no step reads it but the end of the loop.\<close>

record Reading =
  rg_store :: SessionStore
  rg_writer :: writer
  rg_reader :: reader
  rg_began :: "string \<rightharpoonup> ResultEntry"

fun reader_turn_at :: "string \<Rightarrow> Session option \<Rightarrow> reader \<Rightarrow> reader" where
  "reader_turn_at sid found Looking =
     (if sid = [] then Answered (reply_error InvalidArgument)
      else case found of None \<Rightarrow> Answered (reply_error NotFound) | Some _ \<Rightarrow> Ranging {} [])"
| "reader_turn_at sid (Some s) (Dating acc) = Flagging acc (UnixMilli (EndedAt s))"
| "reader_turn_at sid (Some s) (Flagging acc ended) = Answered (reply_ok \<lparr>ss_SessionId = SessionID s, ss_Results = acc,
     ss_StartedAtMs = UnixMilli (StartedAt s), ss_EndedAtMs = ended, ss_Finalized = Finalized s\<rparr>)"
| "reader_turn_at sid _ r = r"

definition visit :: "string \<Rightarrow> Session \<Rightarrow> reader \<Rightarrow> reader option" where
  "visit k s r = (case r of
       Ranging seen acc \<Rightarrow> (case Results s k of
           Some e \<Rightarrow> if k \<in> seen then None else Some (Ranging (insert k seen) (acc @ [player_result e]))
         | None \<Rightarrow> None)
     | _ \<Rightarrow> None)"

definition writing :: "string \<Rightarrow> Reading \<Rightarrow> bool" where
  "writing sid rg \<longleftrightarrow> (\<exists>e. rg_writer rg = Inserting sid e)"

definition live_session :: "string \<Rightarrow> Reading \<Rightarrow> Session option" where
  "live_session sid rg = GetSession sid (rg_store rg)"

inductive read_step :: "string \<Rightarrow> Reading \<Rightarrow> Reading \<Rightarrow> bool" for sid where
  begins: "rg_writer rg = Unlocked \<Longrightarrow> record_checks i pid result score (rg_store rg) = Inr e
     \<Longrightarrow> read_step sid rg (rg\<lparr>rg_writer := Inserting i e\<rparr>)"
| inserts: "rg_writer rg = Inserting i e
     \<Longrightarrow> read_step sid rg (rg\<lparr>rg_store := on_session i (put_entry e) (rg_store rg), rg_writer := Inserted i\<rparr>)"
| unlocks: "rg_writer rg = Inserted i \<Longrightarrow> live_session i rg = Some s \<Longrightarrow> \<not> complete s
     \<Longrightarrow> read_step sid rg (rg\<lparr>rg_writer := Unlocked\<rparr>)"
| marks: "rg_writer rg = Inserted i \<Longrightarrow> live_session i rg = Some s \<Longrightarrow> complete s
     \<Longrightarrow> read_step sid rg (rg\<lparr>rg_store := on_session i set_final (rg_store rg), rg_writer := Marked i\<rparr>)"
| ends: "rg_writer rg = Marked i
     \<Longrightarrow> read_step sid rg (rg\<lparr>rg_store := on_session i (set_ended now) (rg_store rg), rg_writer := Unlocked\<rparr>)"
| creates: "rg_writer rg = Unlocked \<Longrightarrow> live_session i rg = None
     \<Longrightarrow> read_step sid rg (rg\<lparr>rg_store := CreateSession now i pids (rg_store rg)\<rparr>)"
| looks: "rg_reader rg = Looking \<Longrightarrow> rg_writer rg = Unlocked
     \<Longrightarrow> read_step sid rg (rg\<lparr>rg_began := (case live_session sid rg of None \<Rightarrow> Map.empty | Some s \<Rightarrow> Results s),
           rg_reader := reader_turn_at sid (live_session sid rg) Looking\<rparr>)"
| visits: "live_session sid rg = Some s \<Longrightarrow> \<not> writing sid rg \<Longrightarrow> visit k s (rg_reader rg) = Some r
     \<Longrightarrow> read_step sid rg (rg\<lparr>rg_reader := r\<rparr>)"
| leaves: "rg_reader rg = Ranging seen acc \<Longrightarrow> \<not> writing sid rg \<Longrightarrow> dom (rg_began rg) \<subseteq> seen
     \<Longrightarrow> read_step sid rg (rg\<lparr>rg_reader := Dating acc\<rparr>)"
| crashes: "rg_reader rg = Ranging seen acc \<Longrightarrow> writing sid rg \<Longrightarrow> read_step sid rg (rg\<lparr>rg_reader := Fatal\<rparr>)"
| reads: "rg_reader rg = Dating acc \<or> rg_reader rg = Flagging acc ended
     \<Longrightarrow> read_step sid rg (rg\<lparr>rg_reader := reader_turn_at sid (live_session sid rg) (rg_reader rg)\<rparr>)"

inductive_cases read_stepE: "read_step sid rg rg'"

definition read_init :: "Reading \<Rightarrow> bool" where
  "read_init rg \<longleftrightarrow> store_inv (rg_store rg) \<and> rg_writer rg = Unlocked \<and> rg_reader rg = Looking \<and> rg_began rg = Map.empty"

section \<open>What the reader can rely on\<close>

text \<open>A session only grows, whatever the writer is at.\<close>

definition grows :: "Session \<Rightarrow> Session \<Rightarrow> bool" where
  "grows s s' \<longleftrightarrow> Results s \<subseteq>\<^sub>m Results s' \<and> SessionID s' = SessionID s \<and> PlayerIDs s' = PlayerIDs s
     \<and> StartedAt s' = StartedAt s \<and> (Finalized s \<longrightarrow> Finalized s')"

lemma grows_refl [simp]: "grows s s"
  by (simp add: grows_def)

text \<open>The invariant of a session in the middle of a recording: it may be complete and not yet final.\<close>

definition mid_ok :: "string \<Rightarrow> Session \<Rightarrow> bool" where
  "mid_ok i s \<longleftrightarrow> SessionID s = i \<and> dom (Results s) \<subseteq> set (PlayerIDs s)
     \<and> (\<forall>pid e. Results s pid = Some e \<longrightarrow> entry_ok pid e) \<and> (Finalized s \<longrightarrow> complete s)"

definition listed :: "Session \<Rightarrow> PlayerResult list \<Rightarrow> bool" where
  "listed s acc \<longleftrightarrow> distinct (map pr_PlayerId acc)
     \<and> (\<forall>x \<in> set acc. \<exists>e. Results s (pr_PlayerId x) = Some e \<and> x = player_result e)"

fun reader_ok :: "string \<Rightarrow> Session option \<Rightarrow> (string \<rightharpoonup> ResultEntry) \<Rightarrow> reader \<Rightarrow> bool" where
  "reader_ok sid None began r = (began = Map.empty \<and> (r = Looking \<or> (\<exists>err. r = Answered (None, err))))"
| "reader_ok sid (Some s) began r = (began \<subseteq>\<^sub>m Results s \<and> (case r of
       Ranging seen acc \<Rightarrow> listed s acc \<and> seen = pr_PlayerId ` set acc
     | Dating acc \<Rightarrow> listed s acc \<and> dom began \<subseteq> pr_PlayerId ` set acc
     | Flagging acc ended \<Rightarrow> listed s acc \<and> dom began \<subseteq> pr_PlayerId ` set acc
     | Answered (Some m, err) \<Rightarrow> err = None \<and> listed s (ss_Results m) \<and> dom began \<subseteq> pr_PlayerId ` set (ss_Results m)
         \<and> ss_SessionId m = sid \<and> ss_StartedAtMs m = UnixMilli (StartedAt s) \<and> (ss_Finalized m \<longrightarrow> Finalized s)
     | _ \<Rightarrow> True))"

fun writer_ok :: "SessionStore \<Rightarrow> writer \<Rightarrow> bool" where
  "writer_ok ss Unlocked = store_inv ss"
| "writer_ok ss (Inserting i e) = (\<exists>s. sessions ss i = Some s \<and> re_PlayerID e \<in> set (PlayerIDs s) - dom (Results s)
     \<and> entry_ok (re_PlayerID e) e \<and> store_inv ss)"
| "writer_ok ss (Inserted i) = (\<exists>s. sessions ss i = Some s \<and> mid_ok i s \<and> \<not> Finalized s \<and> EndedAt s = zero_time \<and> PlayerIDs s \<noteq> []
     \<and> (\<forall>j t. j \<noteq> i \<longrightarrow> sessions ss j = Some t \<longrightarrow> session_inv j t))"
| "writer_ok ss (Marked i) = (\<exists>s. sessions ss i = Some s \<and> mid_ok i s \<and> Finalized s \<and> PlayerIDs s \<noteq> []
     \<and> (\<forall>j t. j \<noteq> i \<longrightarrow> sessions ss j = Some t \<longrightarrow> session_inv j t))"

definition read_inv :: "string \<Rightarrow> Reading \<Rightarrow> bool" where
  "read_inv sid rg \<longleftrightarrow> writer_ok (rg_store rg) (rg_writer rg)
     \<and> reader_ok sid (live_session sid rg) (rg_began rg) (rg_reader rg)"

lemma listed_grows: "listed s acc \<Longrightarrow> grows s s' \<Longrightarrow> listed s' acc"
  unfolding listed_def grows_def map_le_def by (metis domI)

lemma reader_ok_grows:
  assumes "reader_ok sid (Some s) began r" "grows s s'"
  shows "reader_ok sid (Some s') began r"
  using assms listed_grows [OF _ assms(2)]
  by (auto simp: grows_def intro: map_le_trans split: reader.splits prod.splits option.splits)

text \<open>A writer's step changes one session, which grows.\<close>

lemma sessions_on [simp]: "sessions (on_session i f ss) = (sessions ss)(i := map_option f (sessions ss i))"
  by (simp add: on_session_def)

lemma reader_ok_on:
  assumes "reader_ok sid (live_session sid rg) began r" "\<And>s. sessions (rg_store rg) i = Some s \<Longrightarrow> grows s (f s)"
  shows "reader_ok sid (live_session sid (rg\<lparr>rg_store := on_session i f (rg_store rg), rg_writer := w\<rparr>)) began r"
proof (cases "sid = i \<and> sessions (rg_store rg) sid \<noteq> None")
  case True
  then obtain s where s: "sessions (rg_store rg) i = Some s" "sid = i" by blast
  then have "reader_ok sid (Some s) began r" using assms(1) by (simp add: live_session_def GetSession_def)
  from reader_ok_grows [OF this assms(2) [OF s(1)]] show ?thesis using s by (simp add: live_session_def GetSession_def)
next
  case False
  then have "live_session sid (rg\<lparr>rg_store := on_session i f (rg_store rg), rg_writer := w\<rparr>) = live_session sid rg"
    by (auto simp: live_session_def GetSession_def)
  then show ?thesis using assms(1) by simp
qed

lemma record_checks_Inr:
  assumes "record_checks i pid result score ss = Inr e"
  obtains s where "sessions ss i = Some s" "re_PlayerID e = pid" "pid \<in> set (PlayerIDs s) - dom (Results s)" "entry_ok pid e"
proof -
  obtain s where s: "sessions ss i = Some s" "pid \<in> set (PlayerIDs s)" "Results s pid = None"
    and d: "re_PlayerID e = pid" "result_delta (re_Result e) = Inr (MMRDelta e)"
    using assms by (auto simp: record_checks_def split: option.splits if_splits sum.splits)
  show thesis by (rule that [OF s(1) d(1)]) (use s d in \<open>simp_all add: entry_ok_def domIff\<close>)
qed

lemma mid_final:
  assumes "mid_ok i s" "complete s" "PlayerIDs s \<noteq> []"
  shows "session_inv i (set_ended now (set_final s))"
  using assms by (auto simp: mid_ok_def session_inv_def complete_def set_ended_def set_final_def)

lemma store_inv_upd:
  assumes "\<forall>j t. j \<noteq> i \<longrightarrow> sessions ss j = Some t \<longrightarrow> session_inv j t" "sessions ss i = Some s" "session_inv i (f s)"
  shows "store_inv (on_session i f ss)"
  using assms by (auto simp: store_inv_def)

lemma put_entry_mid:
  assumes "session_inv i s" "re_PlayerID e \<in> set (PlayerIDs s) - dom (Results s)" "entry_ok (re_PlayerID e) e"
  shows "mid_ok i (put_entry e s) \<and> \<not> Finalized (put_entry e s) \<and> EndedAt (put_entry e s) = zero_time
     \<and> PlayerIDs (put_entry e s) \<noteq> [] \<and> grows s (put_entry e s)"
proof -
  have "\<not> Finalized s \<and> EndedAt s = zero_time" using open_session [OF assms(1)] assms(2) by blast
  then show ?thesis using assms by (auto simp: mid_ok_def put_entry_def session_inv_def grows_def map_le_def)
qed

lemma writer_entries:
  assumes "writer_ok ss w" "sessions ss j = Some s"
  shows "Results s k = Some e \<Longrightarrow> entry_ok k e" "SessionID s = j"
proof -
  have "session_inv j s \<or> mid_ok j s"
    using assms(1,2) by (cases w) (auto simp: store_inv_def, metis option.inject, metis option.inject)
  then show "Results s k = Some e \<Longrightarrow> entry_ok k e" "SessionID s = j" by (auto simp: session_inv_def mid_ok_def)
qed

lemma read_inv_step:
  assumes inv: "read_inv sid rg" and step: "read_step sid rg rg'"
  shows "read_inv sid rg'"
proof -
  have w: "writer_ok (rg_store rg) (rg_writer rg)" and r: "reader_ok sid (live_session sid rg) (rg_began rg) (rg_reader rg)"
    using inv by (simp_all add: read_inv_def)
  from step show ?thesis
  proof (cases rule: read_step.cases)
    case (begins i pid result score e)
    obtain s where s: "sessions (rg_store rg) i = Some s" "re_PlayerID e = pid" "pid \<in> set (PlayerIDs s) - dom (Results s)"
      "entry_ok pid e" by (rule record_checks_Inr [OF begins(3)])
    then have "writer_ok (rg_store rg) (Inserting i e)" using w begins(2) by simp
    then show ?thesis using r by (simp add: read_inv_def begins(1) live_session_def)
  next
    case (inserts i e)
    then obtain s where s: "sessions (rg_store rg) i = Some s" "re_PlayerID e \<in> set (PlayerIDs s) - dom (Results s)"
      "entry_ok (re_PlayerID e) e" "store_inv (rg_store rg)" using w by auto
    then have "session_inv i s" by (simp add: store_inv_def)
    note put = put_entry_mid [OF this s(2,3)]
    have "writer_ok (on_session i (put_entry e) (rg_store rg)) (Inserted i)"
      using s(1,4) put by (simp add: store_inv_def)
    moreover have "reader_ok sid (live_session sid rg') (rg_began rg) (rg_reader rg)"
      unfolding inserts(1) by (rule reader_ok_on [OF r]) (use s(1) put in simp)
    ultimately show ?thesis by (simp add: read_inv_def inserts)
  next
    case (unlocks i s)
    then have "mid_ok i s" "\<not> Finalized s" "EndedAt s = zero_time"
      and rest: "\<forall>j t. j \<noteq> i \<longrightarrow> sessions (rg_store rg) j = Some t \<longrightarrow> session_inv j t"
      using w by (auto simp: live_session_def GetSession_def)
    then have "session_inv i s" using unlocks(4) by (auto simp: session_inv_def mid_ok_def complete_def)
    then have "store_inv (rg_store rg)"
      unfolding store_inv_def using rest unlocks(3) by (metis GetSession_def live_session_def option.inject)
    then show ?thesis using r by (simp add: read_inv_def unlocks live_session_def)
  next
    case (marks i s)
    then have s: "sessions (rg_store rg) i = Some s" "mid_ok i s" "PlayerIDs s \<noteq> []"
      and rest: "\<forall>j t. j \<noteq> i \<longrightarrow> sessions (rg_store rg) j = Some t \<longrightarrow> session_inv j t"
      using w by (auto simp: live_session_def GetSession_def)
    have "writer_ok (on_session i set_final (rg_store rg)) (Marked i)"
      using s rest marks(4) by (auto simp: mid_ok_def set_final_def complete_def)
    moreover have "reader_ok sid (live_session sid rg') (rg_began rg) (rg_reader rg)"
      unfolding marks(1) by (rule reader_ok_on [OF r]) (simp add: grows_def set_final_def)
    ultimately show ?thesis by (simp add: read_inv_def marks)
  next
    case (ends i now)
    then obtain s where s: "sessions (rg_store rg) i = Some s" "mid_ok i s" "Finalized s" "PlayerIDs s \<noteq> []"
      and rest: "\<forall>j t. j \<noteq> i \<longrightarrow> sessions (rg_store rg) j = Some t \<longrightarrow> session_inv j t"
      using w by auto
    have "session_inv i (set_ended now s)"
      using mid_final [OF s(2) _ s(4), of now] s(2,3) by (simp add: mid_ok_def set_final_def session_inv_def set_ended_def)
    then have "store_inv (on_session i (set_ended now) (rg_store rg))" by (rule store_inv_upd [OF rest s(1)])
    moreover have "reader_ok sid (live_session sid rg') (rg_began rg) (rg_reader rg)"
      unfolding ends(1) by (rule reader_ok_on [OF r]) (simp add: grows_def set_ended_def)
    ultimately show ?thesis by (simp add: read_inv_def ends)
  next
    case (creates i now pids)
    have "live_session sid rg' = live_session sid rg \<or> live_session sid rg = None"
      using creates by (auto simp: live_session_def GetSession_def CreateSession_def)
    then have "reader_ok sid (live_session sid rg') (rg_began rg) (rg_reader rg)"
    proof
      assume "live_session sid rg = None"
      then have "rg_began rg = Map.empty" "rg_reader rg = Looking \<or> (\<exists>err. rg_reader rg = Answered (None, err))"
        using r by simp_all
      then show ?thesis by (cases "live_session sid rg'") auto
    qed (use r in simp)
    then show ?thesis using w creates CreateSession_inv by (simp add: read_inv_def)
  next
    case looks
    have "live_session sid rg' = live_session sid rg" by (simp add: looks(1) live_session_def)
    then show ?thesis using w looks
      by (cases "live_session sid rg") (auto simp: read_inv_def listed_def reply_error_def)
  next
    case (visits s k r')
    then obtain seen acc e where at: "rg_reader rg = Ranging seen acc" and e: "Results s k = Some e" "k \<notin> seen"
      and r': "r' = Ranging (insert k seen) (acc @ [player_result e])"
      by (auto simp: visit_def split: reader.splits option.splits if_splits)
    have s: "sessions (rg_store rg) sid = Some s" using visits(2) by (simp add: live_session_def GetSession_def)
    have k: "pr_PlayerId (player_result e) = k"
      using writer_entries(1) [OF w s e(1)] by (simp add: entry_ok_def player_result_def)
    have "live_session sid rg' = Some s" by (simp add: visits(1) s live_session_def GetSession_def)
    moreover have "reader_ok sid (Some s) (rg_began rg) (Ranging seen acc)" using r at visits(2) by simp
    then have "reader_ok sid (Some s) (rg_began rg) r'"
      using e k unfolding r' by (auto simp: listed_def)
    ultimately show ?thesis using w by (simp add: read_inv_def visits(1))
  next
    case (leaves seen acc)
    then show ?thesis using inv by (cases "live_session sid rg") (auto simp: read_inv_def live_session_def)
  next
    case (crashes seen acc)
    then show ?thesis using inv by (cases "live_session sid rg") (auto simp: read_inv_def live_session_def)
  next
    case (reads acc ended)
    show ?thesis
    proof (cases "live_session sid rg")
      case (Some s)
      then have "SessionID s = sid" using writer_entries(2) [OF w] by (simp add: live_session_def GetSession_def)
      then show ?thesis using inv reads Some by (auto simp: read_inv_def live_session_def reply_ok_def)
    qed (use inv reads in \<open>auto simp: read_inv_def live_session_def\<close>)
  qed
qed

interpretation snapshot: inductive_invariant read_init "read_step sid" "read_inv sid" for sid
proof unfold_locales
  show "read_inv sid rg" if "read_init rg" for rg
    using that by (cases "live_session sid rg") (auto simp: read_inv_def read_init_def)
qed (rule read_inv_step)

section \<open>Undisturbed\<close>

text \<open>With nobody writing, the reader's steps give what \<open>TrackerGetSession\<close> computes, in any order of the map.\<close>

lemma reader_visits:
  assumes "live_session sid rg = Some s" "rg_writer rg = Unlocked" "rg_reader rg = Ranging seen acc"
    and "distinct ks" "set ks \<subseteq> dom (Results s)" "set ks \<inter> seen = {}"
  shows "(read_step sid)\<^sup>*\<^sup>* rg (rg\<lparr>rg_reader := Ranging (seen \<union> set ks) (acc @ map (\<lambda>k. player_result (the (Results s k))) ks)\<rparr>)"
  using assms
proof (induction ks arbitrary: rg seen acc)
  case Nil
  then have "rg\<lparr>rg_reader := Ranging (seen \<union> set []) (acc @ map (\<lambda>k. player_result (the (Results s k))) [])\<rparr> = rg" by simp
  then show ?case by simp
next
  case (Cons k ks)
  define rg1 where "rg1 = rg\<lparr>rg_reader := Ranging (insert k seen) (acc @ [player_result (the (Results s k))])\<rparr>"
  have "visit k s (rg_reader rg) = Some (rg_reader rg1)" using Cons.prems(3,5,6) by (auto simp: visit_def rg1_def)
  then have step: "read_step sid rg rg1"
    using read_step.visits [of sid rg s k "rg_reader rg1"] Cons.prems(1,2) by (simp add: writing_def rg1_def)
  have "(read_step sid)\<^sup>*\<^sup>* rg1 (rg1\<lparr>rg_reader := Ranging (insert k seen \<union> set ks)
      ((acc @ [player_result (the (Results s k))]) @ map (\<lambda>k. player_result (the (Results s k))) ks)\<rparr>)"
    by (rule Cons.IH) (use Cons.prems in \<open>auto simp: rg1_def live_session_def\<close>)
  then show ?case using step by (simp add: rg1_def converse_rtranclp_into_rtranclp)
qed

lemma reader_alone:
  assumes "rg_writer rg = Unlocked" "rg_reader rg = Looking" "covers ks (Results (the (live_session sid rg)))"
  shows "\<exists>began. (read_step sid)\<^sup>*\<^sup>* rg (rg\<lparr>rg_began := began, rg_reader := Answered (TrackerGetSession ks \<lparr>gs_SessionId = sid\<rparr> (rg_store rg))\<rparr>)"
proof -
  define began where "began = (case live_session sid rg of None \<Rightarrow> Map.empty | Some s \<Rightarrow> Results s)"
  define rg1 where "rg1 = rg\<lparr>rg_began := began, rg_reader := reader_turn_at sid (live_session sid rg) Looking\<rparr>"
  have one: "read_step sid rg rg1"
    unfolding rg1_def began_def using read_step.looks [OF assms(2,1), of sid] by simp
  show ?thesis
  proof (cases "sid = [] \<or> live_session sid rg = None")
    case True
    then have "rg1 = rg\<lparr>rg_began := began, rg_reader := Answered (TrackerGetSession ks \<lparr>gs_SessionId = sid\<rparr> (rg_store rg))\<rparr>"
      by (auto simp: rg1_def TrackerGetSession_def live_session_def)
    then show ?thesis using one by (metis r_into_rtranclp)
  next
    case False
    then obtain s where s: "live_session sid rg = Some s" "sid \<noteq> []" by blast
    let ?ks = "range_keys ks (Results s)"
    let ?acc = "map (\<lambda>k. player_result (the (Results s k))) ?ks"
    have ks: "set ?ks = dom (Results s)" "distinct ?ks"
      using assms(3) s by (simp_all add: set_range_keys distinct_range_keys)
    let ?rg2 = "rg1\<lparr>rg_reader := Ranging ({} \<union> set ?ks) ([] @ ?acc)\<rparr>" and ?rg3 = "rg1\<lparr>rg_reader := Dating ?acc\<rparr>"
      and ?rg4 = "rg1\<lparr>rg_reader := Flagging ?acc (UnixMilli (EndedAt s))\<rparr>"
    let ?rg5 = "rg1\<lparr>rg_reader := Answered (TrackerGetSession ks \<lparr>gs_SessionId = sid\<rparr> (rg_store rg))\<rparr>"
    have "(read_step sid)\<^sup>*\<^sup>* rg1 ?rg2"
      by (rule reader_visits) (use s ks assms in \<open>simp_all add: rg1_def live_session_def\<close>)
    moreover have "read_step sid ?rg2 ?rg3"
      using read_step.leaves [of ?rg2 "{} \<union> set ?ks" "[] @ ?acc" sid] ks s assms by (simp add: rg1_def writing_def began_def)
    moreover have "read_step sid ?rg3 ?rg4"
      using read_step.reads [of ?rg3 ?acc undefined sid] s by (simp add: live_session_def rg1_def)
    moreover have "read_step sid ?rg4 ?rg5"
      using read_step.reads [of ?rg4 ?acc "UnixMilli (EndedAt s)" sid] s by (simp add: live_session_def rg1_def TrackerGetSession_def)
    ultimately have "(read_step sid)\<^sup>*\<^sup>* rg1 ?rg5" by (meson rtranclp.rtrancl_into_rtrancl)
    then have "(read_step sid)\<^sup>*\<^sup>* rg ?rg5"
      by (rule converse_rtranclp_into_rtranclp [of "read_step sid", OF one])
    then show ?thesis by (intro exI [of _ began]) (simp add: rg1_def)
  qed
qed

section \<open>Properties\<close>

text \<open>C14: whatever is recorded while a summary is being read, the summary lists only recorded entries, each
  player once, and among them every one that was there when the loop over the results began; the id
  and the start time are those of the session, and \<open>finalized\<close> is not claimed before it is so. Undisturbed,
  it is the stored session.\<close>

theorem GetSession_concurrent:
  assumes "reachable read_init (read_step sid) rg" "rg_reader rg = Answered (Some m, err)"
  shows "\<exists>s. GetSession sid (rg_store rg) = Some s \<and> err = None \<and> ss_SessionId m = sid
    \<and> distinct (map pr_PlayerId (ss_Results m))
    \<and> (\<forall>x \<in> set (ss_Results m). \<exists>e. Results s (pr_PlayerId x) = Some e \<and> x = player_result e)
    \<and> (\<forall>pid e. rg_began rg pid = Some e \<longrightarrow> player_result e \<in> set (ss_Results m))
    \<and> ss_StartedAtMs m = UnixMilli (StartedAt s) \<and> (ss_Finalized m \<longrightarrow> Finalized s)"
proof -
  have inv: "read_inv sid rg" by (rule snapshot.reachable_inv [OF assms(1)])
  then obtain s where s: "GetSession sid (rg_store rg) = Some s"
    using assms(2) by (cases "live_session sid rg") (auto simp: read_inv_def live_session_def)
  with inv assms(2) have ok: "listed s (ss_Results m)" "dom (rg_began rg) \<subseteq> pr_PlayerId ` set (ss_Results m)"
    "rg_began rg \<subseteq>\<^sub>m Results s" "err = None" "ss_SessionId m = sid" "ss_StartedAtMs m = UnixMilli (StartedAt s)"
    "ss_Finalized m \<longrightarrow> Finalized s"
    by (auto simp: read_inv_def live_session_def)
  have "player_result e \<in> set (ss_Results m)" if e: "rg_began rg pid = Some e" for pid e
  proof -
    obtain x where x: "x \<in> set (ss_Results m)" "pr_PlayerId x = pid" using ok(2) e by blast
    moreover have "Results s pid = Some e" using ok(3) e by (metis domI map_le_def)
    ultimately show ?thesis using ok(1) by (auto simp: listed_def)
  qed
  with s ok show ?thesis by (auto simp: listed_def)
qed

text \<open>The store of \<open>duel\<close>, where Ann has submitted and Bob is about to.\<close>

definition ann_entry :: ResultEntry where
  "ann_entry = \<lparr>re_PlayerID = ''ann'', re_Result = 1, re_Score = 30, MMRDelta = 25\<rparr>"

definition bob_entry :: ResultEntry where
  "bob_entry = \<lparr>re_PlayerID = ''bob'', re_Result = 2, re_Score = 20, MMRDelta = - 25\<rparr>"

definition half_played :: Session where
  "half_played = \<lparr>SessionID = ''s1'', PlayerIDs = [''ann'', ''bob''], Results = [''ann'' \<mapsto> ann_entry],
     StartedAt = 7, EndedAt = zero_time, Finalized = False\<rparr>"

definition reading_start :: Reading where
  "reading_start = \<lparr>rg_store = \<lparr>sessions = [''s1'' \<mapsto> half_played]\<rparr>, rg_writer = Unlocked, rg_reader = Looking, rg_began = Map.empty\<rparr>"

lemma half_session_inv: "session_inv ''s1'' half_played"
  by (auto simp: session_inv_def half_played_def entry_ok_def ann_entry_def result_delta_def MMRWinDelta_def)

lemma reading_init: "reachable read_init (read_step sid) reading_start"
  by (rule reachable.start) (use half_session_inv in \<open>simp add: read_init_def reading_start_def store_inv_def\<close>)

lemma bob_checks: "record_checks ''s1'' ''bob'' 2 20 (rg_store reading_start) = Inr bob_entry"
  by (simp add: record_checks_def reading_start_def half_played_def result_delta_def MMRLossDelta_def bob_entry_def)

theorem GetSession_concurrent_witness:
  "\<exists>rg m. reachable read_init (read_step ''s1'') rg \<and> rg_reader rg = Answered (Some m, None)
     \<and> player_result ann_entry \<in> set (ss_Results m) \<and> distinct (map pr_PlayerId (ss_Results m))"
proof -
  have live: "live_session ''s1'' reading_start = Some half_played"
    by (simp add: live_session_def GetSession_def reading_start_def)
  have "covers [''ann''] (Results (the (live_session ''s1'' reading_start)))"
    unfolding live by (auto simp: covers_def half_played_def)
  then obtain began where run: "(read_step ''s1'')\<^sup>*\<^sup>* reading_start (reading_start\<lparr>rg_began := began,
      rg_reader := Answered (TrackerGetSession [''ann''] \<lparr>gs_SessionId = ''s1''\<rparr> (rg_store reading_start))\<rparr>)"
    using reader_alone [of reading_start "[''ann'']" "''s1''"] by (auto simp: reading_start_def)
  obtain m where m: "TrackerGetSession [''ann''] \<lparr>gs_SessionId = ''s1''\<rparr> (rg_store reading_start) = (Some m, None)"
    and ann: "player_result ann_entry \<in> set (ss_Results m)"
    by (simp add: TrackerGetSession_def GetSession_def reading_start_def half_played_def reply_ok_def range_keys_def)
  note r = reachable_steps [OF run reading_init]
  from GetSession_concurrent [OF r, of m None] m ann r show ?thesis
    by (intro exI [of _ "reading_start\<lparr>rg_began := began,
        rg_reader := Answered (TrackerGetSession [''ann''] \<lparr>gs_SessionId = ''s1''\<rparr> (rg_store reading_start))\<rparr>"] exI [of _ m])
      auto
qed

text \<open>The reader has listed Ann and read the end time; then Bob's result is recorded.\<close>

lemma read_again: "reachable read_init (read_step sid) rg \<Longrightarrow> read_step sid rg rg' \<Longrightarrow> reachable read_init (read_step sid) rg'"
  by (rule reachable.move)

definition bob_store :: SessionStore where
  "bob_store = on_session ''s1'' set_final (on_session ''s1'' (put_entry bob_entry) (rg_store reading_start))"

lemma begun_reading:
  "reachable read_init (read_step ''s1'') (reading_start\<lparr>rg_began := [''ann'' \<mapsto> ann_entry], rg_reader := Ranging {} []\<rparr>)"
proof (rule read_again [OF reading_init])
  from read_step.looks [of reading_start "''s1''"]
  show "read_step ''s1'' reading_start (reading_start\<lparr>rg_began := [''ann'' \<mapsto> ann_entry], rg_reader := Ranging {} []\<rparr>)"
    by (simp add: reading_start_def live_session_def GetSession_def half_played_def)
qed

lemma ann_listed:
  "reachable read_init (read_step ''s1'') (reading_start\<lparr>rg_began := [''ann'' \<mapsto> ann_entry],
     rg_reader := Flagging [player_result ann_entry] (UnixMilli zero_time)\<rparr>)"
proof -
  let ?r = "\<lambda>x. reading_start\<lparr>rg_began := [''ann'' \<mapsto> ann_entry], rg_reader := x\<rparr>"
  have live: "live_session ''s1'' (?r x) = Some half_played" "\<not> writing ''s1'' (?r x)" for x
    by (simp_all add: live_session_def GetSession_def reading_start_def writing_def)
  have "read_step ''s1'' (?r (Ranging {} [])) (?r (Ranging {''ann''} [player_result ann_entry]))"
    using read_step.visits [OF live, of "''ann''" "Ranging {} []" "Ranging {''ann''} [player_result ann_entry]"]
    by (simp add: visit_def half_played_def)
  moreover have "read_step ''s1'' (?r (Ranging {''ann''} [player_result ann_entry])) (?r (Dating [player_result ann_entry]))"
    using read_step.leaves [of "?r (Ranging {''ann''} [player_result ann_entry])" "{''ann''}" "[player_result ann_entry]", OF _ live(2)]
    by simp
  moreover have "read_step ''s1'' (?r (Dating [player_result ann_entry])) (?r (Flagging [player_result ann_entry] (UnixMilli zero_time)))"
    using read_step.reads [of "?r (Dating [player_result ann_entry])" "[player_result ann_entry]" undefined "''s1''"] live(1)
    by (simp add: half_played_def)
  ultimately show ?thesis using begun_reading by (meson read_again)
qed

lemma bob_recorded:
  assumes "reachable read_init (read_step sid) (reading_start\<lparr>rg_began := b, rg_reader := x\<rparr>)"
  shows "reachable read_init (read_step sid) (reading_start\<lparr>rg_began := b, rg_reader := x, rg_writer := Inserting ''s1'' bob_entry\<rparr>)"
    and "reachable read_init (read_step sid) (reading_start\<lparr>rg_began := b, rg_reader := x, rg_writer := Marked ''s1'', rg_store := bob_store\<rparr>)"
proof -
  let ?w = "\<lambda>ss w. reading_start\<lparr>rg_began := b, rg_reader := x, rg_writer := w, rg_store := ss\<rparr>"
  let ?ss = "rg_store reading_start"
  have "read_step sid (reading_start\<lparr>rg_began := b, rg_reader := x\<rparr>) (?w ?ss (Inserting ''s1'' bob_entry))"
    using read_step.begins [of "reading_start\<lparr>rg_began := b, rg_reader := x\<rparr>" "''s1''" "''bob''" 2 20 bob_entry sid] bob_checks
    by (simp add: reading_start_def)
  then have one: "reachable read_init (read_step sid) (?w ?ss (Inserting ''s1'' bob_entry))" by (rule read_again [OF assms])
  then show "reachable read_init (read_step sid) (reading_start\<lparr>rg_began := b, rg_reader := x, rg_writer := Inserting ''s1'' bob_entry\<rparr>)"
    by (simp add: reading_start_def)
  have two: "read_step sid (?w ?ss (Inserting ''s1'' bob_entry)) (?w (on_session ''s1'' (put_entry bob_entry) ?ss) (Inserted ''s1''))"
    using read_step.inserts [of "?w ?ss (Inserting ''s1'' bob_entry)" "''s1''" bob_entry sid] by (simp add: reading_start_def)
  have "complete (put_entry bob_entry half_played)"
    by (simp add: complete_def put_entry_def half_played_def bob_entry_def)
  then have "read_step sid (?w (on_session ''s1'' (put_entry bob_entry) ?ss) (Inserted ''s1'')) (?w bob_store (Marked ''s1''))"
    using read_step.marks [of "?w (on_session ''s1'' (put_entry bob_entry) ?ss) (Inserted ''s1'')" "''s1''" _ sid]
    by (simp add: live_session_def GetSession_def reading_start_def bob_store_def)
  then have "reachable read_init (read_step sid) (?w bob_store (Marked ''s1''))" by (rule read_again [OF read_again [OF one two]])
  then show "reachable read_init (read_step sid) (reading_start\<lparr>rg_began := b, rg_reader := x, rg_writer := Marked ''s1'', rg_store := bob_store\<rparr>)"
    by simp
qed

text \<open>C21: and it may be more than a stale snapshot: a summary can claim to be final and lack a result and the end
  time, a state that the session was never in; and when the loop meets a recording in the middle of
  its map assignment, the runtime may end the process.\<close>

theorem GetSession_torn:
  "(\<exists>rg m. reachable read_init (read_step ''s1'') rg \<and> rg_reader rg = Answered (Some m, None) \<and> ss_Finalized m
      \<and> map pr_PlayerId (ss_Results m) = [''ann''] \<and> map_option PlayerIDs (live_session ''s1'' rg) = Some [''ann'', ''bob'']
      \<and> ss_EndedAtMs m = - 62135596800000)
   \<and> (\<exists>rg. reachable read_init (read_step ''s1'') rg \<and> rg_reader rg = Fatal)"
proof
  let ?rg = "reading_start\<lparr>rg_began := [''ann'' \<mapsto> ann_entry], rg_reader := Flagging [player_result ann_entry] (UnixMilli zero_time),
     rg_writer := Marked ''s1'', rg_store := bob_store\<rparr>"
  let ?m = "\<lparr>ss_SessionId = ''s1'', ss_Results = [player_result ann_entry], ss_StartedAtMs = UnixMilli 7,
     ss_EndedAtMs = UnixMilli zero_time, ss_Finalized = True\<rparr>"
  have live: "live_session ''s1'' ?rg = Some (set_final (put_entry bob_entry half_played))"
    by (simp add: live_session_def GetSession_def bob_store_def reading_start_def)
  have "reachable read_init (read_step ''s1'') ?rg" by (rule bob_recorded(2) [OF ann_listed])
  moreover have "read_step ''s1'' ?rg (?rg\<lparr>rg_reader := Answered (Some ?m, None)\<rparr>)"
    using read_step.reads [of ?rg "[player_result ann_entry]" "UnixMilli zero_time" "''s1''"] live
    by (simp add: reply_ok_def set_final_def put_entry_def half_played_def)
  ultimately have "reachable read_init (read_step ''s1'') (?rg\<lparr>rg_reader := Answered (Some ?m, None)\<rparr>)" by (rule read_again)
  moreover have "map_option PlayerIDs (live_session ''s1'' (?rg\<lparr>rg_reader := Answered (Some ?m, None)\<rparr>)) = Some [''ann'', ''bob'']"
    using live by (simp add: live_session_def set_final_def put_entry_def half_played_def)
  ultimately show "\<exists>rg m. reachable read_init (read_step ''s1'') rg \<and> rg_reader rg = Answered (Some m, None) \<and> ss_Finalized m
      \<and> map pr_PlayerId (ss_Results m) = [''ann''] \<and> map_option PlayerIDs (live_session ''s1'' rg) = Some [''ann'', ''bob'']
      \<and> ss_EndedAtMs m = - 62135596800000"
    by (intro exI [of _ "?rg\<lparr>rg_reader := Answered (Some ?m, None)\<rparr>"] exI [of _ ?m])
      (simp add: player_result_def ann_entry_def UnixMilli_def zero_time_def)
  let ?c = "reading_start\<lparr>rg_began := [''ann'' \<mapsto> ann_entry], rg_reader := Ranging {} [], rg_writer := Inserting ''s1'' bob_entry\<rparr>"
  have "read_step ''s1'' ?c (?c\<lparr>rg_reader := Fatal\<rparr>)" by (rule read_step.crashes [of _ "{}" "[]"]) (simp_all add: writing_def)
  then have "reachable read_init (read_step ''s1'') (?c\<lparr>rg_reader := Fatal\<rparr>)"
    by (rule read_again [OF bob_recorded(1) [OF begun_reading]])
  then show "\<exists>rg. reachable read_init (read_step ''s1'') rg \<and> rg_reader rg = Fatal"
    by (intro exI [of _ "?c\<lparr>rg_reader := Fatal\<rparr>"]) simp
qed

end
