(* ===== verification/Nexus_Timing.thy ===== *)
theory Nexus_Timing
  imports Nexus_ReadyCheck Nexus_Gateway
begin

text \<open>
  The two timeouts of a ready check: the gateway gives its client ten seconds from the moment it has sent
  READY_CHECK, the coordinator gives the room twelve from its launch. Elsewhere a timer may fire at any
  time; here one ready check runs against a clock in milliseconds, with the idealisation that
  goroutines which can go on do so before time passes. \<open>lag\<close> bounds how long after the launch a gateway
  starts its timer: a gateway is busy until then with the send, or with its previous turn. Every
  gateway of the room gets that far; one whose send fails never answers, and then the coordinator's
  deadline is what ends the room.
\<close>

section \<open>Timeouts\<close>

definition readyCheckTimeout :: nat where "readyCheckTimeout = 10 * 1000"
definition readyCheckCoordTimeout :: nat where "readyCheckCoordTimeout = 12 * 1000"

section \<open>A ready check on a clock\<close>

record Timed =
  tm_now :: nat
  tm_check :: check
  tm_timer :: "nat \<rightharpoonup> nat"

definition said :: "Room \<Rightarrow> check \<Rightarrow> nat \<Rightarrow> bool \<Rightarrow> bool" where
  "said r c i v \<longleftrightarrow> (rm_responses r ! i, v) \<in> set (ck_sent c)"

text \<open>
  Until when the clock may go on for slot \<open>i\<close>: its gateway has to start its timer and, when the timer
  fires, to answer.
\<close>

definition slot_waits :: "nat \<Rightarrow> Room \<Rightarrow> Timed \<Rightarrow> nat \<Rightarrow> nat \<Rightarrow> bool" where
  "slot_waits lag r T now i \<longleftrightarrow> (case tm_timer T i of
       None \<Rightarrow> now \<le> lag
     | Some since \<Rightarrow> (\<exists>v. said r (tm_check T) i v) \<or> now \<le> since + readyCheckTimeout)"

inductive timed_step :: "(nat \<Rightarrow> nat \<Rightarrow> nat) \<Rightarrow> nat \<Rightarrow> Room \<Rightarrow> Timed \<Rightarrow> Timed \<Rightarrow> bool" for grow lag r where
  works: "co_step grow (tm_check T) c \<Longrightarrow> timed_step grow lag r T (T\<lparr>tm_check := c\<rparr>)"
| asks: "i < length (rm_players r) \<Longrightarrow> tm_timer T i = None
     \<Longrightarrow> timed_step grow lag r T (T\<lparr>tm_timer := (tm_timer T)(i \<mapsto> tm_now T)\<rparr>)"
| answers: "tm_timer T i = Some since \<Longrightarrow> \<forall>v. \<not> said r (tm_check T) i v
     \<Longrightarrow> chan_try_send (rm_responses r ! i) v (ck_bools (tm_check T)) = Ret (True, B)
     \<Longrightarrow> timed_step grow lag r T (T\<lparr>tm_check := (tm_check T)\<lparr>ck_bools := B, ck_sent := ck_sent (tm_check T) @ [(rm_responses r ! i, v)]\<rparr>\<rparr>)"
| reads: "i < length (rm_players r) \<Longrightarrow> chan_recv (rm_results r ! i) (ck_bools (tm_check T)) = (out, B)
     \<Longrightarrow> timed_step grow lag r T (T\<lparr>tm_check := (tm_check T)\<lparr>ck_bools := B\<rparr>\<rparr>)"
| pools: "timed_step grow lag r T (T\<lparr>tm_check := (tm_check T)\<lparr>ck_pool := p\<rparr>\<rparr>)"
| strikes: "tm_now T = readyCheckCoordTimeout
     \<Longrightarrow> timed_step grow lag r T (T\<lparr>tm_check := (tm_check T)\<lparr>ck_co := deadline (ck_co (tm_check T))\<rparr>\<rparr>)"
| passes: "tm_now T < now \<Longrightarrow> \<nexists>c. co_step grow (tm_check T) c \<Longrightarrow> \<forall>i < length (rm_players r). slot_waits lag r T now i
     \<Longrightarrow> co_done (ck_co (tm_check T)) \<or> now \<le> readyCheckCoordTimeout \<Longrightarrow> timed_step grow lag r T (T\<lparr>tm_now := now\<rparr>)"

definition timed_init :: "Room \<Rightarrow> Timed \<Rightarrow> bool" where
  "timed_init r T \<longleftrightarrow> check_init r (tm_check T) \<and> tm_now T = 0 \<and> tm_timer T = Map.empty"

section \<open>Nothing is left lying about\<close>

text \<open>When every slot has been answered, a gathering coordinator can go on.\<close>

definition in_hand :: "Room \<Rightarrow> check \<Rightarrow> nat \<Rightarrow> bool" where
  "in_hand r c i \<longleftrightarrow> (\<exists>ch. cells (ck_bools c) (rm_responses r ! i) = Some ch \<and> ch_buf ch \<noteq> [])"

lemma answered_goes_on:
  assumes inv: "check_inv r c" and at: "co_at (ck_co c) = Gathering"
    and all: "\<forall>i < length (rm_players r). i \<in> set (co_listening (ck_co c)) \<longrightarrow> in_hand r c i"
  shows "\<exists>c'. co_step grow c c'"
proof -
  have room: "co_room (ck_co c) = r" and idx: "index_ok (ck_co c)" using inv by (simp_all add: check_inv_def room_ok_def)
  show ?thesis
  proof (cases "co_listening (ck_co c)")
    case (Cons i js)
    then have i: "i \<in> set (co_listening (ck_co c))" "i < length (rm_players r)" using idx room by (auto simp: index_ok_def)
    then obtain ch v vs where "cells (ck_bools c) (rm_responses r ! i) = Some ch" "ch_buf ch = v # vs"
      using all by (auto simp: in_hand_def neq_Nil_conv)
    then have "\<exists>co B. fan_in_recv i (ck_co c) (ck_bools c) = Some (co, B)"
      using i room by (simp add: fan_in_recv_def chan_recv_def)
    then show ?thesis by (metis co_step.fan_in)
  next
    case none: Nil
    show ?thesis
    proof (cases "co_received (ck_co c) < length (rm_players r)")
      case False
      then have "\<exists>co ss. confirm 0 (ck_co c) (ck_sessions c) = Some (co, ss)" using at room by (simp add: confirm_def)
      then show ?thesis by (metis co_step.confirmed)
    next
      case True
      have "co_fanIn (ck_co c) \<noteq> []"
      proof
        assume "co_fanIn (ck_co c) = []"
        then have "{i. i < co_size (ck_co c) \<and> co_accepted (ck_co c) ! i} = {..<co_size (ck_co c)}"
          using idx none at by (auto simp: index_ok_def)
        then have "co_received (ck_co c) = co_size (ck_co c)" using idx at by (simp add: index_ok_def)
        with True room show False by simp
      qed
      then have "\<exists>co. gather (ck_co c) = Some co"
        using at True room by (auto simp: gather_def Let_def neq_Nil_conv split: list.split)
      then show ?thesis by (metis co_step.gathered)
    qed
  qed
qed

lemma ended_goes_on:
  assumes "check_inv r c" "co_at (ck_co c) \<noteq> Gathering" "co_at (ck_co c) \<noteq> Finished"
  shows "\<exists>c'. co_step grow c c'"
proof (cases "co_at (ck_co c)")
  case (Publishing cs)
  with publish_runs [of r "ck_co c" "ck_bools c"] assms(1) show ?thesis by (metis check_inv_def co_step.published)
next
  case (Requeueing qs)
  then have "\<exists>co p. requeue grow (ck_co c) (ck_pool c) = Some (co, p)" by (cases qs) (simp_all add: requeue_def)
  then show ?thesis by (metis co_step.requeued)
qed (use assms in simp_all)

section \<open>The invariant\<close>

definition declined :: "Room \<Rightarrow> check \<Rightarrow> bool" where
  "declined r c \<longleftrightarrow> (\<exists>i < length (rm_players r). said r c i False)"

definition hand_inv :: "Room \<Rightarrow> check \<Rightarrow> bool" where
  "hand_inv r c \<longleftrightarrow> (\<forall>i < length (rm_players r). \<forall>v. i \<in> set (co_listening (ck_co c)) \<longrightarrow> said r c i v \<longrightarrow> in_hand r c i)"

lemma hand_cong:
  assumes "hand_inv r c" "set (co_listening (ck_co c')) \<subseteq> set (co_listening (ck_co c))" "ck_sent c' = ck_sent c"
    and "\<And>i. i < length (rm_players r) \<Longrightarrow> i \<in> set (co_listening (ck_co c')) \<Longrightarrow>
        cells (ck_bools c') (rm_responses r ! i) = cells (ck_bools c) (rm_responses r ! i)"
  shows "hand_inv r c'"
  using assms unfolding hand_inv_def in_hand_def said_def by (metis subsetD)

lemma hand_works:
  assumes inv: "check_inv r c" and hand: "hand_inv r c" and step: "co_step grow c c'"
  shows "hand_inv r c'"
proof -
  have ok: "room_ok r (ck_co c)" "index_ok (ck_co c)" "results_ok r (ck_co c) (ck_bools c)" using inv by (simp_all add: check_inv_def)
  have room: "co_room (ck_co c) = r" using ok(1) by (simp add: room_ok_def)
  show ?thesis
    using step
  proof (cases rule: co_step.cases)
    case (fan_in j co B)
    then obtain out where recv: "chan_recv (rm_responses r ! j) (ck_bools c) = (out, B)" and l: "j \<in> set (co_listening (ck_co c))"
      and co: "co_listening co = remove1 j (co_listening (ck_co c))"
      using room by (auto simp: fan_in_recv_def split: if_splits prod.splits received.splits)
    have j: "j < length (rm_players r)" "distinct (co_listening (ck_co c))" using ok(2) l room by (auto simp: index_ok_def)
    have "cells B (rm_responses r ! i) = cells (ck_bools c) (rm_responses r ! i)"
      if "i < length (rm_players r)" "i \<in> set (co_listening co)" for i
    proof -
      have "i \<noteq> j" using that(2) co j(2) by auto
      then show ?thesis using room_chans_apart(3) [OF ok(1) that(1) j(1)] chan_recv_other [OF recv] by simp
    qed
    moreover have "set (co_listening co) \<subseteq> set (co_listening (ck_co c))" using co set_remove1_subset by simp
    ultimately show ?thesis using fan_in(1) by (intro hand_cong [OF hand]) simp_all
  next
    case (fan_in_end j co)
    then show ?thesis
      by (intro hand_cong [OF hand]) (auto simp: fan_in_done_def split: if_splits dest: subsetD [OF set_remove1_subset])
  next
    case (published co B)
    then obtain cs where "co_at (ck_co c) = Publishing cs" using publish_at by blast
    then obtain co' H' where run: "publish (ck_co c) (ck_bools c) = Some (Ret (co', H'))"
      "\<And>d. d \<notin> set (rm_results r) \<Longrightarrow> cells H' d = cells (ck_bools c) d" "co_listening co' = co_listening (ck_co c)"
      by (rule publish_runs [OF ok(1,3)]) simp
    have "co' = co" "H' = B" using run(1) published(2) by simp_all
    note run(2,3) [unfolded this]
    then show ?thesis using published(1) room_chans_apart(1) [OF ok(1)] by (intro hand_cong [OF hand]) simp_all
  qed (use hand in \<open>auto simp: hand_inv_def in_hand_def said_def co_defs split: if_splits list.splits co_pc.splits\<close>)
qed

text \<open>
  While nobody has declined, the coordinator gathers acceptances before its deadline, or has confirmed.
\<close>

definition on_time :: "Room \<Rightarrow> check \<Rightarrow> nat \<Rightarrow> bool" where
  "on_time r c now \<longleftrightarrow> declined r c \<or> co_at (ck_co c) \<noteq> Gathering \<and> co_allAccepted (ck_co c)
     \<or> co_at (ck_co c) = Gathering \<and> \<not> co_done (ck_co c) \<and> now < readyCheckCoordTimeout
       \<and> (\<forall>(i, v) \<in> set (co_fanIn (ck_co c)). v)"

lemma on_time_works:
  assumes inv: "check_inv r c" and time: "on_time r c now" and step: "co_step grow c c'"
  shows "on_time r c' now"
proof -
  have ok: "room_ok r (ck_co c)" "index_ok (ck_co c)" "responses_ok r c" using inv by (simp_all add: check_inv_def)
  have room: "co_room (ck_co c) = r" using ok(1) by (simp add: room_ok_def)
  have sent: "ck_sent c' = ck_sent c"
    using step by (cases rule: co_step.cases) simp_all
  show ?thesis
  proof (cases "declined r c")
    case True
    then show ?thesis using sent by (simp add: on_time_def declined_def said_def)
  next
    case False
    show ?thesis
      using step
    proof (cases rule: co_step.cases)
      case (fan_in j co B)
      then have j: "j < length (rm_players r)" using ok(2) room by (auto simp: fan_in_recv_def index_ok_def split: if_splits)
      then obtain ch where ch: "cells (ck_bools c) (rm_responses r ! j) = Some ch" "\<not> ch_closed ch"
        "\<forall>v \<in> set (ch_buf ch). (rm_responses r ! j, v) \<in> set (ck_sent c)"
        using ok(3) by (auto simp: responses_ok_def)
      have true: "\<forall>v \<in> set (ch_buf ch). v"
      proof
        fix v
        assume "v \<in> set (ch_buf ch)"
        then have "said r c j v" using ch(3) by (simp add: said_def)
        then show v using False j by (cases v) (auto simp: declined_def)
      qed
      then have "co_fanIn co = co_fanIn (ck_co c) @ [(j, True)] \<and> co_at co = co_at (ck_co c)
          \<and> co_allAccepted co = co_allAccepted (ck_co c) \<and> co_done co = co_done (ck_co c)"
        using fan_in(2) ch room by (auto simp: fan_in_recv_def chan_recv_def split: if_splits list.splits)
      then show ?thesis using time False fan_in(1) by (auto simp: on_time_def declined_def said_def)
    next
      case (gathered co)
      then have "co_at (ck_co c) = Gathering" by (auto simp: gather_def split: if_splits)
      then show ?thesis
        using time False gathered by (auto simp: on_time_def gather_def declined_def said_def Let_def split: if_splits list.splits)
    next
      case (confirmed at co ss)
      then show ?thesis using ok(2) by (auto simp: on_time_def confirm_def index_ok_def split: if_splits)
    qed (use time False in \<open>auto simp: on_time_def declined_def said_def fan_in_done_def gather_timeout_def publish_def requeue_def
        split: if_splits co_pc.splits list.splits option.splits outcome.splits\<close>)
  qed
qed

definition timers_inv :: "nat \<Rightarrow> Room \<Rightarrow> Timed \<Rightarrow> bool" where
  "timers_inv lag r T \<longleftrightarrow> (\<forall>i since. tm_timer T i = Some since \<longrightarrow> i < length (rm_players r) \<and> since \<le> lag)
     \<and> (\<forall>i < length (rm_players r). tm_timer T i = None \<longrightarrow> tm_now T \<le> lag)"

definition timed_inv :: "nat \<Rightarrow> Room \<Rightarrow> Timed \<Rightarrow> bool" where
  "timed_inv lag r T \<longleftrightarrow> check_inv r (tm_check T) \<and> hand_inv r (tm_check T) \<and> timers_inv lag r T
     \<and> (lag + readyCheckTimeout < tm_now T \<longrightarrow> co_at (ck_co (tm_check T)) = Finished)
     \<and> (lag + readyCheckTimeout < readyCheckCoordTimeout \<longrightarrow> on_time r (tm_check T) (tm_now T))"

lemma timed_inv_works:
  assumes "timed_inv lag r T" "co_step grow (tm_check T) c"
  shows "timed_inv lag r (T\<lparr>tm_check := c\<rparr>)"
proof -
  have inv: "check_inv r (tm_check T)" using assms(1) by (simp add: timed_inv_def)
  have "check_step grow (tm_check T) c" using assms(2) by (simp add: check_step_def)
  then have "check_inv r c" by (rule check_inv_step [OF inv])
  moreover have "co_at (ck_co c) = Finished" if "co_at (ck_co (tm_check T)) = Finished"
    using assms(2) that
    by (cases rule: co_step.cases) (auto simp: co_defs split: if_splits prod.splits received.splits)
  ultimately show ?thesis
    using assms(1) hand_works [OF inv _ assms(2)] on_time_works [OF inv _ assms(2)]
    by (simp add: timed_inv_def timers_inv_def)
qed

lemma timed_inv_answers:
  assumes T: "timed_inv lag r T" and i: "tm_timer T i = Some since"
    and send: "chan_try_send (rm_responses r ! i) v (ck_bools (tm_check T)) = Ret (True, B)"
  shows "timed_inv lag r (T\<lparr>tm_check := (tm_check T)\<lparr>ck_bools := B, ck_sent := ck_sent (tm_check T) @ [(rm_responses r ! i, v)]\<rparr>\<rparr>)"
proof -
  let ?c = "tm_check T" and ?c' = "(tm_check T)\<lparr>ck_bools := B, ck_sent := ck_sent (tm_check T) @ [(rm_responses r ! i, v)]\<rparr>"
  have inv: "check_inv r ?c" and hand: "hand_inv r ?c" and n: "i < length (rm_players r)"
    using T i by (simp_all add: timed_inv_def timers_inv_def)
  have ok: "room_ok r (ck_co ?c)" using inv by (simp add: check_inv_def)
  then have room: "co_room (ck_co ?c) = r" by (simp add: room_ok_def)
  have "env_step ?c ?c'" using env_step.respond [of i ?c v B] n send room by simp
  then have "check_inv r ?c'" using check_inv_step [OF inv] by (auto simp: check_step_def)
  moreover have "hand_inv r ?c'"
    unfolding hand_inv_def
  proof (intro allI impI)
    fix j w
    assume j: "j < length (rm_players r)" "j \<in> set (co_listening (ck_co ?c'))" "said r ?c' j w"
    obtain ch where ch: "cells B (rm_responses r ! i) = Some ch" "ch_buf ch \<noteq> []"
      using send by (auto simp: chan_try_send_def split: option.splits if_splits)
    show "in_hand r ?c' j"
    proof (cases "j = i")
      case False
      then have ne: "rm_responses r ! j \<noteq> rm_responses r ! i" using room_chans_apart(3) [OF ok j(1) n] by simp
      then have "in_hand r ?c j" using hand j by (auto simp: hand_inv_def said_def)
      then show ?thesis using send ne by (auto simp: in_hand_def chan_try_send_def split: option.splits if_splits)
    qed (use ch in \<open>simp add: in_hand_def\<close>)
  qed
  moreover have "on_time r ?c' (tm_now T)" if "on_time r ?c (tm_now T)"
    using that by (auto simp: on_time_def declined_def said_def)
  ultimately show ?thesis using T by (simp add: timed_inv_def timers_inv_def)
qed

lemma timed_inv_reads:
  assumes T: "timed_inv lag r T" and i: "i < length (rm_players r)"
    and recv: "chan_recv (rm_results r ! i) (ck_bools (tm_check T)) = (out, B)"
  shows "timed_inv lag r (T\<lparr>tm_check := (tm_check T)\<lparr>ck_bools := B\<rparr>\<rparr>)"
proof -
  let ?c = "tm_check T"
  have inv: "check_inv r ?c" and hand: "hand_inv r ?c" using T by (simp_all add: timed_inv_def)
  have ok: "room_ok r (ck_co ?c)" using inv by (simp add: check_inv_def)
  then have room: "co_room (ck_co ?c) = r" "rm_results r ! i \<in> set (rm_results r)" using i by (simp_all add: room_ok_def)
  have "env_step ?c (?c\<lparr>ck_bools := B\<rparr>)" using env_step.take_result [of i ?c out B] i recv room by simp
  then have "check_inv r (?c\<lparr>ck_bools := B\<rparr>)" using check_inv_step [OF inv] by (auto simp: check_step_def)
  moreover have "rm_responses r ! j \<noteq> rm_results r ! i" if "j < length (rm_players r)" for j
    using room_chans_apart(1) [OF ok that] room(2) by metis
  then have "hand_inv r (?c\<lparr>ck_bools := B\<rparr>)"
    using chan_recv_other [OF recv] by (intro hand_cong [OF hand]) simp_all
  moreover have "on_time r (?c\<lparr>ck_bools := B\<rparr>) now = on_time r ?c now" for now
    by (simp add: on_time_def declined_def said_def)
  ultimately show ?thesis using T by (simp add: timed_inv_def timers_inv_def)
qed

text \<open>The clock stands still while anything is left to do, so nothing is late.\<close>

lemma timed_inv_passes:
  assumes T: "timed_inv lag r T" and now: "tm_now T < now" and quiet: "\<nexists>c. co_step grow (tm_check T) c"
    and slots: "\<forall>i < length (rm_players r). slot_waits lag r T now i"
    and limit: "co_done (ck_co (tm_check T)) \<or> now \<le> readyCheckCoordTimeout"
  shows "timed_inv lag r (T\<lparr>tm_now := now\<rparr>)"
proof -
  let ?c = "tm_check T"
  have inv: "check_inv r ?c" and hand: "hand_inv r ?c" and timers: "timers_inv lag r T" using T by (simp_all add: timed_inv_def)
  have heard: "\<exists>v. said r ?c i v" if "i < length (rm_players r)" "lag + readyCheckTimeout < now" for i
  proof (cases "tm_timer T i")
    case None
    have "slot_waits lag r T now i" using slots that(1) by simp
    then show ?thesis using None that(2) by (simp add: slot_waits_def)
  next
    case (Some since)
    have "since \<le> lag" using timers Some by (simp add: timers_inv_def)
    moreover have "slot_waits lag r T now i" using slots that(1) by simp
    ultimately show ?thesis using Some that(2) by (auto simp: slot_waits_def)
  qed
  have late: "co_at (ck_co ?c) = Finished" if over: "lag + readyCheckTimeout < now"
  proof -
    have all: "\<forall>i < length (rm_players r). i \<in> set (co_listening (ck_co ?c)) \<longrightarrow> in_hand r ?c i"
    proof (intro allI impI)
      fix i
      assume i: "i < length (rm_players r)" "i \<in> set (co_listening (ck_co ?c))"
      obtain v where "said r ?c i v" using heard [OF i(1) over] by blast
      with hand i show "in_hand r ?c i" unfolding hand_inv_def by blast
    qed
    show ?thesis
    proof (rule ccontr)
      assume "co_at (ck_co ?c) \<noteq> Finished"
      then have "\<exists>c'. co_step grow ?c c'"
        using answered_goes_on [OF inv _ all] ended_goes_on [OF inv] by (cases "co_at (ck_co ?c) = Gathering") simp_all
      with quiet show False by simp
    qed
  qed
  have "on_time r ?c now" if lag: "lag + readyCheckTimeout < readyCheckCoordTimeout"
  proof -
    have "on_time r ?c (tm_now T)" using T lag by (simp add: timed_inv_def)
    moreover have "now < readyCheckCoordTimeout" if "co_at (ck_co ?c) = Gathering" using that late lag by (cases "lag + readyCheckTimeout < now") auto
    ultimately show ?thesis by (auto simp: on_time_def)
  qed
  moreover have "timers_inv lag r (T\<lparr>tm_now := now\<rparr>)"
    using timers slots by (auto simp: timers_inv_def slot_waits_def)
  ultimately show ?thesis using T late by (simp add: timed_inv_def)
qed

lemma timed_inv_step:
  assumes T: "timed_inv lag r T" and step: "timed_step grow lag r T T'"
  shows "timed_inv lag r T'"
  using step
proof (cases rule: timed_step.cases)
  case (works c)
  then show ?thesis using timed_inv_works [OF T] by simp
next
  case (asks i)
  then show ?thesis using T by (auto simp: timed_inv_def timers_inv_def)
next
  case (answers i since v B)
  then show ?thesis using timed_inv_answers [OF T] by simp
next
  case (reads i out B)
  then show ?thesis using timed_inv_reads [OF T] by simp
next
  case (pools p)
  have "check_inv r ((tm_check T)\<lparr>ck_pool := p\<rparr>)"
    using T check_inv_step [of r "tm_check T"] env_step.pool_changes [of "tm_check T" p] by (auto simp: timed_inv_def check_step_def)
  then show ?thesis
    using T pools by (simp add: timed_inv_def timers_inv_def hand_inv_def in_hand_def said_def on_time_def declined_def)
next
  case strikes
  let ?c = "(tm_check T)\<lparr>ck_co := deadline (ck_co (tm_check T))\<rparr>"
  have "check_inv r ?c"
    using T check_inv_step [of r "tm_check T"] env_step.expire [of "tm_check T"] by (auto simp: timed_inv_def check_step_def)
  moreover have "on_time r ?c (tm_now T)" if "on_time r (tm_check T) (tm_now T)"
    using that strikes(2) by (auto simp: on_time_def declined_def said_def deadline_def)
  ultimately show ?thesis
    using T strikes(1) by (simp add: timed_inv_def timers_inv_def hand_inv_def in_hand_def said_def deadline_def)
next
  case (passes now)
  then show ?thesis using timed_inv_passes [OF T] by simp
qed

lemma timed_inv_init:
  assumes "timed_init r T"
  shows "timed_inv lag r T"
proof -
  have init: "check_init r (tm_check T)" "tm_now T = 0" "tm_timer T = Map.empty" using assms by (simp_all add: timed_init_def)
  have "\<not> said r (tm_check T) i v" if "i < length (rm_players r)" for i v
  proof -
    have "length (rm_responses r) = length (rm_players r)" using init(1) by (simp add: check_init_def)
    then have "rm_responses r ! i \<in> set (rm_responses r)" using that by simp
    then show ?thesis using init(1) by (auto simp: check_init_def said_def)
  qed
  moreover have "ck_co (tm_check T) = launch r" using init(1) by (simp add: check_init_def)
  ultimately show ?thesis
    using check_inv_init [OF init(1)] init(2,3)
    by (auto simp: timed_inv_def hand_inv_def timers_inv_def on_time_def launch_def readyCheckCoordTimeout_def)
qed

interpretation clocked: inductive_invariant "timed_init r" "timed_step grow lag r" "timed_inv lag r" for grow lag r
  using timed_inv_init timed_inv_step by unfold_locales

section \<open>Example\<close>

definition at_time :: "nat \<Rightarrow> (nat \<rightharpoonup> nat) \<Rightarrow> check \<Rightarrow> Timed" where
  "at_time now timer c = \<lparr>tm_now = now, tm_check = c, tm_timer = timer\<rparr>"

lemma at_time_simps [simp]: "tm_now (at_time now t c) = now" "tm_timer (at_time now t c) = t" "tm_check (at_time now t c) = c"
  by (simp_all add: at_time_def)

definition duo_check :: "Coordinator \<Rightarrow> bool list \<Rightarrow> bool list \<Rightarrow> (chan_id \<times> bool) list \<Rightarrow> check" where
  "duo_check co b0 b2 sent = \<lparr>ck_co = co, ck_pool = NewPool, ck_sessions = NewSessionStore, ck_bools = duo_bools b0 b2, ck_sent = sent\<rparr>"

lemma duo_check_simps [simp]: "ck_co (duo_check co b0 b2 sent) = co" "ck_bools (duo_check co b0 b2 sent) = duo_bools b0 b2"
  "said duo (duo_check co b0 b2 sent) i v \<longleftrightarrow> (rm_responses duo ! i, v) \<in> set sent"
  by (simp_all add: duo_check_def said_def)

lemma duo_sizes: "length (rm_players duo) = 2" "rm_responses duo ! 0 = 0" "rm_responses duo ! 1 = 2" "rm_responses duo ! Suc 0 = 2"
  by (simp_all add: duo_def)

abbreviation duo_reach :: "nat \<Rightarrow> Timed \<Rightarrow> bool" where
  "duo_reach lag \<equiv> reachable (timed_init duo) (timed_step (\<lambda>c n. n) lag duo)"

lemma duo_timed_start: "duo_reach lag (at_time 0 Map.empty (duo_check (launch duo) [] [] []))"
proof (rule reachable.start)
  have "duo_check (launch duo) [] [] [] = duo_start" using duo_bools_start by (simp add: duo_check_def duo_start_def)
  then show "timed_init duo (at_time 0 Map.empty (duo_check (launch duo) [] [] []))" using duo_init by (simp add: timed_init_def)
qed

text \<open>The rules of the machine, as they extend a run.\<close>

lemma duo_move: "duo_reach lag T \<Longrightarrow> timed_step (\<lambda>c n. n) lag duo T T' \<Longrightarrow> duo_reach lag T'"
  by (rule reachable.move)

lemma duo_asks:
  "duo_reach lag (at_time now t c) \<Longrightarrow> i < 2 \<Longrightarrow> t i = None \<Longrightarrow> duo_reach lag (at_time now (t(i \<mapsto> now)) c)"
  using duo_move [OF _ timed_step.asks [of i duo "at_time now t c" "\<lambda>c n. n" lag]] by (simp add: at_time_def duo_sizes)

lemma duo_works:
  "duo_reach lag (at_time now t c) \<Longrightarrow> co_step (\<lambda>c n. n) c c' \<Longrightarrow> duo_reach lag (at_time now t c')"
  using duo_move [OF _ timed_step.works [of "\<lambda>c n. n" "at_time now t c" c' lag duo]] by (simp add: at_time_def)

lemma duo_answers:
  assumes "duo_reach lag (at_time now t (duo_check co b0 b2 sent))"
  shows "b0 = [] \<Longrightarrow> t 0 \<noteq> None \<Longrightarrow> 0 \<notin> fst ` set sent \<Longrightarrow> duo_reach lag (at_time now t (duo_check co [v] b2 (sent @ [(0, v)])))"
    and "b2 = [] \<Longrightarrow> t 1 \<noteq> None \<Longrightarrow> 2 \<notin> fst ` set sent \<Longrightarrow> duo_reach lag (at_time now t (duo_check co b0 [v] (sent @ [(2, v)])))"
proof -
  let ?T = "at_time now t (duo_check co b0 b2 sent)"
  have send: "b0 = [] \<Longrightarrow> chan_try_send 0 v (duo_bools b0 b2) = Ret (True, duo_bools [v] b2)"
    "b2 = [] \<Longrightarrow> chan_try_send 2 v (duo_bools b0 b2) = Ret (True, duo_bools b0 [v])"
    by (simp_all add: duo_bools_def chan_try_send_def fun_upd_twist)
  have no: "c \<notin> fst ` set sent \<Longrightarrow> (c, w) \<notin> set sent" for c w by force
  have upd: "(duo_check co b0 b2 sent)\<lparr>ck_bools := duo_bools x y, ck_sent := l\<rparr> = duo_check co x y l" for x y l
    by (simp add: duo_check_def)
  have sent: "ck_sent (duo_check co b0 b2 sent) = sent" by (simp add: duo_check_def)
  have time: "?T\<lparr>tm_check := c\<rparr> = at_time now t c" for c by (simp add: at_time_def)
  show "duo_reach lag (at_time now t (duo_check co [v] b2 (sent @ [(0, v)])))" if b: "b0 = []" "t 0 \<noteq> None" "0 \<notin> fst ` set sent"
  proof -
    obtain since where "tm_timer ?T 0 = Some since" using b(2) by auto
    from timed_step.answers [of ?T 0 since duo v "duo_bools [v] b2" "\<lambda>c n. n" lag, OF this] send(1) [OF b(1)] no [OF b(3)]
    have "timed_step (\<lambda>c n. n) lag duo ?T (at_time now t (duo_check co [v] b2 (sent @ [(0, v)])))"
      unfolding at_time_simps duo_check_simps duo_sizes upd sent time by simp
    then show ?thesis by (rule duo_move [OF assms])
  qed
  show "duo_reach lag (at_time now t (duo_check co b0 [v] (sent @ [(2, v)])))" if b: "b2 = []" "t 1 \<noteq> None" "2 \<notin> fst ` set sent"
  proof -
    obtain since where "tm_timer ?T 1 = Some since" using b(2) by auto
    from timed_step.answers [of ?T 1 since duo v "duo_bools b0 [v]" "\<lambda>c n. n" lag, OF this] send(2) [OF b(1)] no [OF b(3)]
    have "timed_step (\<lambda>c n. n) lag duo ?T (at_time now t (duo_check co b0 [v] (sent @ [(2, v)])))"
      unfolding at_time_simps duo_check_simps duo_sizes upd sent time by simp
    then show ?thesis by (rule duo_move [OF assms])
  qed
qed

lemma duo_quiet: "\<nexists>c. co_step grow (duo_check (launch duo) [] [] []) c"
proof
  assume "\<exists>c. co_step grow (duo_check (launch duo) [] [] []) c"
  then obtain c where "co_step grow (duo_check (launch duo) [] [] []) c" by blast
  then show False
    by (cases rule: co_step.cases) (auto simp: launch_def duo_def duo_bools_def co_defs chan_recv_def split: if_splits)
qed

text \<open>Time passes while nobody has answered.\<close>

lemma duo_passes:
  assumes "duo_reach lag (at_time now t (duo_check (launch duo) [] [] []))" "now < later_t" "later_t \<le> 12000"
    and "\<forall>i < 2. case t i of None \<Rightarrow> later_t \<le> lag | Some since \<Rightarrow> later_t \<le> since + 10000"
  shows "duo_reach lag (at_time later_t t (duo_check (launch duo) [] [] []))"
proof -
  let ?T = "at_time now t (duo_check (launch duo) [] [] [])"
  have "slot_waits lag duo ?T later_t i" if "i < 2" for i
    using assms(4) that by (auto simp: slot_waits_def readyCheckTimeout_def split: option.splits)
  then have "timed_step (\<lambda>c n. n) lag duo ?T (?T\<lparr>tm_now := later_t\<rparr>)"
    using assms(2,3) duo_quiet by (intro timed_step.passes) (simp_all add: duo_sizes readyCheckCoordTimeout_def)
  from duo_move [OF assms(1) this] show ?thesis by (simp add: at_time_def)
qed

definition duo_failed :: Coordinator where
  "duo_failed = fail_room ((launch duo)\<lparr>co_listening := [1], co_received := 1\<rparr>)"

lemma duo_fails: "duo_reach lag (at_time 0 [0 \<mapsto> 0] (duo_check duo_failed [] [] [(0, False)]))"
proof -
  let ?co = "(launch duo)\<lparr>co_listening := [1], co_fanIn := [(0, False)]\<rparr>"
  have "duo_reach lag (at_time 0 [0 \<mapsto> 0] (duo_check (launch duo) [] [] []))" by (rule duo_asks [OF duo_timed_start]) simp_all
  then have 1: "duo_reach lag (at_time 0 [0 \<mapsto> 0] (duo_check (launch duo) [False] [] [(0, False)]))"
    using duo_answers(1) [of lag 0 "[0 \<mapsto> 0]" "launch duo" "[]" "[]" "[]" False] by simp
  have "fan_in_recv 0 (launch duo) (duo_bools [False] []) = Some (?co, duo_bools [] [])"
    by (simp add: fan_in_recv_def launch_def duo_def duo_bools_def chan_recv_def fun_upd_twist upt_rec)
  with co_step.fan_in [of 0 "duo_check (launch duo) [False] [] [(0, False)]" ?co "duo_bools [] []" "\<lambda>c n. n"]
  have 2: "co_step (\<lambda>c n. n) (duo_check (launch duo) [False] [] [(0, False)]) (duo_check ?co [] [] [(0, False)])"
    by (simp add: duo_check_def)
  have "gather ?co = Some duo_failed"
    by (simp add: gather_def fail_room_def launch_def duo_def duo_failed_def upt_rec eval_nat_numeral)
  with co_step.gathered [of "duo_check ?co [] [] [(0, False)]" duo_failed "\<lambda>c n. n"]
  have 3: "co_step (\<lambda>c n. n) (duo_check ?co [] [] [(0, False)]) (duo_check duo_failed [] [] [(0, False)])"
    by (simp add: duo_check_def)
  show ?thesis by (rule duo_works [OF duo_works [OF 1 2] 3])
qed

section \<open>Properties\<close>

text \<open>C13: the two seconds between the timeouts are what they are meant to be: as long as every gateway starts
  its timer less than two seconds after the launch, a room fails only because some player's gateway has
  answered no (its client left or was silent for ten seconds), never because of the coordinator's own
  deadline, and ten seconds after the last timer at the latest the verdict has been carried out.\<close>

theorem ready_check_margin:
  assumes "reachable (timed_init r) (timed_step grow lag r) T" "lag < 2000"
  shows "(co_at (ck_co (tm_check T)) \<noteq> Gathering \<and> \<not> co_allAccepted (ck_co (tm_check T)) \<longrightarrow> declined r (tm_check T))
    \<and> (lag + 10000 < tm_now T \<longrightarrow> co_at (ck_co (tm_check T)) = Finished)"
proof -
  have "timed_inv lag r T" by (rule clocked.reachable_inv [OF assms(1)])
  then show ?thesis
    using assms(2) by (auto simp: timed_inv_def on_time_def readyCheckTimeout_def readyCheckCoordTimeout_def)
qed

theorem ready_check_margin_witness:
  "\<exists>T. duo_reach 1000 T \<and> co_at (ck_co (tm_check T)) = Publishing (rm_results duo) \<and> declined duo (tm_check T)"
proof -
  let ?T = "at_time 0 [0 \<mapsto> 0] (duo_check duo_failed [] [] [(0, False)])"
  have "co_at duo_failed = Publishing (rm_results duo)" "\<not> co_allAccepted duo_failed"
    by (simp_all add: duo_failed_def fail_room_def launch_def)
  with ready_check_margin [OF duo_fails [of 1000]] duo_fails [of 1000] show ?thesis by (intro exI [of _ ?T]) simp
qed

text \<open>With a lag of two seconds the margin is gone: both players accept within the ten seconds they have been
  promised, and the room fails all the same.\<close>

theorem margin_is_tight:
  "\<exists>T. duo_reach 2000 T \<and> co_at (ck_co (tm_check T)) \<noteq> Gathering \<and> \<not> co_allAccepted (ck_co (tm_check T))
     \<and> said duo (tm_check T) 0 True \<and> said duo (tm_check T) 1 True \<and> \<not> declined duo (tm_check T)"
proof -
  let ?m = "[0 \<mapsto> 2000, 1 \<mapsto> 2000] :: nat \<rightharpoonup> nat" and ?late = "deadline (launch duo)"
  have "duo_reach 2000 (at_time 2000 Map.empty (duo_check (launch duo) [] [] []))" by (rule duo_passes [OF duo_timed_start]) simp_all
  from duo_asks [OF duo_asks [OF this, of 0], of 1]
  have "duo_reach 2000 (at_time 2000 ?m (duo_check (launch duo) [] [] []))" by simp
  then have "duo_reach 2000 (at_time 12000 ?m (duo_check (launch duo) [] [] []))" by (rule duo_passes) (simp_all add: less_2_cases_iff)
  from duo_move [OF this timed_step.strikes]
  have 1: "duo_reach 2000 (at_time 12000 ?m (duo_check ?late [] [] []))"
    by (simp add: readyCheckCoordTimeout_def) (simp add: at_time_def duo_check_def)
  have "gather_timeout ?late = Some (fail_room ?late)" by (simp add: gather_timeout_def deadline_def launch_def duo_def)
  with co_step.timed_out [of "duo_check ?late [] [] []" "fail_room ?late" "\<lambda>c n. n"]
  have "co_step (\<lambda>c n. n) (duo_check ?late [] [] []) (duo_check (fail_room ?late) [] [] [])" by (simp add: duo_check_def)
  from duo_answers(1) [OF duo_works [OF 1 this], of True]
  have "duo_reach 2000 (at_time 12000 ?m (duo_check (fail_room ?late) [True] [] [(0, True)]))" by simp
  from duo_answers(2) [OF this, of True]
  have "duo_reach 2000 (at_time 12000 ?m (duo_check (fail_room ?late) [True] [True] [(0, True), (2, True)]))" by simp
  then show ?thesis
    by (intro exI conjI, assumption) (auto simp: fail_room_def declined_def duo_sizes less_2_cases_iff)
qed

end
