(* ===== verification/Nexus_Lobby.thy ===== *)
theory Nexus_Lobby
  imports Nexus_Gateway
begin

text \<open>
  A coarser view of the pool than the machine of the whole server: gateways, coordinators and ticks that
  run without interruption, over a state that may change freely otherwise. It is enough for what \<open>tick\<close>
  relies on.
\<close>

section \<open>The lobby\<close>

text \<open>
  The pool between gateways, matchmaker and coordinators: streams enter and leave, gateways take
  events out of their channels, ticks draft players, and coordinators put drafted players back whose
  event has been taken. The other state may change freely.
\<close>

inductive lobby_step :: "match_sorter \<Rightarrow> MatchmakerServer \<Rightarrow> MatchmakerServer \<Rightarrow> bool" for srt where
  enters: "EnterMatchmaking grow joined now ok msg (srv_pool srv) = (p, r) \<Longrightarrow> lobby_step srt srv (srv\<lparr>srv_pool := p\<rparr>)"
| leaves: "Dequeue pid (srv_pool srv) = (p, r) \<Longrightarrow> lobby_step srt srv (srv\<lparr>srv_pool := p\<rparr>)"
| takes: "chan_recv c (match_heap (srv_pool srv)) = (out, H)
     \<Longrightarrow> lobby_step srt srv (srv\<lparr>srv_pool := (srv_pool srv)\<lparr>match_heap := H\<rparr>\<rparr>)"
| ticks: "(\<And>m. covers (te_keys (env m)) (brackets (srv_pool srv))) \<Longrightarrow> tick srt env 0 srv = Some (Ret srv')
     \<Longrightarrow> lobby_step srt srv srv'"
| requeues: "q \<in> set (drafted (coordinators srv)) \<Longrightarrow> idle (match_heap (srv_pool srv)) (MatchCh q)
     \<Longrightarrow> lobby_step srt srv (srv\<lparr>srv_pool := fst (ReEnqueue grow q (srv_pool srv))\<rparr>)"
| others: "chans_ok B \<Longrightarrow> lobby_step srt srv (srv\<lparr>srv_bools := B, srv_sessions := ss, stop_closed := b\<rparr>)"

inductive_cases lobby_stepE: "lobby_step srt srv srv'"

definition known :: "MatchmakerServer \<Rightarrow> QueuedPlayer set" where
  "known srv = queued (srv_pool srv) \<union> set (drafted (coordinators srv))"

definition lobby_inv :: "MatchmakerServer \<Rightarrow> bool" where
  "lobby_inv srv \<longleftrightarrow> ready_pool (srv_pool srv) \<and> chans_ok (srv_bools srv) \<and> inj_on MatchCh (known srv)
     \<and> (\<forall>q \<in> known srv. valid_mmr q \<and> cells (match_heap (srv_pool srv)) (MatchCh q) \<noteq> None)"

text \<open>A change of the pool that brings nobody new and leaves the channels that are in use.\<close>

lemma lobby_shrink:
  assumes inv: "lobby_inv srv" and pool: "pool_inv p" and q: "queued p \<subseteq> known srv"
    and idle: "\<forall>q \<in> queued p. idle (match_heap p) (MatchCh q)"
    and keep: "\<And>c. cells (match_heap (srv_pool srv)) c \<noteq> None \<Longrightarrow> cells (match_heap p) c \<noteq> None"
  shows "lobby_inv (srv\<lparr>srv_pool := p\<rparr>)"
proof -
  have "known (srv\<lparr>srv_pool := p\<rparr>) \<subseteq> known srv" using q by (auto simp: known_def)
  then show ?thesis
    using inv pool idle keep unfolding lobby_inv_def ready_pool_def by (auto intro: inj_on_subset)
qed

lemma lobby_enters:
  assumes inv: "lobby_inv srv" and e: "EnterMatchmaking grow joined now ok msg (srv_pool srv) = (p, r)"
  shows "lobby_inv (srv\<lparr>srv_pool := p\<rparr>)"
proof (cases "p = srv_pool srv")
  case True
  with inv show ?thesis by simp
next
  case False
  let ?p = "srv_pool srv"
  obtain player where j: "join_check msg = Inr player"
    using e False by (cases "join_check msg") (auto simp: EnterMatchmaking_def)
  obtain qp where enq: "Enqueue grow joined (pi_PlayerId player) (pi_DisplayName player) (pi_Mmr player) ?p = (p, Inr qp)"
    using e False j by (auto simp: EnterMatchmaking_def Enqueue_def Let_def split: prod.splits sum.splits if_splits)
  obtain heap ch where mk: "make_chan 1 (match_heap ?p) = (heap, ch)" by fastforce
  have pl: "players p = (players ?p)(pi_PlayerId player \<mapsto> qp)" "players ?p (pi_PlayerId player) = None"
    and h: "match_heap p = heap" and qp: "MatchCh qp = ch" "MMR qp = pi_Mmr player"
    using enq mk by (auto simp: Enqueue_def Let_def split: if_splits)
  have pinv: "pool_inv ?p" using inv by (simp add: lobby_inv_def ready_pool_def)
  note fresh = make_chan_fresh [OF pool_heap [OF pinv] mk]
  have q: "queued p = insert qp (queued ?p)" using pl by (simp add: queued_def ran_map_upd)
  have new: "MatchCh x \<noteq> ch" if "x \<in> known srv" for x using inv that fresh by (auto simp: lobby_inv_def)
  have cell: "cells (match_heap p) (MatchCh x) = cells (match_heap ?p) (MatchCh x)" if "x \<in> known srv" for x
    using new [OF that] fresh by (simp add: h)
  have k: "known (srv\<lparr>srv_pool := p\<rparr>) = insert qp (known srv)" using q by (auto simp: known_def)
  have "valid_mmr qp" using j qp(2) by (auto simp: join_check_Inr valid_mmr_def)
  moreover have "pool_inv p" using Enqueue_inv [OF pinv] enq by (metis fst_conv)
  moreover have "inj_on MatchCh (insert qp (known srv))"
    using inv new qp(1) by (force simp: lobby_inv_def)
  moreover have "idle (match_heap p) (MatchCh x)" if "x \<in> queued p" for x
  proof (cases "x = qp")
    case True
    with fresh show ?thesis by (simp add: h qp idle_def)
  next
    case False
    then have "x \<in> queued ?p" using that q by simp
    then have "idle (match_heap ?p) (MatchCh x)" "x \<in> known srv" using inv by (auto simp: lobby_inv_def ready_pool_def known_def)
    then show ?thesis using cell by (simp add: idle_def)
  qed
  ultimately show ?thesis
    using inv fresh cell unfolding lobby_inv_def k by (auto simp: ready_pool_def h qp)
qed

lemma lobby_leaves:
  assumes inv: "lobby_inv srv" and d: "Dequeue pid (srv_pool srv) = (p, r)"
  shows "lobby_inv (srv\<lparr>srv_pool := p\<rparr>)"
proof (cases "players (srv_pool srv) pid")
  case None
  then show ?thesis using inv d by (auto simp: Dequeue_missing)
next
  case (Some qp)
  let ?p = "srv_pool srv"
  have pinv: "pool_inv ?p" using inv by (simp add: lobby_inv_def ready_pool_def)
  obtain heap where cl: "chan_close (MatchCh qp) (match_heap ?p) = Ret heap"
    and D: "p = ?p\<lparr>brackets := unbracket (bk_of qp) pid (brackets ?p),
              match_heap := heap, players := (players ?p)(pid := None)\<rparr>"
    using Dequeue_present [OF pinv Some] d by (metis prod.inject)
  have q: "queued p = queued ?p - {qp}" using queued_remove [OF pinv Some] by (simp add: D queued_def)
  have qp: "qp \<in> queued ?p" using Some by (auto simp: queued_def ran_def)
  have other: "MatchCh x \<noteq> MatchCh qp" if "x \<in> queued ?p - {qp}" for x
    using that qp pool_inj [OF pinv] by (auto dest: inj_onD)
  show ?thesis
  proof (rule lobby_shrink [OF inv])
    show "pool_inv p" using Dequeue_inv [OF pinv, of pid] d by simp
    show "queued p \<subseteq> known srv" using q by (auto simp: known_def)
    show "\<forall>x \<in> queued p. idle (match_heap p) (MatchCh x)"
      using inv other chan_close_other [OF cl] unfolding q by (auto simp: lobby_inv_def ready_pool_def D idle_def)
    show "cells (match_heap p) c \<noteq> None" if "cells (match_heap ?p) c \<noteq> None" for c
      using that cl by (auto simp: D chan_close_def split: option.splits if_splits)
  qed
qed

lemma lobby_takes:
  assumes inv: "lobby_inv srv" and r: "chan_recv c (match_heap (srv_pool srv)) = (out, H)"
  shows "lobby_inv (srv\<lparr>srv_pool := (srv_pool srv)\<lparr>match_heap := H\<rparr>\<rparr>)"
proof (rule lobby_shrink [OF inv])
  have pinv: "pool_inv (srv_pool srv)" using inv by (simp add: lobby_inv_def ready_pool_def)
  show "pool_inv ((srv_pool srv)\<lparr>match_heap := H\<rparr>)" by (rule pool_inv_recv [OF pinv r])
  show "queued ((srv_pool srv)\<lparr>match_heap := H\<rparr>) \<subseteq> known srv" by (auto simp: queued_def known_def)
  show "\<forall>x \<in> queued ((srv_pool srv)\<lparr>match_heap := H\<rparr>). idle (match_heap ((srv_pool srv)\<lparr>match_heap := H\<rparr>)) (MatchCh x)"
  proof
    fix x
    assume "x \<in> queued ((srv_pool srv)\<lparr>match_heap := H\<rparr>)"
    then have i: "idle (match_heap (srv_pool srv)) (MatchCh x)"
      using inv by (simp add: lobby_inv_def ready_pool_def queued_def)
    show "idle (match_heap ((srv_pool srv)\<lparr>match_heap := H\<rparr>)) (MatchCh x)"
      using i idle_recv [of _ c] r by (cases "c = MatchCh x") (auto simp: idle_def chan_recv_def split: option.splits list.splits)
  qed
  show "cells (match_heap ((srv_pool srv)\<lparr>match_heap := H\<rparr>)) d \<noteq> None"
    if "cells (match_heap (srv_pool srv)) d \<noteq> None" for d
    using that r by (auto simp: chan_recv_def split: option.splits list.splits if_splits)
qed

lemma lobby_requeues:
  assumes inv: "lobby_inv srv" and q: "q \<in> set (drafted (coordinators srv))"
    and i: "idle (match_heap (srv_pool srv)) (MatchCh q)"
  shows "lobby_inv (srv\<lparr>srv_pool := fst (ReEnqueue grow q (srv_pool srv))\<rparr>)"
proof (cases "players (srv_pool srv) (PlayerID q)")
  case (Some x)
  then show ?thesis using inv by (simp add: ReEnqueue_def)
next
  case None
  let ?p = "srv_pool srv" and ?p' = "fst (ReEnqueue grow q (srv_pool srv))"
  have pinv: "pool_inv ?p" using inv by (simp add: lobby_inv_def ready_pool_def)
  have "MatchCh q \<notin> MatchCh ` queued ?p"
  proof
    assume "MatchCh q \<in> MatchCh ` queued ?p"
    then obtain x where "x \<in> queued ?p" "MatchCh q = MatchCh x" by blast
    then have "q = x" using inv q by (auto simp: lobby_inv_def known_def dest: inj_onD)
    with \<open>x \<in> queued ?p\<close> None show False using queued_id [OF pinv] by simp
  qed
  moreover have "match_chan_ok (match_heap ?p) (MatchCh q)" using i by (auto simp: idle_def match_chan_ok_def)
  ultimately have "pool_inv ?p'" using ReEnqueue_inv [OF pinv] by blast
  moreover have h: "match_heap ?p' = match_heap ?p" "queued ?p' = insert q (queued ?p)"
    using None by (simp_all add: ReEnqueue_def Let_def queued_def ran_map_upd)
  ultimately show ?thesis
    using inv q i by (intro lobby_shrink [OF inv]) (auto simp: lobby_inv_def ready_pool_def known_def)
qed

lemma lobby_ticks:
  assumes srt: "match_sort srt" and inv: "lobby_inv srv"
    and ks: "\<And>m. covers (te_keys (env m)) (brackets (srv_pool srv))" and run: "tick srt env 0 srv = Some (Ret srv')"
  shows "lobby_inv srv'"
proof -
  have ready: "ready_pool (srv_pool srv)" "chans_ok (srv_bools srv)" using inv by (simp_all add: lobby_inv_def)
  obtain srv1 rooms where "tick srt env 0 srv = Some (Ret srv1)" and eff: "tick_effect srv rooms srv1"
    using match_sort.tick_spec [where env = env and n = 0, OF srt ready ks] by blast
  then have [simp]: "srv1 = srv'" using run by simp
  note d = tick_effectD [OF eff [simplified]]
  have k: "known srv' = known srv" using d(3,10) by (auto simp: known_def)
  have "cells (match_heap (srv_pool srv')) (MatchCh x) \<noteq> None" if "x \<in> known srv" for x
  proof (cases "MatchCh x \<in> MatchCh ` queued (srv_pool srv)")
    case False
    with d(12) inv that show ?thesis by (simp add: lobby_inv_def)
  next
    case True
    then obtain y where y: "y \<in> queued (srv_pool srv)" "MatchCh x = MatchCh y" by blast
    show ?thesis
    proof (cases "y \<in> queued (srv_pool srv')")
      case True
      then show ?thesis using d(1) y(2) by (auto simp: ready_pool_def idle_def)
    next
      case False
      then obtain r where r: "r \<in> set rooms" "y \<in> set (rm_players r)" using y(1) d(3) by auto
      then obtain i where "i < 10" "rm_players r ! i = y"
        using d(14) [OF r(1)] by (auto simp: room_started_def in_set_conv_nth)
      then show ?thesis using d(14) [OF r(1)] y(2) by (auto simp: room_started_def holds_def)
    qed
  qed
  then show ?thesis using inv d(1,2) unfolding lobby_inv_def k by blast
qed

lemma lobby_step_inv:
  assumes "match_sort srt" "lobby_inv srv" "lobby_step srt srv srv'"
  shows "lobby_inv srv'"
  using assms(3)
proof (cases rule: lobby_step.cases)
  case (others B ss b)
  then show ?thesis using assms(2) by (simp add: lobby_inv_def known_def)
next
  case (enters grow joined now ok msg p r)
  with lobby_enters [OF assms(2)] show ?thesis by simp
next
  case (leaves pid p r)
  with lobby_leaves [OF assms(2)] show ?thesis by simp
next
  case (takes c out H)
  with lobby_takes [OF assms(2)] show ?thesis by simp
next
  case (ticks env)
  then show ?thesis using lobby_ticks [OF assms(1,2)] by blast
next
  case (requeues q grow)
  with lobby_requeues [OF assms(2)] show ?thesis by simp
qed

definition lobby_init :: "MatchmakerServer \<Rightarrow> bool" where
  "lobby_init srv \<longleftrightarrow> srv = NewMatchmakerServer NewPool NewSessionStore"

lemma lobby_inv_init: "lobby_init srv \<Longrightarrow> lobby_inv srv"
  using pool_inv_NewPool
  by (simp add: lobby_init_def lobby_inv_def NewMatchmakerServer_def ready_pool_def known_def queued_def NewPool_def)

lemma lobby_machine: "match_sort srt \<Longrightarrow> inductive_invariant lobby_init (lobby_step srt) lobby_inv"
  using lobby_inv_init lobby_step_inv by unfold_locales

interpretation lobby: inductive_invariant lobby_init "lobby_step insertionSort" lobby_inv
  by (rule lobby_machine [OF match_insertion.match_sort_axioms])

section \<open>Properties\<close>

text \<open>In every state the lobby can reach from an empty server, what the matchmaker relies on holds:
  the pool is well-formed, every queued player has a rating in \<open>[0, 10000]\<close> and an open, empty
  channel. So the next tick returns without a panic, and leaves at most 189 players waiting.\<close>

theorem lobby_safe:
  assumes "match_sort srt" "reachable lobby_init (lobby_step srt) srv"
    and "\<forall>m. covers (te_keys (env m)) (brackets (srv_pool srv))"
  shows "pool_inv (srv_pool srv) \<and> (\<forall>q \<in> queued (srv_pool srv). valid_mmr q \<and> idle (match_heap (srv_pool srv)) (MatchCh q))
    \<and> (\<exists>srv'. tick srt env n srv = Some (Ret srv') \<and> Size (srv_pool srv') \<le> 189)"
proof -
  have inv: "lobby_inv srv" by (rule inductive_invariant.reachable_inv [OF lobby_machine [OF assms(1)] assms(2)])
  then have ready: "ready_pool (srv_pool srv)" "chans_ok (srv_bools srv)"
    and valid: "\<forall>q \<in> queued (srv_pool srv). valid_mmr q"
    by (simp_all add: lobby_inv_def known_def)
  have "\<exists>srv'. tick srt env n srv = Some (Ret srv') \<and> Size (srv_pool srv') \<le> 189"
    using tick_drains [OF assms(1) ready assms(3) valid] by blast
  then show ?thesis using ready(1) valid by (simp add: ready_pool_def)
qed

theorem lobby_safe_witness:
  "\<exists>srv'. tick insertionSort ten_env 0 (NewMatchmakerServer NewPool NewSessionStore) = Some (Ret srv')
     \<and> Size (srv_pool srv') \<le> 189"
proof -
  have "reachable lobby_init (lobby_step insertionSort) (NewMatchmakerServer NewPool NewSessionStore)"
    by (rule reachable.start) (simp add: lobby_init_def)
  moreover have "\<forall>m. covers (te_keys (ten_env m)) (brackets (srv_pool (NewMatchmakerServer NewPool NewSessionStore)))"
    by (simp add: covers_def ten_env_def NewMatchmakerServer_def NewPool_def)
  ultimately show ?thesis using lobby_safe [OF match_insertion.match_sort_axioms] by blast
qed

end
