(* ===== verification/Go_Mutex.thy ===== *)
theory Go_Mutex
  imports Nexus_Prelude
begin

text \<open>
  \<open>sync.RWMutex\<close> around an object: goroutines call operations, take the lock, run the body statement
  by statement, give the lock back and return, in any interleaving. Beside it stands the object whose
  operations take effect in one step between their call and their return, which is what a client
  counts on. The interface \<open>guarded_object\<close> states what a body must keep for the first machine to
  implement the second.
\<close>

section \<open>The two machines\<close>

datatype ('op, 'r) event = Called 'op | Answer 'r

text \<open>
  Where a goroutine is: outside, waiting for the lock, at a statement of the body, at the deferred
  unlock with its result, or on its way back with it.
\<close>

datatype ('op, 'f, 'r) control = Outside | Waiting 'op | Inside 'op 'f | Unlocking 'op 'r | WithResult 'r

record ('op, 'f, 'r, 's) guarded =
  shared :: 's
  writer :: "nat option"
  readers :: "nat set"
  ctl :: "nat \<Rightarrow> ('op, 'f, 'r) control"
  history :: "(nat \<times> ('op, 'r) event) list"

definition unused :: "'s \<Rightarrow> ('op, 'f, 'r, 's) guarded" where
  "unused s = \<lparr>shared = s, writer = None, readers = {}, ctl = (\<lambda>_. Outside), history = []\<rparr>"

definition resume :: "'op \<Rightarrow> 'f + 'r \<Rightarrow> ('op, 'f, 'r) control" where
  "resume op x = (case x of Inl f \<Rightarrow> Inside op f | Inr r \<Rightarrow> Unlocking op r)"

text \<open>
  \<open>exclusive\<close> tells \<open>Lock\<close> from \<open>RLock\<close>, \<open>entry\<close> is the first statement of a body, \<open>exec\<close> runs one
  statement with the choices Go leaves open, which \<open>valid\<close> restricts, and \<open>env\<close> is what others may do
  to the shared state without the lock. Go's mutex also makes new readers queue behind a waiting
  writer; leaving that out allows more interleavings, not fewer.
\<close>

inductive guarded_step ::
  "('op \<Rightarrow> bool) \<Rightarrow> ('op \<Rightarrow> 'f) \<Rightarrow> ('c \<Rightarrow> 'f \<Rightarrow> 's \<Rightarrow> 's \<times> ('f + 'r)) \<Rightarrow> ('c \<Rightarrow> 'f \<Rightarrow> 's \<Rightarrow> bool)
    \<Rightarrow> ('s \<Rightarrow> 's \<Rightarrow> bool) \<Rightarrow> ('op, 'f, 'r, 's) guarded \<Rightarrow> ('op, 'f, 'r, 's) guarded \<Rightarrow> bool"
  for exclusive entry exec valid env where
  call: "ctl g t = Outside
     \<Longrightarrow> guarded_step exclusive entry exec valid env g
           (g\<lparr>ctl := (ctl g)(t := Waiting op), history := history g @ [(t, Called op)]\<rparr>)"
| lock: "ctl g t = Waiting op \<Longrightarrow> exclusive op \<Longrightarrow> writer g = None \<Longrightarrow> readers g = {}
     \<Longrightarrow> guarded_step exclusive entry exec valid env g
           (g\<lparr>writer := Some t, ctl := (ctl g)(t := Inside op (entry op))\<rparr>)"
| rlock: "ctl g t = Waiting op \<Longrightarrow> \<not> exclusive op \<Longrightarrow> writer g = None
     \<Longrightarrow> guarded_step exclusive entry exec valid env g
           (g\<lparr>readers := insert t (readers g), ctl := (ctl g)(t := Inside op (entry op))\<rparr>)"
| run: "ctl g t = Inside op f \<Longrightarrow> valid c f (shared g) \<Longrightarrow> exec c f (shared g) = (s, x)
     \<Longrightarrow> guarded_step exclusive entry exec valid env g
           (g\<lparr>shared := s, ctl := (ctl g)(t := resume op x)\<rparr>)"
| unlock: "ctl g t = Unlocking op r \<Longrightarrow> exclusive op
     \<Longrightarrow> guarded_step exclusive entry exec valid env g
           (g\<lparr>writer := None, ctl := (ctl g)(t := WithResult r)\<rparr>)"
| runlock: "ctl g t = Unlocking op r \<Longrightarrow> \<not> exclusive op
     \<Longrightarrow> guarded_step exclusive entry exec valid env g
           (g\<lparr>readers := readers g - {t}, ctl := (ctl g)(t := WithResult r)\<rparr>)"
| give: "ctl g t = WithResult r
     \<Longrightarrow> guarded_step exclusive entry exec valid env g
           (g\<lparr>ctl := (ctl g)(t := Outside), history := history g @ [(t, Answer r)]\<rparr>)"
| others: "env (shared g) s \<Longrightarrow> guarded_step exclusive entry exec valid env g (g\<lparr>shared := s\<rparr>)"

text \<open>The atomic object: an operation is pending from its call until it takes effect.\<close>

datatype ('op, 'r) phase = Quiet | Pending 'op | Settled 'r

record ('op, 'r, 's) atomic_obj =
  obj :: 's
  phase_of :: "nat \<Rightarrow> ('op, 'r) phase"
  trace :: "(nat \<times> ('op, 'r) event) list"

definition untouched :: "'s \<Rightarrow> ('op, 'r, 's) atomic_obj" where
  "untouched s = \<lparr>obj = s, phase_of = (\<lambda>_. Quiet), trace = []\<rparr>"

inductive atomic_step ::
  "('c \<Rightarrow> 'op \<Rightarrow> 's \<Rightarrow> 's \<times> 'r) \<Rightarrow> ('c \<Rightarrow> 'op \<Rightarrow> 's \<Rightarrow> bool) \<Rightarrow> ('s \<Rightarrow> 's \<Rightarrow> bool)
    \<Rightarrow> ('op, 'r, 's) atomic_obj \<Rightarrow> ('op, 'r, 's) atomic_obj \<Rightarrow> bool"
  for effect legal env where
  invoke: "phase_of a t = Quiet
     \<Longrightarrow> atomic_step effect legal env a
           (a\<lparr>phase_of := (phase_of a)(t := Pending op), trace := trace a @ [(t, Called op)]\<rparr>)"
| take_effect: "phase_of a t = Pending op \<Longrightarrow> legal c op (obj a) \<Longrightarrow> effect c op (obj a) = (s, r)
     \<Longrightarrow> atomic_step effect legal env a (a\<lparr>obj := s, phase_of := (phase_of a)(t := Settled r)\<rparr>)"
| respond: "phase_of a t = Settled r
     \<Longrightarrow> atomic_step effect legal env a
           (a\<lparr>phase_of := (phase_of a)(t := Quiet), trace := trace a @ [(t, Answer r)]\<rparr>)"
| elsewhere: "env (obj a) s \<Longrightarrow> atomic_step effect legal env a (a\<lparr>obj := s\<rparr>)"

inductive_cases guarded_stepE: "guarded_step exclusive entry exec valid env g g'"
inductive_cases atomic_stepE: "atomic_step effect legal env a a'"

section \<open>From statements to one effect\<close>

text \<open>
  \<open>fate\<close> tells whether the operation at a statement has taken effect already, and with what result;
  \<open>settle\<close> finishes the writes that are then left to do, or takes back the ones made too early.
\<close>

definition fate_of :: "('f \<Rightarrow> 'op + 'r) \<Rightarrow> 'f + 'r \<Rightarrow> 'op + 'r" where
  "fate_of fate x = (case x of Inl f \<Rightarrow> fate f | Inr r \<Rightarrow> Inr r)"

definition settle_of :: "('f \<Rightarrow> 's \<Rightarrow> 's) \<Rightarrow> 'f + 'r \<Rightarrow> 's \<Rightarrow> 's" where
  "settle_of settle x s = (case x of Inl f \<Rightarrow> settle f s | Inr r \<Rightarrow> s)"

definition phase_at :: "('f \<Rightarrow> 'op + 'r) \<Rightarrow> ('op, 'f, 'r) control \<Rightarrow> ('op, 'r) phase" where
  "phase_at fate c = (case c of Outside \<Rightarrow> Quiet | Waiting op \<Rightarrow> Pending op
     | Inside op f \<Rightarrow> (case fate f of Inl op' \<Rightarrow> Pending op' | Inr r \<Rightarrow> Settled r)
     | Unlocking op r \<Rightarrow> Settled r | WithResult r \<Rightarrow> Settled r)"

definition settled :: "('f \<Rightarrow> 's \<Rightarrow> 's) \<Rightarrow> ('op, 'f, 'r, 's) guarded \<Rightarrow> 's" where
  "settled settle g = (case writer g of None \<Rightarrow> shared g
     | Some t \<Rightarrow> (case ctl g t of Inside op f \<Rightarrow> settle f (shared g) | _ \<Rightarrow> shared g))"

definition atomic_view ::
  "('f \<Rightarrow> 'op + 'r) \<Rightarrow> ('f \<Rightarrow> 's \<Rightarrow> 's) \<Rightarrow> ('op, 'f, 'r, 's) guarded \<Rightarrow> ('op, 'r, 's) atomic_obj" where
  "atomic_view fate settle g =
     \<lparr>obj = settled settle g, phase_of = (\<lambda>t. phase_at fate (ctl g t)), trace = history g\<rparr>"

fun section_of :: "('op, 'f, 'r) control \<Rightarrow> 'op option" where
  "section_of (Inside op f) = Some op"
| "section_of (Unlocking op r) = Some op"
| "section_of _ = None"

text \<open>
  The lock discipline: the writer is alone, and exactly the goroutines in a section hold the lock in
  the mode their operation asked for.
\<close>

definition lock_inv :: "('op \<Rightarrow> bool) \<Rightarrow> ('op, 'f, 'r, 's) guarded \<Rightarrow> bool" where
  "lock_inv exclusive g \<longleftrightarrow> (writer g \<noteq> None \<longrightarrow> readers g = {})
     \<and> (\<forall>t. (writer g = Some t \<longleftrightarrow> (\<exists>op. section_of (ctl g t) = Some op \<and> exclusive op))
          \<and> (t \<in> readers g \<longleftrightarrow> (\<exists>op. section_of (ctl g t) = Some op \<and> \<not> exclusive op)))"

lemma section_resume [simp]: "section_of (resume op x) = Some op"
  by (simp add: resume_def split: sum.split)

lemma lock_inv_step: "lock_inv exclusive g \<Longrightarrow> guarded_step exclusive entry exec valid env g g' \<Longrightarrow> lock_inv exclusive g'"
proof (erule guarded_stepE, goal_cases)
  case (2 t op)
  then have "section_of (ctl g u) = None" for u
    by (cases "section_of (ctl g u)") (auto simp: lock_inv_def)
  with 2 show ?case by (auto simp: lock_inv_def)
next
  case (5 t op r)
  then have "writer g = Some t" by (auto simp: lock_inv_def)
  with 5 show ?case by (auto simp: lock_inv_def)
next
  case (6 t op r)
  then have "t \<in> readers g" by (auto simp: lock_inv_def)
  with 6 show ?case by (auto simp: lock_inv_def)
qed (auto simp: lock_inv_def)

lemma lock_writer:
  "lock_inv exclusive g \<Longrightarrow> section_of (ctl g t) = Some op \<Longrightarrow> exclusive op \<Longrightarrow> writer g = Some t \<and> readers g = {}"
  by (metis lock_inv_def option.discI)

lemma lock_reader:
  "lock_inv exclusive g \<Longrightarrow> section_of (ctl g t) = Some op \<Longrightarrow> \<not> exclusive op \<Longrightarrow> writer g = None \<and> t \<in> readers g"
  by (metis empty_iff lock_inv_def)

lemma lock_alone:
  assumes "lock_inv exclusive g" "writer g = Some t" "u \<noteq> t"
  shows "section_of (ctl g u) = None"
  using assms by (cases "section_of (ctl g u)") (auto simp: lock_inv_def)

lemma lock_inv_unused: "lock_inv exclusive (unused s)"
  by (simp add: lock_inv_def unused_def)

section \<open>The interface\<close>

text \<open>
  What a body promises: a reader only reads, in one statement; the first statement of a body has
  changed nothing; each statement keeps \<open>ok\<close>, and either leaves the settled object alone or makes the
  operation take effect on it; and what others do without the lock, they could do to the settled
  object as well.
\<close>

locale guarded_object =
  fixes exclusive :: "'op \<Rightarrow> bool" and entry :: "'op \<Rightarrow> 'f"
    and exec :: "'c \<Rightarrow> 'f \<Rightarrow> 's \<Rightarrow> 's \<times> ('f + 'r)" and valid :: "'c \<Rightarrow> 'f \<Rightarrow> 's \<Rightarrow> bool"
    and env :: "'s \<Rightarrow> 's \<Rightarrow> bool"
    and effect :: "'c \<Rightarrow> 'op \<Rightarrow> 's \<Rightarrow> 's \<times> 'r" and legal :: "'c \<Rightarrow> 'op \<Rightarrow> 's \<Rightarrow> bool"
    and good :: "'s \<Rightarrow> bool" and ok :: "'f \<Rightarrow> 's \<Rightarrow> bool"
    and fate :: "'f \<Rightarrow> 'op + 'r" and settle :: "'f \<Rightarrow> 's \<Rightarrow> 's"
  assumes reader: "\<not> exclusive op \<Longrightarrow> \<exists>r. exec c (entry op) s = (s, Inr r)"
    and entry: "fate (entry op) = Inl op" "settle (entry op) s = s" "good s \<Longrightarrow> ok (entry op) s"
    and exec_ok: "ok f s \<Longrightarrow> valid c f s \<Longrightarrow> exec c f s = (s', Inl f') \<Longrightarrow> ok f' s'"
    and exec_before: "ok f s \<Longrightarrow> valid c f s \<Longrightarrow> exec c f s = (s', x) \<Longrightarrow> fate f = Inl op
      \<Longrightarrow> fate_of fate x = Inl op \<and> settle_of settle x s' = settle f s
        \<or> (\<exists>r. fate_of fate x = Inr r \<and> legal c op (settle f s) \<and> effect c op (settle f s) = (settle_of settle x s', r))"
    and exec_after: "ok f s \<Longrightarrow> valid c f s \<Longrightarrow> exec c f s = (s', x) \<Longrightarrow> fate f = Inr r
      \<Longrightarrow> fate_of fate x = Inr r \<and> settle_of settle x s' = settle f s"
    and env_ok: "ok f s \<Longrightarrow> env s s' \<Longrightarrow> ok f s' \<and> env (settle f s) (settle f s')"
    and good_effect: "good s \<Longrightarrow> legal c op s \<Longrightarrow> effect c op s = (s', r) \<Longrightarrow> good s'"
    and good_env: "good s \<Longrightarrow> env s s' \<Longrightarrow> good s'"
begin

abbreviation mutex_step :: "('op, 'f, 'r, 's) guarded \<Rightarrow> ('op, 'f, 'r, 's) guarded \<Rightarrow> bool" where
  "mutex_step \<equiv> guarded_step exclusive entry exec valid env"

abbreviation view :: "('op, 'f, 'r, 's) guarded \<Rightarrow> ('op, 'r, 's) atomic_obj" where
  "view \<equiv> atomic_view fate settle"

definition body_inv :: "('op, 'f, 'r, 's) guarded \<Rightarrow> bool" where
  "body_inv g \<longleftrightarrow> lock_inv exclusive g \<and> good (settled settle g)
     \<and> (\<forall>t op f. ctl g t = Inside op f \<longrightarrow> ok f (shared g) \<and> (\<forall>op'. fate f = Inl op' \<longrightarrow> op' = op)
          \<and> (\<not> exclusive op \<longrightarrow> f = entry op))"

lemma body_lock: "body_inv g \<Longrightarrow> lock_inv exclusive g"
  by (simp add: body_inv_def)

lemma body_good: "body_inv g \<Longrightarrow> good (settled settle g)"
  by (simp add: body_inv_def)

lemma body_frame: "body_inv g \<Longrightarrow> ctl g t = Inside op f \<Longrightarrow> ok f (shared g) \<and> (\<not> exclusive op \<longrightarrow> f = entry op)"
  by (simp add: body_inv_def)

lemma settled_None: "writer g = None \<Longrightarrow> settled settle g = shared g"
  by (simp add: settled_def)

text \<open>A goroutine at a statement of a body: what the others see of the object is its settled state.\<close>

lemma settled_inside:
  assumes "body_inv g" "ctl g t = Inside op f"
  shows "settled settle g = settle f (shared g)"
proof (cases "exclusive op")
  case True
  with assms lock_writer [OF body_lock, of g t op] show ?thesis by (simp add: settled_def)
next
  case False
  with assms lock_reader [OF body_lock, of g t op] show ?thesis
    using body_frame [OF assms] entry(2) by (simp add: settled_None)
qed

lemma settled_unlocking:
  assumes "lock_inv exclusive g" "ctl g t = Unlocking op r"
  shows "settled settle g = shared g"
  using assms lock_writer [OF assms(1), of t op] lock_reader [OF assms(1), of t op]
  by (cases "exclusive op") (simp_all add: settled_def)

lemma phase_resume [simp]:
  "phase_at fate (resume op x) = (case fate_of fate x of Inl op' \<Rightarrow> Pending op' | Inr r \<Rightarrow> Settled r)"
  by (cases x) (simp_all add: phase_at_def resume_def fate_of_def)

lemma reader_run:
  assumes "body_inv g" "ctl g t = Inside op f" "\<not> exclusive op" "exec c f (shared g) = (s, x)"
  shows "s = shared g \<and> (\<exists>r. x = Inr r)"
  using reader [OF assms(3), of c "shared g"] body_frame [OF assms(1,2)] assms(3,4) by auto

text \<open>Where a goroutine runs alone under the lock, or reads, what it leaves settled is the new object.\<close>

lemma settled_run:
  assumes inv: "body_inv g" and at: "ctl g t = Inside op f"
    and ex: "exec c f (shared g) = (s, x)"
  shows "settled settle (g\<lparr>shared := s, ctl := (ctl g)(t := resume op x)\<rparr>) = settle_of settle x s"
proof (cases "exclusive op")
  case True
  then have "writer g = Some t" using lock_writer [OF body_lock [OF inv]] at by simp
  then show ?thesis by (cases x) (simp_all add: settled_def resume_def settle_of_def)
next
  case False
  then obtain r where "s = shared g" "x = Inr r" using reader_run [OF inv at False ex] by blast
  then show ?thesis using False lock_reader [OF body_lock [OF inv], of t op] at False by (simp add: settled_def settle_of_def)
qed

lemma effect_run:
  assumes inv: "body_inv g" and at: "ctl g t = Inside op f" and v: "valid c f (shared g)"
    and ex: "exec c f (shared g) = (s, x)"
  shows "fate f = Inl op \<and> fate_of fate x = Inl op \<and> settle_of settle x s = settled settle g
    \<or> (\<exists>r. fate f = Inl op \<and> fate_of fate x = Inr r \<and> legal c op (settled settle g)
          \<and> effect c op (settled settle g) = (settle_of settle x s, r))
    \<or> (\<exists>r. fate f = Inr r \<and> fate_of fate x = Inr r \<and> settle_of settle x s = settled settle g)"
proof -
  have ok: "ok f (shared g)" and op: "\<forall>op'. fate f = Inl op' \<longrightarrow> op' = op"
    using inv at by (auto simp: body_inv_def)
  show ?thesis
  proof (cases "fate f")
    case (Inl op')
    then show ?thesis using exec_before [OF ok v ex Inl] op settled_inside [OF inv at] by auto
  next
    case (Inr r)
    then show ?thesis using exec_after [OF ok v ex Inr] settled_inside [OF inv at] by simp
  qed
qed

lemma take_step:
  "phase_of a t = Pending op \<Longrightarrow> legal c op (obj a) \<Longrightarrow> effect c op (obj a) = (s, r)
    \<Longrightarrow> atomic_step effect legal env a (a\<lparr>obj := s, phase_of := (phase_of a)(t := Settled r)\<rparr>)"
  by (rule atomic_step.take_effect)

lemma run_step:
  "ctl g t = Inside op f \<Longrightarrow> valid c f (shared g) \<Longrightarrow> exec c f (shared g) = (s, x)
    \<Longrightarrow> mutex_step g (g\<lparr>shared := s, ctl := (ctl g)(t := resume op x)\<rparr>)"
  by (rule guarded_step.run)

lemma lock_step:
  "ctl g t = Waiting op \<Longrightarrow> exclusive op \<Longrightarrow> writer g = None \<Longrightarrow> readers g = {}
    \<Longrightarrow> mutex_step g (g\<lparr>writer := Some t, ctl := (ctl g)(t := Inside op (entry op))\<rparr>)"
  "ctl g t = Waiting op \<Longrightarrow> \<not> exclusive op \<Longrightarrow> writer g = None
    \<Longrightarrow> mutex_step g (g\<lparr>readers := insert t (readers g), ctl := (ctl g)(t := Inside op (entry op))\<rparr>)"
  by (fact guarded_step.lock guarded_step.rlock)+

lemma unlock_step:
  "ctl g t = Unlocking op r \<Longrightarrow> exclusive op
    \<Longrightarrow> mutex_step g (g\<lparr>writer := None, ctl := (ctl g)(t := WithResult r)\<rparr>)"
  "ctl g t = Unlocking op r \<Longrightarrow> \<not> exclusive op
    \<Longrightarrow> mutex_step g (g\<lparr>readers := readers g - {t}, ctl := (ctl g)(t := WithResult r)\<rparr>)"
  by (fact guarded_step.unlock guarded_step.runlock)+

lemma give_step:
  "ctl g t = WithResult r
    \<Longrightarrow> mutex_step g (g\<lparr>ctl := (ctl g)(t := Outside), history := history g @ [(t, Answer r)]\<rparr>)"
  by (rule guarded_step.give)

lemma body_run:
  assumes inv: "body_inv g" and at: "ctl g t = Inside op f" and v: "valid c f (shared g)"
    and ex: "exec c f (shared g) = (s, x)"
  shows "body_inv (g\<lparr>shared := s, ctl := (ctl g)(t := resume op x)\<rparr>)" (is "body_inv ?g")
proof -
  have ok: "ok f (shared g)" and op: "\<forall>op'. fate f = Inl op' \<longrightarrow> op' = op"
    using inv at by (auto simp: body_inv_def)
  note ef = effect_run [OF assms]
  have "lock_inv exclusive ?g"
    using lock_inv_step [OF body_lock [OF inv] run_step [OF at v ex]] .
  moreover have "good (settled settle ?g)"
    unfolding settled_run [OF inv at ex] using ef body_good [OF inv] good_effect by metis
  moreover have "ok f' s \<and> (\<forall>op'. fate f' = Inl op' \<longrightarrow> op' = o') \<and> (\<not> exclusive o' \<longrightarrow> f' = entry o')"
    if u: "ctl ?g u = Inside o' f'" for u o' f'
  proof (cases "u = t")
    case True
    then have x: "x = Inl f'" "o' = op" using u by (auto simp: resume_def split: sum.splits)
    then have "exclusive op" using reader_run [OF inv at _ ex] by blast
    moreover have "op' = op" if "fate f' = Inl op'" for op'
      using that ef x by (auto simp: fate_of_def)
    ultimately show ?thesis using x exec_ok [OF ok v] ex by simp
  next
    case False
    then have cu: "ctl g u = Inside o' f'" using u by simp
    then have "\<not> exclusive op"
      using lock_writer [OF body_lock [OF inv], of t op] lock_alone [OF body_lock [OF inv] _ False] at by auto
    then have "s = shared g" using reader_run [OF inv at _ ex] by blast
    then show ?thesis using inv cu by (auto simp: body_inv_def)
  qed
  ultimately show ?thesis by (simp add: body_inv_def)
qed

lemma view_run:
  assumes inv: "body_inv g" and at: "ctl g t = Inside op f" and v: "valid c f (shared g)"
    and ex: "exec c f (shared g) = (s, x)"
  shows "(atomic_step effect legal env)\<^sup>*\<^sup>* (view g) (view (g\<lparr>shared := s, ctl := (ctl g)(t := resume op x)\<rparr>))"
proof -
  let ?a = "view g" and ?b = "view (g\<lparr>shared := s, ctl := (ctl g)(t := resume op x)\<rparr>)"
  note se = settled_run [OF inv at ex]
  have ph: "phase_of ?b = (phase_of ?a)(t := case fate_of fate x of Inl op' \<Rightarrow> Pending op' | Inr r \<Rightarrow> Settled r)"
    by (auto simp: atomic_view_def)
  have pa: "phase_of ?a t = (case fate f of Inl op' \<Rightarrow> Pending op' | Inr r \<Rightarrow> Settled r)"
    using at by (simp add: atomic_view_def phase_at_def)
  have tr: "trace ?b = trace ?a" and ob: "obj ?b = settle_of settle x s" "obj ?a = settled settle g"
    using se by (simp_all add: atomic_view_def)
  consider (quiet) "phase_of ?b = phase_of ?a" "obj ?b = obj ?a"
    | (point) r where "phase_of ?a t = Pending op" "legal c op (obj ?a)" "effect c op (obj ?a) = (obj ?b, r)"
        "phase_of ?b = (phase_of ?a)(t := Settled r)"
    using effect_run [OF assms] by (auto simp: ph pa ob fun_upd_idem)
  then show ?thesis
  proof cases
    case quiet
    then have "?b = ?a" using tr by simp
    then show ?thesis by simp
  next
    case point
    have "?b = ?a\<lparr>obj := obj ?b, phase_of := (phase_of ?a)(t := Settled r)\<rparr>" using point(4) tr by simp
    then show ?thesis using take_step [OF point(1-3)] by (metis r_into_rtranclp)
  qed
qed

lemma settled_quiet:
  assumes "section_of (ctl g t) = None" "section_of c = None"
  shows "settled settle (g\<lparr>ctl := (ctl g)(t := c), history := h\<rparr>) = settled settle g"
  using assms by (cases "ctl g t"; cases c) (simp_all add: settled_def split: option.split control.split)

lemma settled_env:
  assumes "body_inv g" "env (shared g) s"
  shows "env (settled settle g) (settled settle (g\<lparr>shared := s\<rparr>))"
proof (cases "\<exists>t op f. writer g = Some t \<and> ctl g t = Inside op f")
  case True
  then obtain t op f where "writer g = Some t" "ctl g t = Inside op f" by blast
  then show ?thesis using env_ok assms body_frame [OF assms(1)] by (simp add: settled_def)
next
  case False
  then show ?thesis using assms(2) by (auto simp: settled_def split: option.split control.split)
qed

lemma body_invI:
  assumes "body_inv g" "mutex_step g g'" "good (settled settle g')"
    and "\<And>t op f. ctl g' t = Inside op f \<Longrightarrow>
      ok f (shared g') \<and> (\<forall>op'. fate f = Inl op' \<longrightarrow> op' = op) \<and> (\<not> exclusive op \<longrightarrow> f = entry op)"
  shows "body_inv g'"
  using assms lock_inv_step [OF body_lock [OF assms(1)] assms(2)] by (simp add: body_inv_def)

lemma body_inv_step:
  assumes inv: "body_inv g" and step: "mutex_step g g'"
  shows "body_inv g'"
proof -
  have fr: "ok f (shared g) \<and> (\<forall>op'. fate f = Inl op' \<longrightarrow> op' = op) \<and> (\<not> exclusive op \<longrightarrow> f = entry op)"
    if "ctl g t = Inside op f" for t op f
    using inv that by (auto simp: body_inv_def)
  note good = body_good [OF inv]
  from step show ?thesis
  proof (cases rule: guarded_step.cases)
    case (call t op)
    then have "settled settle g' = settled settle g" using settled_quiet [of g t "Waiting op"] by simp
    then show ?thesis
      by (intro body_invI [OF inv step]) (use good call fr in \<open>auto split: if_splits\<close>)
  next
    case (lock t op)
    then have w: "settled settle g' = shared g" "settled settle g = shared g"
      using entry(2) by (simp_all add: settled_def)
    show ?thesis
      by (intro body_invI [OF inv step]) (use w good lock fr entry in \<open>auto split: if_splits\<close>)
  next
    case (rlock t op)
    then have w: "settled settle g' = shared g" "settled settle g = shared g"
      by (simp_all add: settled_def)
    show ?thesis
      by (intro body_invI [OF inv step]) (use w good rlock fr entry in \<open>auto split: if_splits\<close>)
  next
    case (run t op f c s x)
    then show ?thesis using body_run [OF inv] by simp
  next
    case (unlock t op r)
    then have "settled settle g' = settled settle g"
      using settled_unlocking [OF body_lock [OF inv]] by (simp add: settled_def)
    then show ?thesis
      by (intro body_invI [OF inv step]) (use good unlock fr in \<open>auto split: if_splits\<close>)
  next
    case (runlock t op r)
    then have "settled settle g' = settled settle g"
      using lock_reader [OF body_lock [OF inv], of t op] by (simp add: settled_def)
    then show ?thesis
      by (intro body_invI [OF inv step]) (use good runlock fr in \<open>auto split: if_splits\<close>)
  next
    case (give t r)
    then have "settled settle g' = settled settle g" using settled_quiet [of g t Outside] by simp
    then show ?thesis
      by (intro body_invI [OF inv step]) (use good give fr in \<open>auto split: if_splits\<close>)
  next
    case (others s)
    have "good (settled settle g')" using good_env [OF good] settled_env [OF inv] others by simp
    moreover have "ok f (shared g')" if "ctl g t = Inside op f" for t op f
      using env_ok [OF conjunct1 [OF fr [OF that]] others(2)] others(1) by simp
    ultimately show ?thesis using fr others by (intro body_invI [OF inv step]) auto
  qed
qed

lemma body_inv_unused: "good s \<Longrightarrow> body_inv (unused s)"
  by (simp add: body_inv_def lock_inv_unused settled_def) (simp add: unused_def)

lemma view_unused: "view (unused s) = untouched s"
  by (simp add: atomic_view_def settled_def unused_def untouched_def phase_at_def)

lemma view_step:
  assumes inv: "body_inv g" and step: "mutex_step g g'"
  shows "(atomic_step effect legal env)\<^sup>*\<^sup>* (view g) (view g')"
proof -
  have single: "(atomic_step effect legal env)\<^sup>*\<^sup>* (view g) (view g')" if "view g' = b" "atomic_step effect legal env (view g) b" for b
    using that by simp
  from step show ?thesis
  proof (cases rule: guarded_step.cases)
    case (call t op)
    then have "settled settle g' = settled settle g" using settled_quiet [of g t "Waiting op"] by simp
    then show ?thesis using call
      by (intro single [OF _ atomic_step.invoke [where t = t and op = op]]) (auto simp: atomic_view_def phase_at_def)
  next
    case (lock t op)
    then have "settled settle g' = settled settle g" using entry(2) by (simp_all add: settled_def)
    then have "view g' = view g" using lock entry by (auto simp: atomic_view_def phase_at_def)
    then show ?thesis by simp
  next
    case (rlock t op)
    then have "settled settle g' = settled settle g" by (simp_all add: settled_def)
    then have "view g' = view g" using rlock entry by (auto simp: atomic_view_def phase_at_def)
    then show ?thesis by simp
  next
    case (run t op f c s x)
    then show ?thesis using view_run [OF inv] by simp
  next
    case (unlock t op r)
    then have "settled settle g' = settled settle g"
      using settled_unlocking [OF body_lock [OF inv]] by (simp add: settled_def)
    then have "view g' = view g" using unlock by (auto simp: atomic_view_def phase_at_def)
    then show ?thesis by simp
  next
    case (runlock t op r)
    then have "settled settle g' = settled settle g"
      using lock_reader [OF body_lock [OF inv], of t op] by (simp add: settled_def)
    then have "view g' = view g" using runlock by (auto simp: atomic_view_def phase_at_def)
    then show ?thesis by simp
  next
    case (give t r)
    then have "settled settle g' = settled settle g" using settled_quiet [of g t Outside] by simp
    then show ?thesis using give
      by (intro single [OF _ atomic_step.respond [where t = t and r = r]]) (auto simp: atomic_view_def phase_at_def)
  next
    case (others s)
    then show ?thesis using settled_env [OF inv]
      by (intro single [OF _ atomic_step.elsewhere]) (auto simp: atomic_view_def)
  qed
qed

end

text \<open>The lock makes the object atomic, whatever object it is.\<close>

sublocale guarded_object \<subseteq>
  refined: forward_simulation "\<lambda>g. \<exists>s. good s \<and> g = unused s" mutex_step body_inv
    "\<lambda>a. \<exists>s. good s \<and> a = untouched s" "atomic_step effect legal env" view
proof unfold_locales
  fix g g' :: "('op, 'f, 'r, 's) guarded"
  show "body_inv g" if "\<exists>s. good s \<and> g = unused s" using that body_inv_unused by blast
  show "body_inv g'" if "body_inv g" "mutex_step g g'" using body_inv_step that .
  show "\<exists>s. good s \<and> view g = untouched s" if "\<exists>s. good s \<and> g = unused s"
    using that view_unused by blast
  show "(atomic_step effect legal env)\<^sup>*\<^sup>* (view g) (view g')" if "body_inv g" "mutex_step g g'"
    using view_step that .
qed

section \<open>No deadlock\<close>

text \<open>
  When every body is finite, the lock is always given back: whoever waits for it can be served, by
  letting the goroutines inside finish and then taking the lock, with no new call in between.
\<close>

definition in_section :: "('op, 'f, 'r, 's) guarded \<Rightarrow> nat set" where
  "in_section g = {t. section_of (ctl g t) \<noteq> None}"

lemma finite_callers:
  "guarded_step exclusive entry exec valid env g g' \<Longrightarrow> finite {t. ctl g t \<noteq> Outside} \<Longrightarrow> finite {t. ctl g' t \<noteq> Outside}"
proof (erule guarded_stepE, goal_cases)
  case (8 s)
  then show ?case by simp
qed (erule rev_finite_subset [OF finite.insertI], auto split: if_splits)+

lemma in_section_callers: "in_section g \<subseteq> {t. ctl g t \<noteq> Outside}"
  by (auto simp: in_section_def)

locale bounded_section = guarded_object +
  fixes left :: "'b \<Rightarrow> nat"
  assumes choice: "ok f s \<Longrightarrow> \<exists>c. valid c f s"
    and closer: "ok f s \<Longrightarrow> valid c f s \<Longrightarrow> exec c f s = (s', Inl f') \<Longrightarrow> left f' < left f"
begin

text \<open>The goroutine inside reaches its deferred unlock in at most \<open>left f\<close> further statements after the next.\<close>

lemma reach_unlock:
  "body_inv g \<Longrightarrow> ctl g t = Inside op f \<Longrightarrow>
    \<exists>n g' s r. n \<le> Suc (left f) \<and> (mutex_step ^^ n) g g' \<and> g' = g\<lparr>shared := s, ctl := (ctl g)(t := Unlocking op r)\<rparr>"
proof (induction "left f" arbitrary: g f rule: less_induct)
  case less
  note ok = conjunct1 [OF body_frame [OF less(2,3)]]
  obtain c where v: "valid c f (shared g)" using choice [OF ok] by blast
  obtain s x where ex: "exec c f (shared g) = (s, x)" by fastforce
  let ?g = "g\<lparr>shared := s, ctl := (ctl g)(t := resume op x)\<rparr>"
  note step = run_step [OF less(3) v ex]
  show ?case
  proof (cases x)
    case (Inr r)
    have "(mutex_step ^^ 1) g ?g" using step by (simp only: relpowp_1)
    then show ?thesis using Inr by (intro exI [of _ 1] exI [of _ ?g] exI [of _ s] exI [of _ r]) (simp add: resume_def)
  next
    case (Inl f')
    then have "left f' < left f" using closer [OF ok v] ex by simp
    moreover have "ctl ?g t = Inside op f'" using Inl by (simp add: resume_def)
    ultimately obtain n g' s' r where n: "n \<le> Suc (left f')" "(mutex_step ^^ n) ?g g'"
      "g' = ?g\<lparr>shared := s', ctl := (ctl ?g)(t := Unlocking op r)\<rparr>"
      using less(1) body_run [OF less(2,3) v ex] by blast
    have "(mutex_step ^^ Suc n) g g'" using step n(2) by (rule relpowp_Suc_I2)
    then show ?thesis using n(1,3) \<open>left f' < left f\<close>
      by (intro exI [of _ "Suc n"] exI [of _ g'] exI [of _ s'] exI [of _ r]) simp
  qed
qed

lemma body_inv_steps: "mutex_step\<^sup>*\<^sup>* g g' \<Longrightarrow> body_inv g \<Longrightarrow> body_inv g'"
  by (induction rule: rtranclp_induct) (auto intro: body_inv_step)

text \<open>One goroutine leaves its section; nobody else moves.\<close>

lemma leave_section:
  assumes "body_inv g" "section_of (ctl g t) = Some op"
  shows "\<exists>g' r. mutex_step\<^sup>*\<^sup>* g g' \<and> ctl g' = (ctl g)(t := WithResult r) \<and> history g' = history g"
proof -
  obtain g1 r where g1: "mutex_step\<^sup>*\<^sup>* g g1" "ctl g1 = (ctl g)(t := Unlocking op r)" "history g1 = history g"
  proof (cases "ctl g t")
    case (Inside o' f)
    then have "ctl g t = Inside op f" using assms(2) by simp
    from reach_unlock [OF assms(1) this] obtain n g1 s r where
      g1: "(mutex_step ^^ n) g g1" "g1 = g\<lparr>shared := s, ctl := (ctl g)(t := Unlocking op r)\<rparr>" by blast
    from relpowp_imp_rtranclp [OF g1(1)] show ?thesis
      by (rule that [of _ r]) (simp_all add: g1(2))
  next
    case (Unlocking o' r)
    then have "ctl g = (ctl g)(t := Unlocking op r)" using assms(2) by auto
    then show ?thesis using that [of g r] by simp
  qed (use assms(2) in auto)
  have u: "ctl g1 t = Unlocking op r" using g1(2) by simp
  show ?thesis
  proof (cases "exclusive op")
    case True
    from unlock_step(1) [OF u True] g1 show ?thesis
      by (intro exI [of _ "g1\<lparr>writer := None, ctl := (ctl g1)(t := WithResult r)\<rparr>"] exI [of _ r])
        (auto intro: rtranclp.rtrancl_into_rtrancl)
  next
    case False
    from unlock_step(2) [OF u False] g1 show ?thesis
      by (intro exI [of _ "g1\<lparr>readers := readers g1 - {t}, ctl := (ctl g1)(t := WithResult r)\<rparr>"] exI [of _ r])
        (auto intro: rtranclp.rtrancl_into_rtrancl)
  qed
qed

lemma drain:
  assumes "body_inv g" "finite (in_section g)"
  shows "\<exists>g'. mutex_step\<^sup>*\<^sup>* g g' \<and> in_section g' = {} \<and> history g' = history g \<and> (\<forall>u. u \<notin> in_section g \<longrightarrow> ctl g' u = ctl g u)"
  using assms
proof (induction "card (in_section g)" arbitrary: g rule: less_induct)
  case less
  show ?case
  proof (cases "in_section g = {}")
    case True
    then show ?thesis by blast
  next
    case False
    then obtain t op where t: "t \<in> in_section g" "section_of (ctl g t) = Some op" by (auto simp: in_section_def)
    obtain g1 r where g1: "mutex_step\<^sup>*\<^sup>* g g1" "ctl g1 = (ctl g)(t := WithResult r)" "history g1 = history g"
      using leave_section [OF less(2) t(2)] by blast
    have b: "in_section g1 = in_section g - {t}" using g1(2) by (auto simp: in_section_def)
    then have "card (in_section g1) < card (in_section g)" using t(1) less(3) by (metis card_Diff1_less)
    then obtain g' where "mutex_step\<^sup>*\<^sup>* g1 g'" "in_section g' = {}" "history g' = history g1"
      "\<forall>u. u \<notin> in_section g1 \<longrightarrow> ctl g' u = ctl g1 u"
      using less(1) body_inv_steps [OF g1(1) less(2)] b less(3) by (metis finite_Diff)
    then show ?thesis using g1 b t(1) by (intro exI [of _ g']) (auto intro: rtranclp_trans)
  qed
qed

lemma give_back:
  assumes "body_inv g" "section_of (ctl g t) = Some op"
  shows "\<exists>g' r. mutex_step\<^sup>*\<^sup>* g g' \<and> history g' = history g @ [(t, Answer r)]"
proof -
  obtain g1 r where g1: "mutex_step\<^sup>*\<^sup>* g g1" "ctl g1 = (ctl g)(t := WithResult r)" "history g1 = history g"
    using leave_section [OF assms] by blast
  then have "ctl g1 t = WithResult r" by simp
  from give_step [OF this] g1 show ?thesis
    by (intro exI [of _ "g1\<lparr>ctl := (ctl g1)(t := Outside), history := history g1 @ [(t, Answer r)]\<rparr>"] exI [of _ r])
      (auto intro: rtranclp.rtrancl_into_rtrancl)
qed

lemma can_be_served:
  assumes inv: "body_inv g" and fin: "finite (in_section g)" and at: "ctl g t = Waiting op"
  shows "\<exists>g' r. mutex_step\<^sup>*\<^sup>* g g' \<and> history g' = history g @ [(t, Answer r)]"
proof -
  obtain g1 where g1: "mutex_step\<^sup>*\<^sup>* g g1" "in_section g1 = {}" "history g1 = history g" "ctl g1 t = ctl g t"
    using drain [OF inv fin] at by (metis (mono_tags) in_section_def mem_Collect_eq section_of.simps(4))
  note inv1 = body_inv_steps [OF g1(1) inv]
  have free: "writer g1 = None" "readers g1 = {}"
    using body_lock [OF inv1] g1(2) by (auto simp: lock_inv_def in_section_def)
  have at1: "ctl g1 t = Waiting op" using g1(4) at by simp
  obtain g2 where g2: "mutex_step g1 g2" "ctl g2 t = Inside op (entry op)" "history g2 = history g1"
  proof (cases "exclusive op")
    case True
    from lock_step(1) [OF at1 True free] show ?thesis by (rule that) simp_all
  next
    case False
    from lock_step(2) [OF at1 False free(1)] show ?thesis by (rule that) simp_all
  qed
  have sec: "section_of (ctl g2 t) = Some op" by (simp add: g2(2))
  obtain g' r where h: "mutex_step\<^sup>*\<^sup>* g2 g'" "history g' = history g2 @ [(t, Answer r)]"
    using give_back [OF body_inv_step [OF inv1 g2(1)] sec] by blast
  have "mutex_step\<^sup>*\<^sup>* g g'"
    by (rule rtranclp_trans [OF g1(1) converse_rtranclp_into_rtranclp [OF g2(1) h(1)]])
  then show ?thesis using h(2) g2(3) g1(3) by (intro exI [of _ g'] exI [of _ r]) simp
qed

end

end
