(* ===== verification/Nexus_Locks.thy ===== *)
theory Nexus_Locks
  imports Nexus_Extract Go_Mutex
begin

text \<open>
  The methods of \<open>internal/state/pool.go\<close> statement by statement, under \<open>p.mu\<close>: every write of the
  source is a step of its own, and goroutines call the methods at any time. The channels of the
  players are used by the gateways and the matchmaker without the lock. The other theories treat each
  method as one function on the pool; this one shows that the lock makes that right.
\<close>

section \<open>The methods, statement by statement\<close>

datatype pool_op =
    OpEnqueue string string i32 | OpReEnqueue QueuedPlayer | OpDequeue string
  | OpContains string | OpSize | OpExtractMatch

datatype pool_result =
    REnqueue "pool_error + QueuedPlayer" | RReEnqueue "pool_error option" | RDequeue "bool outcome"
  | RContains bool | RSize nat | RExtractMatch "QueuedPlayer list option"

text \<open>
  The statement a goroutine is at, with its local variables. \<open>DeqClose\<close> also remembers the bracket
  index from before the removal; no statement reads it, only the proof does.
\<close>

datatype pool_at =
    EnqCheck string string i32 | EnqMake string string i32 | EnqStore QueuedPlayer | EnqIndex QueuedPlayer
  | ReCheck QueuedPlayer | ReStore QueuedPlayer | ReIndex QueuedPlayer
  | DeqCheck string | DeqIndex string QueuedPlayer
  | DeqClose string QueuedPlayer "int \<rightharpoonup> QueuedPlayer slice" | DeqDelete string
  | AtContains string | AtSize
  | ExSelect | ExIndex "QueuedPlayer list" "QueuedPlayer list"
  | ExDelete QueuedPlayer "QueuedPlayer list" "QueuedPlayer list"

type_synonym pool_next = "Pool \<times> (pool_at + pool_result)"

definition store_player :: "QueuedPlayer \<Rightarrow> Pool \<Rightarrow> Pool" where
  "store_player qp p = p\<lparr>players := (players p)(PlayerID qp \<mapsto> qp)\<rparr>"

definition index_player :: "(nat \<Rightarrow> nat \<Rightarrow> nat) \<Rightarrow> QueuedPlayer \<Rightarrow> Pool \<Rightarrow> Pool" where
  "index_player grow qp p =
     (let bk = bk_of qp
      in p\<lparr>brackets := (brackets p)(bk \<mapsto> insertSorted grow (slice_at (brackets p) bk) qp)\<rparr>)"

definition unindex_player :: "string \<Rightarrow> QueuedPlayer \<Rightarrow> Pool \<Rightarrow> Pool" where
  "unindex_player pid qp p = p\<lparr>brackets := unbracket (bk_of qp) pid (brackets p)\<rparr>"

definition delete_player :: "string \<Rightarrow> Pool \<Rightarrow> Pool" where
  "delete_player pid p = p\<lparr>players := (players p)(pid := None)\<rparr>"

subsection \<open>Enqueue and ReEnqueue\<close>

definition enqueue_check :: "string \<Rightarrow> string \<Rightarrow> i32 \<Rightarrow> Pool \<Rightarrow> pool_next" where
  "enqueue_check pid name m p =
     (p, if players p pid \<noteq> None then Inr (REnqueue (Inl (AlreadyQueued pid))) else Inl (EnqMake pid name m))"

definition enqueue_make :: "gtime \<Rightarrow> string \<Rightarrow> string \<Rightarrow> i32 \<Rightarrow> Pool \<Rightarrow> pool_next" where
  "enqueue_make now pid name m p =
     (let (heap, ch) = make_chan 1 (match_heap p)
      in (p\<lparr>match_heap := heap\<rparr>,
          Inl (EnqStore \<lparr>PlayerID = pid, DisplayName = name, MMR = m, EnqueuedAt = now, MatchCh = ch\<rparr>)))"

definition reenqueue_check :: "QueuedPlayer \<Rightarrow> Pool \<Rightarrow> pool_next" where
  "reenqueue_check qp p =
     (p, if players p (PlayerID qp) \<noteq> None then Inr (RReEnqueue (Some (AlreadyQueued (PlayerID qp))))
         else Inl (ReStore qp))"

subsection \<open>Dequeue\<close>

definition dequeue_check :: "string \<Rightarrow> Pool \<Rightarrow> pool_next" where
  "dequeue_check pid p = (p, case players p pid of None \<Rightarrow> Inr (RDequeue (Ret False)) | Some qp \<Rightarrow> Inl (DeqIndex pid qp))"

definition dequeue_close :: "string \<Rightarrow> QueuedPlayer \<Rightarrow> Pool \<Rightarrow> pool_next" where
  "dequeue_close pid qp p = (case chan_close (MatchCh qp) (match_heap p) of
       Panic \<Rightarrow> (p, Inr (RDequeue Panic))
     | Ret heap \<Rightarrow> (p\<lparr>match_heap := heap\<rparr>, Inl (DeqDelete pid)))"

subsection \<open>ExtractMatch\<close>

text \<open>Everything up to the removal only reads the pool.\<close>

definition extract_select ::
  "((QueuedPlayer \<Rightarrow> QueuedPlayer \<Rightarrow> bool) \<Rightarrow> QueuedPlayer list \<Rightarrow> QueuedPlayer list) \<Rightarrow> int list
    \<Rightarrow> gtime \<Rightarrow> Pool \<Rightarrow> QueuedPlayer list option" where
  "extract_select srt ks now p =
     (let (bestBK, bestCount) = best_bracket ks (brackets p)
      in if bestBK = -1 then None
         else
           let candidates = candidates_of (brackets p) bestBK
           in if length candidates < PlayersPerMatch then None
              else
                let sorted = srt (\<lambda>a b. mmr a < mmr b) candidates
                in Some (take PlayersPerMatch (drop (best_window now sorted) sorted)))"

fun extract_turn :: "QueuedPlayer list \<Rightarrow> QueuedPlayer list \<Rightarrow> Pool \<Rightarrow> pool_next" where
  "extract_turn [] sel p = (p, Inr (RExtractMatch (Some sel)))"
| "extract_turn (qp # todo) sel p = (unindex_player (PlayerID qp) qp p, Inl (ExDelete qp todo sel))"

subsection \<open>One statement\<close>

fun pool_entry :: "pool_op \<Rightarrow> pool_at" where
  "pool_entry (OpEnqueue pid name m) = EnqCheck pid name m"
| "pool_entry (OpReEnqueue qp) = ReCheck qp"
| "pool_entry (OpDequeue pid) = DeqCheck pid"
| "pool_entry (OpContains pid) = AtContains pid"
| "pool_entry OpSize = AtSize"
| "pool_entry OpExtractMatch = ExSelect"

text \<open>\<open>Contains\<close> and \<open>Size\<close> take the lock with \<open>RLock\<close>, all others with \<open>Lock\<close>.\<close>

fun takes_lock :: "pool_op \<Rightarrow> bool" where
  "takes_lock (OpContains pid) = False"
| "takes_lock OpSize = False"
| "takes_lock _ = True"

text \<open>The choices of a statement: the clock, and the iteration order of the bracket map.\<close>

type_synonym pool_choice = "gtime \<times> int list"

fun pool_exec ::
  "(nat \<Rightarrow> nat \<Rightarrow> nat) \<Rightarrow> ((QueuedPlayer \<Rightarrow> QueuedPlayer \<Rightarrow> bool) \<Rightarrow> QueuedPlayer list \<Rightarrow> QueuedPlayer list)
    \<Rightarrow> pool_choice \<Rightarrow> pool_at \<Rightarrow> Pool \<Rightarrow> pool_next" where
  "pool_exec grow srt c (EnqCheck pid name m) p = enqueue_check pid name m p"
| "pool_exec grow srt c (EnqMake pid name m) p = enqueue_make (fst c) pid name m p"
| "pool_exec grow srt c (EnqStore qp) p = (store_player qp p, Inl (EnqIndex qp))"
| "pool_exec grow srt c (EnqIndex qp) p = (index_player grow qp p, Inr (REnqueue (Inr qp)))"
| "pool_exec grow srt c (ReCheck qp) p = reenqueue_check qp p"
| "pool_exec grow srt c (ReStore qp) p = (store_player qp p, Inl (ReIndex qp))"
| "pool_exec grow srt c (ReIndex qp) p = (index_player grow qp p, Inr (RReEnqueue None))"
| "pool_exec grow srt c (DeqCheck pid) p = dequeue_check pid p"
| "pool_exec grow srt c (DeqIndex pid qp) p = (unindex_player pid qp p, Inl (DeqClose pid qp (brackets p)))"
| "pool_exec grow srt c (DeqClose pid qp old) p = dequeue_close pid qp p"
| "pool_exec grow srt c (DeqDelete pid) p = (delete_player pid p, Inr (RDequeue (Ret True)))"
| "pool_exec grow srt c (AtContains pid) p = (p, Inr (RContains (Contains pid p)))"
| "pool_exec grow srt c AtSize p = (p, Inr (RSize (Size p)))"
| "pool_exec grow srt c ExSelect p =
     (p, case extract_select srt (snd c) (fst c) p of None \<Rightarrow> Inr (RExtractMatch None) | Some sel \<Rightarrow> Inl (ExIndex sel sel))"
| "pool_exec grow srt c (ExIndex todo sel) p = extract_turn todo sel p"
| "pool_exec grow srt c (ExDelete qp todo sel) p = (delete_player (PlayerID qp) p, Inl (ExIndex todo sel))"

definition pool_valid :: "pool_choice \<Rightarrow> pool_at \<Rightarrow> Pool \<Rightarrow> bool" where
  "pool_valid c f p \<longleftrightarrow> (f = ExSelect \<longrightarrow> covers (snd c) (brackets p))"

text \<open>What goes on without the lock: receives and guarded sends on the channels of players.\<close>

definition channel_use :: "Pool \<Rightarrow> Pool \<Rightarrow> bool" where
  "channel_use p p' \<longleftrightarrow> (\<exists>H. p' = p\<lparr>match_heap := H\<rparr>
     \<and> ((\<exists>ch r. chan_recv ch (match_heap p) = (r, H)) \<or> (\<exists>ch evt sent. chan_try_send ch evt (match_heap p) = Ret (sent, H))))"

section \<open>The atomic methods\<close>

fun pool_effect ::
  "(nat \<Rightarrow> nat \<Rightarrow> nat) \<Rightarrow> ((QueuedPlayer \<Rightarrow> QueuedPlayer \<Rightarrow> bool) \<Rightarrow> QueuedPlayer list \<Rightarrow> QueuedPlayer list)
    \<Rightarrow> pool_choice \<Rightarrow> pool_op \<Rightarrow> Pool \<Rightarrow> Pool \<times> pool_result" where
  "pool_effect grow srt c (OpEnqueue pid name m) p = apsnd REnqueue (Enqueue grow (fst c) pid name m p)"
| "pool_effect grow srt c (OpReEnqueue qp) p = apsnd RReEnqueue (ReEnqueue grow qp p)"
| "pool_effect grow srt c (OpDequeue pid) p = apsnd RDequeue (Dequeue pid p)"
| "pool_effect grow srt c (OpContains pid) p = (p, RContains (Contains pid p))"
| "pool_effect grow srt c OpSize p = (p, RSize (Size p))"
| "pool_effect grow srt c OpExtractMatch p = apsnd RExtractMatch (ExtractMatch srt (snd c) (fst c) p)"

definition pool_legal :: "pool_choice \<Rightarrow> pool_op \<Rightarrow> Pool \<Rightarrow> bool" where
  "pool_legal c op p \<longleftrightarrow> (op = OpExtractMatch \<longrightarrow> covers (snd c) (brackets p))"

text \<open>
  When a method takes effect: \<open>Enqueue\<close> when its channel is made, \<open>ReEnqueue\<close> when it has found the
  id absent, \<open>Dequeue\<close> when it closes the channel, \<open>ExtractMatch\<close> when it has chosen, and a refusal
  at its check.
\<close>

fun pool_fate :: "pool_at \<Rightarrow> pool_op + pool_result" where
  "pool_fate (EnqCheck pid name m) = Inl (OpEnqueue pid name m)"
| "pool_fate (EnqMake pid name m) = Inl (OpEnqueue pid name m)"
| "pool_fate (EnqStore qp) = Inr (REnqueue (Inr qp))"
| "pool_fate (EnqIndex qp) = Inr (REnqueue (Inr qp))"
| "pool_fate (ReCheck qp) = Inl (OpReEnqueue qp)"
| "pool_fate (ReStore qp) = Inr (RReEnqueue None)"
| "pool_fate (ReIndex qp) = Inr (RReEnqueue None)"
| "pool_fate (DeqCheck pid) = Inl (OpDequeue pid)"
| "pool_fate (DeqIndex pid qp) = Inl (OpDequeue pid)"
| "pool_fate (DeqClose pid qp old) = Inl (OpDequeue pid)"
| "pool_fate (DeqDelete pid) = Inr (RDequeue (Ret True))"
| "pool_fate (AtContains pid) = Inl (OpContains pid)"
| "pool_fate AtSize = Inl OpSize"
| "pool_fate ExSelect = Inl OpExtractMatch"
| "pool_fate (ExIndex todo sel) = Inr (RExtractMatch (Some sel))"
| "pool_fate (ExDelete qp todo sel) = Inr (RExtractMatch (Some sel))"

fun pool_settle :: "(nat \<Rightarrow> nat \<Rightarrow> nat) \<Rightarrow> pool_at \<Rightarrow> Pool \<Rightarrow> Pool" where
  "pool_settle grow (EnqStore qp) p = index_player grow qp (store_player qp p)"
| "pool_settle grow (EnqIndex qp) p = index_player grow qp p"
| "pool_settle grow (ReStore qp) p = index_player grow qp (store_player qp p)"
| "pool_settle grow (ReIndex qp) p = index_player grow qp p"
| "pool_settle grow (DeqClose pid qp old) p = p\<lparr>brackets := old\<rparr>"
| "pool_settle grow (DeqDelete pid) p = delete_player pid p"
| "pool_settle grow (ExIndex todo sel) p = remove_selected todo p"
| "pool_settle grow (ExDelete qp todo sel) p = remove_selected todo (delete_player (PlayerID qp) p)"
| "pool_settle grow _ p = p"

fun pool_frame_ok :: "pool_at \<Rightarrow> Pool \<Rightarrow> bool" where
  "pool_frame_ok (EnqMake pid name m) p \<longleftrightarrow> finite (dom (brackets p)) \<and> players p pid = None"
| "pool_frame_ok (DeqIndex pid qp) p \<longleftrightarrow> finite (dom (brackets p)) \<and> players p pid = Some qp"
| "pool_frame_ok (DeqClose pid qp old) p \<longleftrightarrow> finite (dom (brackets p)) \<and> players p pid = Some qp
     \<and> brackets p = unbracket (bk_of qp) pid old"
| "pool_frame_ok (ExIndex todo sel) p \<longleftrightarrow> finite (dom (brackets p)) \<and> length todo \<le> 10"
| "pool_frame_ok (ExDelete qp todo sel) p \<longleftrightarrow> finite (dom (brackets p)) \<and> length todo < 10"
| "pool_frame_ok _ p \<longleftrightarrow> finite (dom (brackets p))"

text \<open>How many more statements a method runs at most.\<close>

fun pool_left :: "pool_at \<Rightarrow> nat" where
  "pool_left (EnqCheck pid name m) = 3"
| "pool_left (EnqMake pid name m) = 2"
| "pool_left (EnqStore qp) = 1"
| "pool_left (ReCheck qp) = 2"
| "pool_left (ReStore qp) = 1"
| "pool_left (DeqCheck pid) = 3"
| "pool_left (DeqIndex pid qp) = 2"
| "pool_left (DeqClose pid qp old) = 1"
| "pool_left ExSelect = 21"
| "pool_left (ExIndex todo sel) = 2 * length todo"
| "pool_left (ExDelete qp todo sel) = 2 * length todo + 1"
| "pool_left _ = 0"

lemmas stmt_defs = store_player_def index_player_def unindex_player_def delete_player_def
  enqueue_check_def enqueue_make_def reenqueue_check_def dequeue_check_def dequeue_close_def

lemma ExtractMatch_select:
  "ExtractMatch srt ks now p = (case extract_select srt ks now p of
      None \<Rightarrow> (p, None) | Some sel \<Rightarrow> (remove_selected sel p, Some sel))"
  by (simp add: ExtractMatch_def extract_select_def Let_def split: prod.split)

lemma extract_select_length: "extract_select srt ks now p = Some sel \<Longrightarrow> length sel \<le> 10"
  by (auto simp: extract_select_def Let_def PlayersPerMatch_def split: prod.splits if_splits)

lemma remove_one_stmts: "remove_one qp p = delete_player (PlayerID qp) (unindex_player (PlayerID qp) qp p)"
  by (simp add: remove_one_def delete_player_def unindex_player_def)

lemma finite_unbracket: "finite (dom B) \<Longrightarrow> finite (dom (unbracket bk pid B))"
  by (simp add: unbracket_def Let_def)

lemma finite_remove_selected: "finite (dom (brackets p)) \<Longrightarrow> finite (dom (brackets (remove_selected sel p)))"
  by (induction sel arbitrary: p) (simp_all add: remove_one_def finite_unbracket)

lemma Enqueue_statements:
  assumes "players p pid = None" "make_chan 1 (match_heap p) = (heap, ch)"
    and "qp = \<lparr>PlayerID = pid, DisplayName = name, MMR = m, EnqueuedAt = now, MatchCh = ch\<rparr>"
  shows "Enqueue grow now pid name m p = (index_player grow qp (store_player qp (p\<lparr>match_heap := heap\<rparr>)), Inr qp)"
  using assms by (simp add: Enqueue_def index_player_def store_player_def Let_def)

lemma Dequeue_statements:
  assumes "players p pid = Some qp" "brackets p = unbracket (bk_of qp) pid old"
  shows "Dequeue pid (p\<lparr>brackets := old\<rparr>) = (case chan_close (MatchCh qp) (match_heap p) of
      Panic \<Rightarrow> (p, Panic) | Ret heap \<Rightarrow> (delete_player pid (p\<lparr>match_heap := heap\<rparr>), Ret True))"
proof -
  have "p\<lparr>brackets := unbracket (bk_of qp) pid old\<rparr> = p" using assms(2) by simp
  then show ?thesis using assms(1) by (simp add: Dequeue_def delete_player_def Let_def split: outcome.split)
qed

section \<open>The lock makes the methods atomic\<close>

lemma pool_exec_ok:
  assumes "pool_frame_ok f p" "pool_exec grow srt c f p = (p', Inl f')"
  shows "pool_frame_ok f' p' \<and> pool_left f' < pool_left f"
proof (cases f)
  case (ExIndex todo sel)
  then show ?thesis using assms by (cases todo) (auto simp: unindex_player_def finite_unbracket)
next
  case ExSelect
  then show ?thesis using assms extract_select_length [of srt "snd c" "fst c" p] by (auto split: option.splits)
qed (use assms in \<open>auto simp: stmt_defs finite_unbracket split: option.splits outcome.splits if_splits prod.splits\<close>)

lemma pool_exec_before:
  assumes "pool_frame_ok f p" "pool_valid c f p" "pool_exec grow srt c f p = (p', x)" "pool_fate f = Inl op"
  shows "fate_of pool_fate x = Inl op \<and> settle_of (pool_settle grow) x p' = pool_settle grow f p
    \<or> (\<exists>r. fate_of pool_fate x = Inr r \<and> pool_legal c op (pool_settle grow f p)
          \<and> pool_effect grow srt c op (pool_settle grow f p) = (settle_of (pool_settle grow) x p', r))"
proof (cases f)
  case (EnqCheck pid name m)
  then show ?thesis using assms
    by (cases "players p pid") (auto simp: enqueue_check_def fate_of_def settle_of_def pool_legal_def Enqueue_def)
next
  case (EnqMake pid name m)
  obtain heap ch where mk: "make_chan 1 (match_heap p) = (heap, ch)" by fastforce
  show ?thesis using assms EnqMake Enqueue_statements [OF _ mk refl]
    by (auto simp: enqueue_make_def mk fate_of_def settle_of_def pool_legal_def simp del: One_nat_def)
next
  case (ReCheck qp)
  then show ?thesis using assms
    by (cases "players p (PlayerID qp)") (auto simp: reenqueue_check_def fate_of_def settle_of_def pool_legal_def ReEnqueue_def
        store_player_def index_player_def Let_def)
next
  case (DeqCheck pid)
  then show ?thesis using assms
    by (auto simp: dequeue_check_def fate_of_def settle_of_def pool_legal_def Dequeue_def split: option.splits)
next
  case (DeqClose pid qp old)
  then show ?thesis using assms Dequeue_statements [of p pid qp old]
    by (auto simp: dequeue_close_def fate_of_def settle_of_def pool_legal_def split: outcome.splits)
next
  case ExSelect
  then show ?thesis using assms
    by (auto simp: fate_of_def settle_of_def pool_legal_def pool_valid_def ExtractMatch_select split: option.splits)
qed (use assms in \<open>auto simp: fate_of_def settle_of_def pool_legal_def unindex_player_def\<close>)

lemma pool_exec_after:
  assumes "pool_exec grow srt c f p = (p', x)" "pool_fate f = Inr r"
  shows "fate_of pool_fate x = Inr r \<and> settle_of (pool_settle grow) x p' = pool_settle grow f p"
proof (cases f)
  case (ExIndex todo sel)
  then show ?thesis using assms by (cases todo) (auto simp: fate_of_def settle_of_def remove_one_stmts)
qed (use assms in \<open>auto simp: fate_of_def settle_of_def\<close>)

lemma settle_heap: "pool_settle grow f (p\<lparr>match_heap := H\<rparr>) = (pool_settle grow f p)\<lparr>match_heap := H\<rparr>"
proof -
  have "remove_one qp (p\<lparr>match_heap := H\<rparr>) = (remove_one qp p)\<lparr>match_heap := H\<rparr>" for qp p
    by (simp add: remove_one_def)
  then have sel: "remove_selected sel (p\<lparr>match_heap := H\<rparr>) = (remove_selected sel p)\<lparr>match_heap := H\<rparr>" for sel p
    by (induction sel arbitrary: p) simp_all
  have del: "delete_player pid (p\<lparr>match_heap := H\<rparr>) = (delete_player pid p)\<lparr>match_heap := H\<rparr>" for pid
    by (simp add: delete_player_def)
  have ins: "index_player grow qp (p\<lparr>match_heap := H\<rparr>) = (index_player grow qp p)\<lparr>match_heap := H\<rparr>"
    "store_player qp (p\<lparr>match_heap := H\<rparr>) = (store_player qp p)\<lparr>match_heap := H\<rparr>" for qp p
    by (simp_all add: index_player_def store_player_def Let_def)
  show ?thesis by (cases f) (simp_all add: sel del ins)
qed

lemma settle_same_heap: "match_heap (pool_settle grow f p) = match_heap p"
proof -
  have "match_heap (remove_selected sel p) = match_heap p" for sel p
    by (induction sel arbitrary: p) (simp_all add: remove_one_def)
  then show ?thesis by (cases f) (simp_all add: index_player_def store_player_def delete_player_def Let_def)
qed

lemma pool_env_ok:
  assumes "pool_frame_ok f p" "channel_use p p'"
  shows "pool_frame_ok f p' \<and> channel_use (pool_settle grow f p) (pool_settle grow f p')"
proof -
  obtain H where H: "p' = p\<lparr>match_heap := H\<rparr>"
    and used: "(\<exists>ch r. chan_recv ch (match_heap p) = (r, H)) \<or> (\<exists>ch evt sent. chan_try_send ch evt (match_heap p) = Ret (sent, H))"
    using assms(2) unfolding channel_use_def by blast
  have "pool_frame_ok f p'" using assms(1) H by (cases f) auto
  moreover have "channel_use (pool_settle grow f p) (pool_settle grow f p')"
    unfolding channel_use_def H settle_heap settle_same_heap using used by blast
  ultimately show ?thesis by blast
qed

lemma finite_effect:
  assumes "finite (dom (brackets p))" "pool_effect grow srt c op p = (p', r)"
  shows "finite (dom (brackets p'))"
  using assms
  by (cases op) (auto simp: Enqueue_def ReEnqueue_def Dequeue_def ExtractMatch_select Let_def finite_unbracket
      finite_remove_selected split: if_splits option.splits outcome.splits prod.splits)

interpretation pool_lock: bounded_section takes_lock pool_entry "pool_exec grow srt" pool_valid channel_use
  "pool_effect grow srt" pool_legal "\<lambda>p. finite (dom (brackets p))" pool_frame_ok pool_fate "pool_settle grow" pool_left
proof unfold_locales
  fix op c p f p' f' x r
  show "\<exists>r. pool_exec grow srt c (pool_entry op) p = (p, Inr r)" if "\<not> takes_lock op"
    using that by (cases op) simp_all
  show "pool_fate (pool_entry op) = Inl op" "pool_settle grow (pool_entry op) p = p"
    by (cases op; simp)+
  show "pool_frame_ok (pool_entry op) p" if "finite (dom (brackets p))"
    using that by (cases op) simp_all
  show "pool_frame_ok f' p'"
    if "pool_frame_ok f p" "pool_valid c f p" "pool_exec grow srt c f p = (p', Inl f')"
    using pool_exec_ok that by blast
  show "fate_of pool_fate x = Inl op \<and> settle_of (pool_settle grow) x p' = pool_settle grow f p
    \<or> (\<exists>r. fate_of pool_fate x = Inr r \<and> pool_legal c op (pool_settle grow f p)
          \<and> pool_effect grow srt c op (pool_settle grow f p) = (settle_of (pool_settle grow) x p', r))"
    if "pool_frame_ok f p" "pool_valid c f p" "pool_exec grow srt c f p = (p', x)" "pool_fate f = Inl op"
    using pool_exec_before that by blast
  show "fate_of pool_fate x = Inr r \<and> settle_of (pool_settle grow) x p' = pool_settle grow f p"
    if "pool_frame_ok f p" "pool_valid c f p" "pool_exec grow srt c f p = (p', x)" "pool_fate f = Inr r"
    using pool_exec_after that by blast
  show "pool_frame_ok f p' \<and> channel_use (pool_settle grow f p) (pool_settle grow f p')"
    if "pool_frame_ok f p" "channel_use p p'"
    using pool_env_ok that by blast
  show "finite (dom (brackets p'))" if "finite (dom (brackets p))" "pool_legal c op p" "pool_effect grow srt c op p = (p', r)"
    using finite_effect that by blast
  show "finite (dom (brackets p'))" if "finite (dom (brackets p))" "channel_use p p'"
    using that by (auto simp: channel_use_def)
  show "\<exists>c. pool_valid c f p" if "pool_frame_ok f p"
  proof (cases "f = ExSelect")
    case True
    then have "finite (dom (brackets p))" using that by simp
    from finite_distinct_list [OF this] obtain ks where "set ks = dom (brackets p)" "distinct ks" by blast
    then show ?thesis by (intro exI [of _ "(0, ks)"]) (simp add: pool_valid_def covers_def)
  qed (simp add: pool_valid_def)
  show "pool_left f' < pool_left f"
    if "pool_frame_ok f p" "pool_valid c f p" "pool_exec grow srt c f p = (p', Inl f')"
    using pool_exec_ok that by blast
qed

section \<open>From the empty pool\<close>

definition locked_pool_step ::
  "(nat \<Rightarrow> nat \<Rightarrow> nat) \<Rightarrow> ((QueuedPlayer \<Rightarrow> QueuedPlayer \<Rightarrow> bool) \<Rightarrow> QueuedPlayer list \<Rightarrow> QueuedPlayer list)
    \<Rightarrow> (pool_op, pool_at, pool_result, Pool) guarded \<Rightarrow> (pool_op, pool_at, pool_result, Pool) guarded \<Rightarrow> bool" where
  "locked_pool_step grow srt = guarded_step takes_lock pool_entry (pool_exec grow srt) pool_valid channel_use"

definition atomic_pool_step ::
  "(nat \<Rightarrow> nat \<Rightarrow> nat) \<Rightarrow> ((QueuedPlayer \<Rightarrow> QueuedPlayer \<Rightarrow> bool) \<Rightarrow> QueuedPlayer list \<Rightarrow> QueuedPlayer list)
    \<Rightarrow> (pool_op, pool_result, Pool) atomic_obj \<Rightarrow> (pool_op, pool_result, Pool) atomic_obj \<Rightarrow> bool" where
  "atomic_pool_step grow srt = atomic_step (pool_effect grow srt) pool_legal channel_use"

lemma NewPool_finite: "finite (dom (brackets NewPool))"
  by (simp add: NewPool_def)

interpretation new_pool: forward_simulation "\<lambda>g. g = unused NewPool" "locked_pool_step grow srt"
  "pool_lock.body_inv grow" "\<lambda>a. a = untouched NewPool" "atomic_pool_step grow srt"
  "atomic_view pool_fate (pool_settle grow)"
proof unfold_locales
  fix g g' :: "(pool_op, pool_at, pool_result, Pool) guarded"
  show "pool_lock.body_inv grow g" if "g = unused NewPool"
    unfolding that by (rule pool_lock.body_inv_unused [OF NewPool_finite])
  show "pool_lock.body_inv grow g'" if "pool_lock.body_inv grow g" "locked_pool_step grow srt g g'"
    using pool_lock.body_inv_step that unfolding locked_pool_step_def .
  show "atomic_view pool_fate (pool_settle grow) g = untouched NewPool" if "g = unused NewPool"
    unfolding that by (rule pool_lock.view_unused)
  show "(atomic_pool_step grow srt)\<^sup>*\<^sup>* (atomic_view pool_fate (pool_settle grow) g) (atomic_view pool_fate (pool_settle grow) g')"
    if "pool_lock.body_inv grow g" "locked_pool_step grow srt g g'"
    using pool_lock.view_step that unfolding locked_pool_step_def atomic_pool_step_def .
qed

lemma locked_callers: "reachable (\<lambda>g. g = unused NewPool) (locked_pool_step grow srt) g \<Longrightarrow> finite {t. ctl g t \<noteq> Outside}"
proof (induction rule: reachable.induct)
  case (start g)
  then show ?case by (simp add: unused_def)
next
  case (move g g')
  then show ?case unfolding locked_pool_step_def by (blast dest: finite_callers)
qed

subsection \<open>What the lock guards\<close>








section \<open>A run\<close>

text \<open>
  Goroutine 0 enqueues a player and is between the write to \<open>players\<close> and the one to \<open>brackets\<close>;
  goroutine 1 has called \<open>Contains\<close> and waits.
\<close>

definition lock_demo_player :: QueuedPlayer where
  "lock_demo_player = \<lparr>PlayerID = ''a'', DisplayName = ''A'', MMR = 700, EnqueuedAt = 0, MatchCh = 0\<rparr>"

lemma locked_moves:
  assumes "reachable (\<lambda>g. g = unused NewPool) (locked_pool_step grow srt) g"
  shows "ctl g t = Outside \<Longrightarrow> reachable (\<lambda>g. g = unused NewPool) (locked_pool_step grow srt)
      (g\<lparr>ctl := (ctl g)(t := Waiting op), history := history g @ [(t, Called op)]\<rparr>)"
    and "ctl g t = Waiting op \<Longrightarrow> takes_lock op \<Longrightarrow> writer g = None \<Longrightarrow> readers g = {}
      \<Longrightarrow> reachable (\<lambda>g. g = unused NewPool) (locked_pool_step grow srt)
        (g\<lparr>writer := Some t, ctl := (ctl g)(t := Inside op (pool_entry op))\<rparr>)"
    and "ctl g t = Inside op f \<Longrightarrow> pool_valid c f (shared g) \<Longrightarrow> pool_exec grow srt c f (shared g) = (p, x)
      \<Longrightarrow> reachable (\<lambda>g. g = unused NewPool) (locked_pool_step grow srt)
        (g\<lparr>shared := p, ctl := (ctl g)(t := resume op x)\<rparr>)"
  unfolding locked_pool_step_def
  by (rule reachable.move [OF assms [unfolded locked_pool_step_def]],
      (rule guarded_step.call guarded_step.lock guarded_step.run; assumption))+

lemma half_enqueued:
  obtains g where "reachable (\<lambda>g. g = unused NewPool) (locked_pool_step grow srt) g"
    "ctl g 0 = Inside (OpEnqueue ''a'' ''A'' 700) (EnqIndex lock_demo_player)" "ctl g (Suc 0) = Waiting (OpContains ''a'')"
    "writer g = Some 0" "players (shared g) ''a'' = Some lock_demo_player" "brackets (shared g) = Map.empty"
proof -
  let ?R = "reachable (\<lambda>g. g = unused NewPool) (locked_pool_step grow srt)"
  let ?op = "OpEnqueue ''a'' ''A'' 700" and ?op' = "OpContains ''a''"
  have "?R (unused NewPool)" by (rule reachable.start) simp
  from locked_moves(1) [OF this, of "Suc 0" ?op'] obtain g1 where g1: "?R g1"
    "ctl g1 = (\<lambda>_. Outside)(Suc 0 := Waiting ?op')" "writer g1 = None" "readers g1 = {}" "shared g1 = NewPool"
    by (auto simp: unused_def)
  from locked_moves(1) [OF g1(1), of 0 ?op] obtain g2 where g2: "?R g2"
    "ctl g2 = (\<lambda>_. Outside)(Suc 0 := Waiting ?op', 0 := Waiting ?op)" "writer g2 = None" "readers g2 = {}" "shared g2 = NewPool"
    by (auto simp: g1)
  from locked_moves(2) [OF g2(1), of 0 ?op] obtain g3 where g3: "?R g3"
    "ctl g3 = (\<lambda>_. Outside)(Suc 0 := Waiting ?op', 0 := Inside ?op (EnqCheck ''a'' ''A'' 700))" "writer g3 = Some 0" "shared g3 = NewPool"
    by (auto simp: g2)
  from locked_moves(3) [OF g3(1), of 0 ?op "EnqCheck ''a'' ''A'' 700" "(0, [])"] obtain g4 where g4: "?R g4"
    "ctl g4 = (\<lambda>_. Outside)(Suc 0 := Waiting ?op', 0 := Inside ?op (EnqMake ''a'' ''A'' 700))" "writer g4 = Some 0" "shared g4 = NewPool"
    by (auto simp: g3 pool_valid_def enqueue_check_def NewPool_def resume_def)
  from locked_moves(3) [OF g4(1), of 0 ?op "EnqMake ''a'' ''A'' 700" "(0, [])"] obtain g5 where g5: "?R g5"
    "ctl g5 = (\<lambda>_. Outside)(Suc 0 := Waiting ?op', 0 := Inside ?op (EnqStore lock_demo_player))" "writer g5 = Some 0"
    "players (shared g5) = Map.empty" "brackets (shared g5) = Map.empty"
    by (auto simp: g4 pool_valid_def enqueue_make_def NewPool_def make_chan_def no_chans_def lock_demo_player_def resume_def)
  from locked_moves(3) [OF g5(1), of 0 ?op "EnqStore lock_demo_player" "(0, [])"] obtain g6 where g6: "?R g6"
    "ctl g6 = (\<lambda>_. Outside)(Suc 0 := Waiting ?op', 0 := Inside ?op (EnqIndex lock_demo_player))" "writer g6 = Some 0"
    "players (shared g6) = [''a'' \<mapsto> lock_demo_player]" "brackets (shared g6) = Map.empty"
    by (auto simp: g5 pool_valid_def store_player_def lock_demo_player_def resume_def)
  from that [OF g6(1)] g6(2-5) show thesis by simp
qed

section \<open>Properties\<close>

text \<open>C6: the methods of the pool are linearizable. Whatever goroutines call them, in whatever
  interleaving of their statements and of the sends and receives on the players' channels, the calls
  and results are those of a pool whose methods each take effect in one step, between call and return;
  and whenever nobody holds the write lock the two pools are equal.\<close>

theorem pool_linearizable:
  assumes "reachable (\<lambda>g. g = unused NewPool) (locked_pool_step grow srt) g"
  shows "\<exists>a. reachable (\<lambda>a. a = untouched NewPool) (atomic_pool_step grow srt) a
    \<and> trace a = history g \<and> (writer g = None \<longrightarrow> obj a = shared g)
    \<and> (\<forall>t op. ctl g t = Waiting op \<longrightarrow> phase_of a t = Pending op)
    \<and> (\<forall>t r. ctl g t = WithResult r \<longrightarrow> phase_of a t = Settled r)"
proof -
  let ?a = "atomic_view pool_fate (pool_settle grow) g"
  have "trace ?a = history g \<and> (writer g = None \<longrightarrow> obj ?a = shared g)
    \<and> (\<forall>t op. ctl g t = Waiting op \<longrightarrow> phase_of ?a t = Pending op)
    \<and> (\<forall>t r. ctl g t = WithResult r \<longrightarrow> phase_of ?a t = Settled r)"
    by (simp add: atomic_view_def settled_def phase_at_def)
  with new_pool.reachable_abs [OF assms] show ?thesis by (intro exI [of _ ?a] conjI) simp_all
qed

theorem pool_linearizable_witness:
  "\<exists>g a. reachable (\<lambda>g. g = unused NewPool) (locked_pool_step (\<lambda>_ n. n) insertionSort) g
     \<and> ctl g (Suc 0) = Waiting (OpContains ''a'')
     \<and> reachable (\<lambda>a. a = untouched NewPool) (atomic_pool_step (\<lambda>_ n. n) insertionSort) a
     \<and> trace a = history g \<and> phase_of a (Suc 0) = Pending (OpContains ''a'')"
proof -
  obtain g where g: "reachable (\<lambda>g. g = unused NewPool) (locked_pool_step (\<lambda>_ n. n) insertionSort) g"
    "ctl g (Suc 0) = Waiting (OpContains ''a'')" by (rule half_enqueued)
  from pool_linearizable [OF g(1)] obtain a where
    "reachable (\<lambda>a. a = untouched NewPool) (atomic_pool_step (\<lambda>_ n. n) insertionSort) a" "trace a = history g"
    "phase_of a (Suc 0) = Pending (OpContains ''a'')" using g(2) by blast
  with g show ?thesis by (intro exI [of _ g] exI [of _ a]) simp
qed



text \<open>C18: the lock cannot deadlock. A goroutine inside a method reaches its deferred unlock within 22
  statements, and one that waits for the lock can be served without any further call.\<close>

theorem pool_no_deadlock:
  assumes "reachable (\<lambda>g. g = unused NewPool) (locked_pool_step grow srt) g"
  shows "(\<forall>t op f. ctl g t = Inside op f \<longrightarrow> (\<exists>n \<le> 22. \<exists>g' r. (locked_pool_step grow srt ^^ n) g g' \<and> ctl g' = (ctl g)(t := Unlocking op r)))
    \<and> (\<forall>t op. ctl g t = Waiting op \<longrightarrow> (\<exists>g' r. (locked_pool_step grow srt)\<^sup>*\<^sup>* g g' \<and> history g' = history g @ [(t, Answer r)]))"
proof -
  note inv = new_pool.reachable_inv [OF assms]
  have left: "pool_left f \<le> 21" if "pool_frame_ok f (shared g)" for f using that by (cases f) auto
  have "\<exists>n \<le> 22. \<exists>g' r. (locked_pool_step grow srt ^^ n) g g' \<and> ctl g' = (ctl g)(t := Unlocking op r)"
    if at: "ctl g t = Inside op f" for t op f
  proof -
    have l: "pool_left f \<le> 21" by (rule left [OF conjunct1 [OF pool_lock.body_frame [OF inv at]]])
    obtain n g' p r where n: "n \<le> Suc (pool_left f)" "(locked_pool_step grow srt ^^ n) g g'"
      "g' = g\<lparr>shared := p, ctl := (ctl g)(t := Unlocking op r)\<rparr>"
      using pool_lock.reach_unlock [OF inv at, of srt] unfolding locked_pool_step_def by blast
    then have "ctl g' = (ctl g)(t := Unlocking op r)" "n \<le> 22" using l by simp_all
    then show ?thesis using n(2) by blast
  qed
  moreover have "finite (in_section g)"
    by (rule finite_subset [OF in_section_callers locked_callers [OF assms]])
  ultimately show ?thesis
    using pool_lock.can_be_served [OF inv, where srt = srt] unfolding locked_pool_step_def by blast
qed

theorem pool_no_deadlock_witness:
  "\<exists>g g' r. ctl g (Suc 0) = Waiting (OpContains ''a'') \<and> writer g = Some 0
     \<and> (locked_pool_step (\<lambda>_ n. n) insertionSort)\<^sup>*\<^sup>* g g' \<and> history g' = history g @ [(Suc 0, Answer r)]"
proof -
  obtain g where g: "reachable (\<lambda>g. g = unused NewPool) (locked_pool_step (\<lambda>_ n. n) insertionSort) g"
    "ctl g (Suc 0) = Waiting (OpContains ''a'')" "writer g = Some 0"
    by (rule half_enqueued)
  from pool_no_deadlock [OF g(1)] g(2,3) show ?thesis by blast
qed

end
