(* ===== verification/Nexus_StoreLock.thy ===== *)
theory Nexus_StoreLock
  imports Nexus_Snapshot Go_Mutex
begin

text \<open>
  The methods of \<open>internal/state/session.go\<close> under \<open>ss.mu\<close>, with \<open>RecordResult\<close> cut at its writes as in
  \<open>Nexus_Snapshot\<close>: the second client of the interface \<open>guarded_object\<close>. The lock makes the methods
  atomic; what it does not cover is the pointer \<open>GetSession\<close> hands out, so here \<open>GetSession\<close> only tells
  whether there is one, and \<open>Nexus_Snapshot\<close> has what happens to its reader.
\<close>

section \<open>The methods, statement by statement\<close>

datatype store_op =
    OpCreateSession string "string list" | OpRecordResult string string i32 i32 | OpGetSession string | OpActiveCount

datatype store_result =
    RCreateSession | RRecordResult "session_error + i32" | RGetSession bool | RActiveCount nat

text \<open>
  The frames of \<open>RecordResult\<close> after its first write carry the store from before, which only the proof
  reads.
\<close>

datatype store_at =
    AtCreate string "string list" | AtGet string | AtCount
  | RecCheck string string i32 i32 | RecPut string ResultEntry
  | RecCompare string ResultEntry SessionStore | RecFinal string ResultEntry SessionStore
  | RecEnd string ResultEntry SessionStore

fun store_entry :: "store_op \<Rightarrow> store_at" where
  "store_entry (OpCreateSession sid pids) = AtCreate sid pids"
| "store_entry (OpRecordResult sid pid result score) = RecCheck sid pid result score"
| "store_entry (OpGetSession sid) = AtGet sid"
| "store_entry OpActiveCount = AtCount"

fun store_exclusive :: "store_op \<Rightarrow> bool" where
  "store_exclusive (OpGetSession sid) = False"
| "store_exclusive OpActiveCount = False"
| "store_exclusive _ = True"

text \<open>The choices: the clock, and the iteration order of the session map.\<close>

type_synonym store_choice = "gtime \<times> string list"

definition all_in :: "string \<Rightarrow> SessionStore \<Rightarrow> bool" where
  "all_in sid ss = (case GetSession sid ss of None \<Rightarrow> False | Some s \<Rightarrow> complete s)"

fun store_exec :: "store_choice \<Rightarrow> store_at \<Rightarrow> SessionStore \<Rightarrow> SessionStore \<times> (store_at + store_result)" where
  "store_exec c (AtCreate sid pids) ss = (CreateSession (fst c) sid pids ss, Inr RCreateSession)"
| "store_exec c (AtGet sid) ss = (ss, Inr (RGetSession (GetSession sid ss \<noteq> None)))"
| "store_exec c AtCount ss = (ss, Inr (RActiveCount (ActiveCount (snd c) ss)))"
| "store_exec c (RecCheck sid pid result score) ss =
     (ss, case record_checks sid pid result score ss of Inl e \<Rightarrow> Inr (RRecordResult (Inl e)) | Inr e \<Rightarrow> Inl (RecPut sid e))"
| "store_exec c (RecPut sid e) ss = (on_session sid (put_entry e) ss, Inl (RecCompare sid e ss))"
| "store_exec c (RecCompare sid e old) ss =
     (ss, if all_in sid ss then Inl (RecFinal sid e old) else Inr (RRecordResult (Inr (MMRDelta e))))"
| "store_exec c (RecFinal sid e old) ss = (on_session sid set_final ss, Inl (RecEnd sid e old))"
| "store_exec c (RecEnd sid e old) ss =
     (on_session sid (set_ended (fst c)) ss, Inr (RRecordResult (Inr (MMRDelta e))))"

definition store_valid :: "store_choice \<Rightarrow> store_at \<Rightarrow> SessionStore \<Rightarrow> bool" where
  "store_valid c f ss \<longleftrightarrow> (f = AtCount \<longrightarrow> covers (snd c) (sessions ss))"

section \<open>The atomic methods\<close>

fun store_effect :: "store_choice \<Rightarrow> store_op \<Rightarrow> SessionStore \<Rightarrow> SessionStore \<times> store_result" where
  "store_effect c (OpCreateSession sid pids) ss = (CreateSession (fst c) sid pids ss, RCreateSession)"
| "store_effect c (OpRecordResult sid pid result score) ss =
     apsnd RRecordResult (RecordResult (fst c) sid pid result score ss)"
| "store_effect c (OpGetSession sid) ss = (ss, RGetSession (GetSession sid ss \<noteq> None))"
| "store_effect c OpActiveCount ss = (ss, RActiveCount (ActiveCount (snd c) ss))"

definition store_legal :: "store_choice \<Rightarrow> store_op \<Rightarrow> SessionStore \<Rightarrow> bool" where
  "store_legal c op ss \<longleftrightarrow> (op = OpActiveCount \<longrightarrow> covers (snd c) (sessions ss))"

text \<open>
  An accepted \<open>RecordResult\<close> takes effect with its last statement; until then the others see the store
  from before. A refused one takes effect at its checks.
\<close>

definition op_of_entry :: "string \<Rightarrow> ResultEntry \<Rightarrow> store_op" where
  "op_of_entry sid e = OpRecordResult sid (re_PlayerID e) (re_Result e) (re_Score e)"

fun store_fate :: "store_at \<Rightarrow> store_op + store_result" where
  "store_fate (AtCreate sid pids) = Inl (OpCreateSession sid pids)"
| "store_fate (AtGet sid) = Inl (OpGetSession sid)"
| "store_fate AtCount = Inl OpActiveCount"
| "store_fate (RecCheck sid pid result score) = Inl (OpRecordResult sid pid result score)"
| "store_fate (RecPut sid e) = Inl (op_of_entry sid e)"
| "store_fate (RecCompare sid e old) = Inl (op_of_entry sid e)"
| "store_fate (RecFinal sid e old) = Inl (op_of_entry sid e)"
| "store_fate (RecEnd sid e old) = Inl (op_of_entry sid e)"

fun store_settle :: "store_at \<Rightarrow> SessionStore \<Rightarrow> SessionStore" where
  "store_settle (RecCompare sid e old) ss = old"
| "store_settle (RecFinal sid e old) ss = old"
| "store_settle (RecEnd sid e old) ss = old"
| "store_settle _ ss = ss"

definition checked :: "string \<Rightarrow> ResultEntry \<Rightarrow> SessionStore \<Rightarrow> bool" where
  "checked sid e ss \<longleftrightarrow> record_checks sid (re_PlayerID e) (re_Result e) (re_Score e) ss = Inr e"

fun store_frame_ok :: "store_at \<Rightarrow> SessionStore \<Rightarrow> bool" where
  "store_frame_ok (RecPut sid e) ss \<longleftrightarrow> finite (dom (sessions ss)) \<and> checked sid e ss"
| "store_frame_ok (RecCompare sid e old) ss \<longleftrightarrow> finite (dom (sessions ss)) \<and> checked sid e old
     \<and> ss = on_session sid (put_entry e) old"
| "store_frame_ok (RecFinal sid e old) ss \<longleftrightarrow> finite (dom (sessions ss)) \<and> checked sid e old
     \<and> ss = on_session sid (put_entry e) old \<and> all_in sid ss"
| "store_frame_ok (RecEnd sid e old) ss \<longleftrightarrow> finite (dom (sessions ss)) \<and> checked sid e old
     \<and> ss = on_session sid (set_final \<circ> put_entry e) old \<and> all_in sid (on_session sid (put_entry e) old)"
| "store_frame_ok _ ss \<longleftrightarrow> finite (dom (sessions ss))"

fun store_left :: "store_at \<Rightarrow> nat" where
  "store_left (RecCheck sid pid result score) = 4"
| "store_left (RecPut sid e) = 3"
| "store_left (RecCompare sid e old) = 2"
| "store_left (RecFinal sid e old) = 1"
| "store_left _ = 0"

section \<open>The lock makes the methods atomic\<close>

lemma on_session_twice: "on_session sid g (on_session sid f ss) = on_session sid (g \<circ> f) ss"
  by (simp add: on_session_def option.map_comp)

lemma on_session_cong: "sessions ss sid = Some s \<Longrightarrow> f s = g s \<Longrightarrow> on_session sid f ss = on_session sid g ss"
  by (simp add: on_session_def)

lemma finite_on_session: "finite (dom (sessions ss)) \<Longrightarrow> finite (dom (sessions (on_session sid f ss)))"
  by (rule finite_subset [of _ "dom (sessions ss)"]) (auto simp: on_session_def split: if_splits)

lemma all_in_put: "sessions ss sid = Some s \<Longrightarrow> all_in sid (on_session sid f ss) \<longleftrightarrow> complete (f s)"
  by (simp add: all_in_def GetSession_def on_session_def)

lemma checks_passed:
  assumes "record_checks sid pid result score ss = Inr e"
  shows "re_PlayerID e = pid \<and> re_Result e = result \<and> re_Score e = score \<and> (\<exists>s. sessions ss sid = Some s)"
  using assms by (auto simp: record_checks_def split: option.splits if_splits sum.splits)

text \<open>The whole call, from the store it started with.\<close>

lemma record_done:
  assumes "checked sid e ss"
  shows "RecordResult now sid (re_PlayerID e) (re_Result e) (re_Score e) ss =
    (if all_in sid (on_session sid (put_entry e) ss)
     then on_session sid (set_ended now) (on_session sid (set_final \<circ> put_entry e) ss)
     else on_session sid (put_entry e) ss, Inr (MMRDelta e))"
proof -
  obtain s where s: "sessions ss sid = Some s" using checks_passed assms unfolding checked_def by blast
  have "on_session sid (\<lambda>s. let s1 = put_entry e s in if complete s1 then set_ended now (set_final s1) else s1) ss
    = (if complete (put_entry e s) then on_session sid (set_ended now \<circ> (set_final \<circ> put_entry e)) ss
       else on_session sid (put_entry e) ss)"
    by (auto simp: Let_def intro!: on_session_cong [OF s])
  then show ?thesis
    using assms unfolding record_pieces checked_def on_session_twice all_in_put [OF s] by simp
qed

lemma store_exec_ok:
  assumes "store_frame_ok f ss" "store_exec c f ss = (ss', Inl f')"
  shows "store_frame_ok f' ss' \<and> store_left f' < store_left f"
proof (cases f)
  case (RecCheck sid pid result score)
  then show ?thesis using assms checks_passed [of sid pid result score ss] by (auto simp: checked_def split: sum.splits)
qed (use assms in \<open>auto simp: finite_on_session on_session_twice split: if_splits\<close>)

lemma store_exec_before:
  assumes "store_frame_ok f ss" "store_valid c f ss" "store_exec c f ss = (ss', x)" "store_fate f = Inl op"
  shows "fate_of store_fate x = Inl op \<and> settle_of store_settle x ss' = store_settle f ss
    \<or> (\<exists>r. fate_of store_fate x = Inr r \<and> store_legal c op (store_settle f ss)
          \<and> store_effect c op (store_settle f ss) = (settle_of store_settle x ss', r))"
proof (cases f)
  case (RecCheck sid pid result score)
  then show ?thesis using assms checks_passed [of sid pid result score ss]
    by (cases "record_checks sid pid result score ss")
      (auto simp: fate_of_def settle_of_def store_legal_def record_pieces op_of_entry_def)
next
  case (RecCompare sid e old)
  then show ?thesis using assms record_done [of sid e old "fst c"]
    by (auto simp: fate_of_def settle_of_def store_legal_def op_of_entry_def split: if_splits)
next
  case (RecEnd sid e old)
  then show ?thesis using assms record_done [of sid e old "fst c"]
    by (auto simp: fate_of_def settle_of_def store_legal_def op_of_entry_def)
qed (use assms in \<open>auto simp: fate_of_def settle_of_def store_legal_def store_valid_def op_of_entry_def\<close>)

text \<open>What holds of the store between methods.\<close>

definition store_good :: "SessionStore \<Rightarrow> bool" where
  "store_good ss \<longleftrightarrow> finite (dom (sessions ss)) \<and> store_inv ss"

lemma store_good_effect:
  assumes "store_good ss" "store_effect c op ss = (ss', r)"
  shows "store_good ss'"
proof (cases op)
  case (OpRecordResult sid pid result score)
  then have "ss' = fst (RecordResult (fst c) sid pid result score ss)"
    using assms(2) by (cases "RecordResult (fst c) sid pid result score ss") simp
  then show ?thesis using assms(1) RecordResult_inv
    by (auto simp: store_good_def record_pieces finite_on_session split: sum.split)
qed (use assms in \<open>auto simp: store_good_def CreateSession_inv\<close>, auto simp: CreateSession_def)

interpretation store_lock: bounded_section store_exclusive store_entry store_exec store_valid "\<lambda>_ _. False"
  store_effect store_legal store_good store_frame_ok store_fate store_settle store_left
proof unfold_locales
  fix op c ss f ss' f' x
  show "\<exists>r. store_exec c (store_entry op) ss = (ss, Inr r)" if "\<not> store_exclusive op"
    using that by (cases op) simp_all
  show "store_fate (store_entry op) = Inl op" "store_settle (store_entry op) ss = ss"
    by (cases op; simp)+
  show "store_frame_ok (store_entry op) ss" if "store_good ss"
    using that by (cases op) (simp_all add: store_good_def)
  show "\<exists>c. store_valid c f ss" if "store_frame_ok f ss"
  proof (cases "f = AtCount")
    case True
    then have "finite (dom (sessions ss))" using that by simp
    from finite_distinct_list [OF this] obtain ks where "set ks = dom (sessions ss)" "distinct ks" by blast
    then show ?thesis by (intro exI [of _ "(0, ks)"]) (simp add: store_valid_def covers_def)
  qed (simp add: store_valid_def)
next
  fix f ss c ss' x r
  assume "store_fate f = Inr r"
  then show "fate_of store_fate x = Inr r \<and> settle_of store_settle x ss' = store_settle f ss"
    by (cases f) simp_all
qed (use store_exec_ok store_exec_before store_good_effect in blast)+

section \<open>Properties\<close>

definition locked_store_step ::
  "(store_op, store_at, store_result, SessionStore) guarded \<Rightarrow> (store_op, store_at, store_result, SessionStore) guarded \<Rightarrow> bool" where
  "locked_store_step = guarded_step store_exclusive store_entry store_exec store_valid (\<lambda>_ _. False)"

definition atomic_store_step ::
  "(store_op, store_result, SessionStore) atomic_obj \<Rightarrow> (store_op, store_result, SessionStore) atomic_obj \<Rightarrow> bool" where
  "atomic_store_step = atomic_step store_effect store_legal (\<lambda>_ _. False)"

interpretation new_store: forward_simulation "\<lambda>g. g = unused NewSessionStore" locked_store_step store_lock.body_inv
  "\<lambda>a. a = untouched NewSessionStore" atomic_store_step "atomic_view store_fate store_settle"
proof unfold_locales
  have good: "store_good NewSessionStore" by (simp add: store_good_def store_inv_New) (simp add: NewSessionStore_def)
  fix g g' :: "(store_op, store_at, store_result, SessionStore) guarded"
  show "store_lock.body_inv g" if "g = unused NewSessionStore"
    unfolding that by (rule store_lock.body_inv_unused [OF good])
  show "store_lock.body_inv g'" if "store_lock.body_inv g" "locked_store_step g g'"
    using store_lock.body_inv_step that unfolding locked_store_step_def .
  show "atomic_view store_fate store_settle g = untouched NewSessionStore" if "g = unused NewSessionStore"
    unfolding that by (rule store_lock.view_unused)
  show "atomic_store_step\<^sup>*\<^sup>* (atomic_view store_fate store_settle g) (atomic_view store_fate store_settle g')"
    if "store_lock.body_inv g" "locked_store_step g g'"
    using store_lock.view_step that unfolding locked_store_step_def atomic_store_step_def .
qed

lemma locked_store_callers: "reachable (\<lambda>g. g = unused NewSessionStore) locked_store_step g \<Longrightarrow> finite {t. ctl g t \<noteq> Outside}"
proof (induction rule: reachable.induct)
  case (start g)
  then show ?case by (simp add: unused_def)
next
  case (move g g')
  then show ?case unfolding locked_store_step_def by (blast dest: finite_callers)
qed

text \<open>C28: the methods of the session store are linearizable, the store is well-formed whenever nobody
  holds its lock for writing, and whoever waits for the lock can be served: the writes of an accepted
  \<open>RecordResult\<close>, the entry, the flag and the end time, are one step to every other method.\<close>

theorem store_linearizable:
  assumes "reachable (\<lambda>g. g = unused NewSessionStore) locked_store_step g"
  shows "\<exists>a. reachable (\<lambda>a. a = untouched NewSessionStore) atomic_store_step a \<and> trace a = history g
    \<and> (writer g = None \<longrightarrow> obj a = shared g \<and> store_inv (shared g))
    \<and> (\<forall>t op. ctl g t = Waiting op \<longrightarrow> (\<exists>g' r. locked_store_step\<^sup>*\<^sup>* g g' \<and> history g' = history g @ [(t, Answer r)]))"
proof -
  let ?a = "atomic_view store_fate store_settle g"
  note inv = new_store.reachable_inv [OF assms]
  have "trace ?a = history g" "writer g = None \<longrightarrow> obj ?a = shared g"
    by (simp_all add: atomic_view_def settled_def)
  moreover have "writer g = None \<longrightarrow> store_inv (shared g)"
    using store_lock.body_good [OF inv] by (cases "writer g") (simp_all add: settled_def store_good_def)
  moreover have "finite (in_section g)"
    by (rule finite_subset [OF in_section_callers locked_store_callers [OF assms]])
  then have "\<forall>t op. ctl g t = Waiting op \<longrightarrow> (\<exists>g' r. locked_store_step\<^sup>*\<^sup>* g g' \<and> history g' = history g @ [(t, Answer r)])"
    using store_lock.can_be_served [OF inv] unfolding locked_store_step_def by blast
  ultimately show ?thesis using new_store.reachable_abs [OF assms] by (intro exI [of _ ?a]) simp
qed

theorem store_linearizable_witness:
  "\<exists>g a. ctl g 7 = Waiting (OpGetSession ''s'')
     \<and> reachable (\<lambda>a. a = untouched NewSessionStore) atomic_store_step a \<and> trace a = history g
     \<and> (\<exists>g' r. locked_store_step\<^sup>*\<^sup>* g g' \<and> history g' = history g @ [(7, Answer r)])"
proof -
  let ?empty = "unused NewSessionStore :: (store_op, store_at, store_result, SessionStore) guarded"
  let ?g = "?empty\<lparr>ctl := (ctl ?empty)(7 := Waiting (OpGetSession ''s'')), history := history ?empty @ [(7, Called (OpGetSession ''s''))]\<rparr>"
  have "locked_store_step ?empty ?g"
    unfolding locked_store_step_def by (rule guarded_step.call) (simp add: unused_def)
  then have "reachable (\<lambda>g. g = unused NewSessionStore) locked_store_step ?g"
    by (rule reachable.move [OF reachable.start [of "\<lambda>g. g = unused NewSessionStore", OF refl]])
  from store_linearizable [OF this] obtain a where "reachable (\<lambda>a. a = untouched NewSessionStore) atomic_store_step a"
    "trace a = history ?g" "\<exists>g' r. locked_store_step\<^sup>*\<^sup>* ?g g' \<and> history g' = history ?g @ [(7, Answer r)]" by force
  then show ?thesis by (intro exI [of _ ?g] exI [of _ a]) simp
qed

end
