(* ===== verification/Nexus_Messages.thy ===== *)
theory Nexus_Messages
  imports Nexus_Pb
begin

text \<open>
  The rest of \<open>pkg/pb/nexus.pb.go\<close>: the two messages without fields, the zero value of every message,
  which \<open>new(T)\<close> and \<open>Reset\<close> give (the runtime's bookkeeping in \<open>Reset\<close> is left out), and the
  remaining getters. A nil receiver makes \<open>Reset\<close> panic, and makes a
  getter answer what it answers for the zero value.
\<close>

section \<open>Zero values\<close>

datatype QueueStatsRequest = QueueStatsRequest
datatype ForceMatchRequest = ForceMatchRequest

definition PlayerInfo_zero :: PlayerInfo where
  "PlayerInfo_zero = \<lparr>pi_PlayerId = [], pi_DisplayName = [], pi_Mmr = 0\<rparr>"

definition GatewayRequest_zero :: GatewayRequest where
  "GatewayRequest_zero = \<lparr>Action = None\<rparr>"

definition JoinQueueAction_zero :: JoinQueueAction where
  "JoinQueueAction_zero = \<lparr>jq_Player = None\<rparr>"

definition HeartbeatAction_zero :: HeartbeatAction where
  "HeartbeatAction_zero = \<lparr>hb_ClientTimestampMs = 0\<rparr>"

definition CancelQueueAction_zero :: CancelQueueAction where
  "CancelQueueAction_zero = \<lparr>cq_PlayerId = [], cq_Reason = []\<rparr>"

definition AcceptMatchAction_zero :: AcceptMatchAction where
  "AcceptMatchAction_zero = \<lparr>am_PlayerId = []\<rparr>"

definition GatewayResponse_zero :: GatewayResponse where
  "GatewayResponse_zero = \<lparr>gr_Status = QUEUE_STATUS_UNSPECIFIED, gr_Message = [], gr_QueuePosition = 0, gr_ServerTimestampMs = 0, gr_Match = None\<rparr>"

definition MatchAssignment_zero :: MatchAssignment where
  "MatchAssignment_zero = \<lparr>ma_SessionId = [], ma_PlayerIds = [], ma_CreatedAtMs = 0\<rparr>"

definition QueueStatsRequest_zero :: QueueStatsRequest where
  "QueueStatsRequest_zero = QueueStatsRequest"

definition QueueStatsResponse_zero :: QueueStatsResponse where
  "QueueStatsResponse_zero = \<lparr>qs_TotalWaiting = 0, qs_TotalMatched = 0, qs_ActiveSessions = 0\<rparr>"

definition ForceMatchRequest_zero :: ForceMatchRequest where
  "ForceMatchRequest_zero = ForceMatchRequest"

definition ForceMatchResponse_zero :: ForceMatchResponse where
  "ForceMatchResponse_zero = \<lparr>fm_MatchesCreated = 0\<rparr>"

definition SubmitResultRequest_zero :: SubmitResultRequest where
  "SubmitResultRequest_zero = \<lparr>sr_SessionId = [], sr_PlayerId = [], sr_Result = MATCH_RESULT_UNSPECIFIED, sr_Score = 0, sr_DurationS = 0\<rparr>"

definition SubmitResultResponse_zero :: SubmitResultResponse where
  "SubmitResultResponse_zero = \<lparr>sp_Accepted = False, sp_Message = [], sp_NewMmr = 0\<rparr>"

definition GetSessionRequest_zero :: GetSessionRequest where
  "GetSessionRequest_zero = \<lparr>gs_SessionId = []\<rparr>"

definition SessionSummary_zero :: SessionSummary where
  "SessionSummary_zero = \<lparr>ss_SessionId = [], ss_Results = [], ss_StartedAtMs = 0, ss_EndedAtMs = 0, ss_Finalized = False\<rparr>"

definition PlayerResult_zero :: PlayerResult where
  "PlayerResult_zero = \<lparr>pr_PlayerId = [], pr_Result = MATCH_RESULT_UNSPECIFIED, pr_Score = 0, pr_MmrDelta = 0\<rparr>"

lemmas zero_messages =
  PlayerInfo_zero_def GatewayRequest_zero_def JoinQueueAction_zero_def HeartbeatAction_zero_def
  CancelQueueAction_zero_def AcceptMatchAction_zero_def GatewayResponse_zero_def MatchAssignment_zero_def
  QueueStatsRequest_zero_def QueueStatsResponse_zero_def ForceMatchRequest_zero_def ForceMatchResponse_zero_def
  SubmitResultRequest_zero_def SubmitResultResponse_zero_def GetSessionRequest_zero_def SessionSummary_zero_def
  PlayerResult_zero_def

section \<open>Reset\<close>

text \<open>\<open>*x = T{}\<close>.\<close>

definition reset_to :: "'m \<Rightarrow> 'm option \<Rightarrow> 'm outcome" where
  "reset_to z x = (case x of None \<Rightarrow> Panic | Some m \<Rightarrow> Ret z)"

definition PlayerInfo_Reset :: "PlayerInfo option \<Rightarrow> PlayerInfo outcome" where
  "PlayerInfo_Reset = reset_to PlayerInfo_zero"

definition GatewayRequest_Reset :: "GatewayRequest option \<Rightarrow> GatewayRequest outcome" where
  "GatewayRequest_Reset = reset_to GatewayRequest_zero"

definition JoinQueueAction_Reset :: "JoinQueueAction option \<Rightarrow> JoinQueueAction outcome" where
  "JoinQueueAction_Reset = reset_to JoinQueueAction_zero"

definition HeartbeatAction_Reset :: "HeartbeatAction option \<Rightarrow> HeartbeatAction outcome" where
  "HeartbeatAction_Reset = reset_to HeartbeatAction_zero"

definition CancelQueueAction_Reset :: "CancelQueueAction option \<Rightarrow> CancelQueueAction outcome" where
  "CancelQueueAction_Reset = reset_to CancelQueueAction_zero"

definition AcceptMatchAction_Reset :: "AcceptMatchAction option \<Rightarrow> AcceptMatchAction outcome" where
  "AcceptMatchAction_Reset = reset_to AcceptMatchAction_zero"

definition GatewayResponse_Reset :: "GatewayResponse option \<Rightarrow> GatewayResponse outcome" where
  "GatewayResponse_Reset = reset_to GatewayResponse_zero"

definition MatchAssignment_Reset :: "MatchAssignment option \<Rightarrow> MatchAssignment outcome" where
  "MatchAssignment_Reset = reset_to MatchAssignment_zero"

definition QueueStatsRequest_Reset :: "QueueStatsRequest option \<Rightarrow> QueueStatsRequest outcome" where
  "QueueStatsRequest_Reset = reset_to QueueStatsRequest_zero"

definition QueueStatsResponse_Reset :: "QueueStatsResponse option \<Rightarrow> QueueStatsResponse outcome" where
  "QueueStatsResponse_Reset = reset_to QueueStatsResponse_zero"

definition ForceMatchRequest_Reset :: "ForceMatchRequest option \<Rightarrow> ForceMatchRequest outcome" where
  "ForceMatchRequest_Reset = reset_to ForceMatchRequest_zero"

definition ForceMatchResponse_Reset :: "ForceMatchResponse option \<Rightarrow> ForceMatchResponse outcome" where
  "ForceMatchResponse_Reset = reset_to ForceMatchResponse_zero"

definition SubmitResultRequest_Reset :: "SubmitResultRequest option \<Rightarrow> SubmitResultRequest outcome" where
  "SubmitResultRequest_Reset = reset_to SubmitResultRequest_zero"

definition SubmitResultResponse_Reset :: "SubmitResultResponse option \<Rightarrow> SubmitResultResponse outcome" where
  "SubmitResultResponse_Reset = reset_to SubmitResultResponse_zero"

definition GetSessionRequest_Reset :: "GetSessionRequest option \<Rightarrow> GetSessionRequest outcome" where
  "GetSessionRequest_Reset = reset_to GetSessionRequest_zero"

definition SessionSummary_Reset :: "SessionSummary option \<Rightarrow> SessionSummary outcome" where
  "SessionSummary_Reset = reset_to SessionSummary_zero"

definition PlayerResult_Reset :: "PlayerResult option \<Rightarrow> PlayerResult outcome" where
  "PlayerResult_Reset = reset_to PlayerResult_zero"

section \<open>Getters\<close>

definition CancelQueueAction_GetPlayerId :: "CancelQueueAction option \<Rightarrow> string" where
  "CancelQueueAction_GetPlayerId x = (case x of Some m \<Rightarrow> cq_PlayerId m | None \<Rightarrow> [])"

definition AcceptMatchAction_GetPlayerId :: "AcceptMatchAction option \<Rightarrow> string" where
  "AcceptMatchAction_GetPlayerId x = (case x of Some m \<Rightarrow> am_PlayerId m | None \<Rightarrow> [])"

definition GatewayResponse_GetMessage :: "GatewayResponse option \<Rightarrow> string" where
  "GatewayResponse_GetMessage x = (case x of Some m \<Rightarrow> gr_Message m | None \<Rightarrow> [])"

definition GatewayResponse_GetServerTimestampMs :: "GatewayResponse option \<Rightarrow> i64" where
  "GatewayResponse_GetServerTimestampMs x = (case x of Some m \<Rightarrow> gr_ServerTimestampMs m | None \<Rightarrow> 0)"

definition MatchAssignment_GetSessionId :: "MatchAssignment option \<Rightarrow> string" where
  "MatchAssignment_GetSessionId x = (case x of Some m \<Rightarrow> ma_SessionId m | None \<Rightarrow> [])"

definition MatchAssignment_GetCreatedAtMs :: "MatchAssignment option \<Rightarrow> i64" where
  "MatchAssignment_GetCreatedAtMs x = (case x of Some m \<Rightarrow> ma_CreatedAtMs m | None \<Rightarrow> 0)"

definition QueueStatsResponse_GetTotalWaiting :: "QueueStatsResponse option \<Rightarrow> i32" where
  "QueueStatsResponse_GetTotalWaiting x = (case x of Some m \<Rightarrow> qs_TotalWaiting m | None \<Rightarrow> 0)"

definition QueueStatsResponse_GetTotalMatched :: "QueueStatsResponse option \<Rightarrow> i32" where
  "QueueStatsResponse_GetTotalMatched x = (case x of Some m \<Rightarrow> qs_TotalMatched m | None \<Rightarrow> 0)"

definition QueueStatsResponse_GetActiveSessions :: "QueueStatsResponse option \<Rightarrow> i32" where
  "QueueStatsResponse_GetActiveSessions x = (case x of Some m \<Rightarrow> qs_ActiveSessions m | None \<Rightarrow> 0)"

definition ForceMatchResponse_GetMatchesCreated :: "ForceMatchResponse option \<Rightarrow> i32" where
  "ForceMatchResponse_GetMatchesCreated x = (case x of Some m \<Rightarrow> fm_MatchesCreated m | None \<Rightarrow> 0)"

definition SubmitResultRequest_GetSessionId :: "SubmitResultRequest option \<Rightarrow> string" where
  "SubmitResultRequest_GetSessionId x = (case x of Some m \<Rightarrow> sr_SessionId m | None \<Rightarrow> [])"

definition SubmitResultRequest_GetPlayerId :: "SubmitResultRequest option \<Rightarrow> string" where
  "SubmitResultRequest_GetPlayerId x = (case x of Some m \<Rightarrow> sr_PlayerId m | None \<Rightarrow> [])"

definition SubmitResultRequest_GetScore :: "SubmitResultRequest option \<Rightarrow> i32" where
  "SubmitResultRequest_GetScore x = (case x of Some m \<Rightarrow> sr_Score m | None \<Rightarrow> 0)"

definition SubmitResultRequest_GetDurationS :: "SubmitResultRequest option \<Rightarrow> i32" where
  "SubmitResultRequest_GetDurationS x = (case x of Some m \<Rightarrow> sr_DurationS m | None \<Rightarrow> 0)"

definition SubmitResultResponse_GetAccepted :: "SubmitResultResponse option \<Rightarrow> bool" where
  "SubmitResultResponse_GetAccepted x = (case x of Some m \<Rightarrow> sp_Accepted m | None \<Rightarrow> False)"

definition SubmitResultResponse_GetMessage :: "SubmitResultResponse option \<Rightarrow> string" where
  "SubmitResultResponse_GetMessage x = (case x of Some m \<Rightarrow> sp_Message m | None \<Rightarrow> [])"

definition SubmitResultResponse_GetNewMmr :: "SubmitResultResponse option \<Rightarrow> i32" where
  "SubmitResultResponse_GetNewMmr x = (case x of Some m \<Rightarrow> sp_NewMmr m | None \<Rightarrow> 0)"

definition GetSessionRequest_GetSessionId :: "GetSessionRequest option \<Rightarrow> string" where
  "GetSessionRequest_GetSessionId x = (case x of Some m \<Rightarrow> gs_SessionId m | None \<Rightarrow> [])"

definition SessionSummary_GetSessionId :: "SessionSummary option \<Rightarrow> string" where
  "SessionSummary_GetSessionId x = (case x of Some m \<Rightarrow> ss_SessionId m | None \<Rightarrow> [])"

definition SessionSummary_GetStartedAtMs :: "SessionSummary option \<Rightarrow> i64" where
  "SessionSummary_GetStartedAtMs x = (case x of Some m \<Rightarrow> ss_StartedAtMs m | None \<Rightarrow> 0)"

definition SessionSummary_GetEndedAtMs :: "SessionSummary option \<Rightarrow> i64" where
  "SessionSummary_GetEndedAtMs x = (case x of Some m \<Rightarrow> ss_EndedAtMs m | None \<Rightarrow> 0)"

definition PlayerResult_GetPlayerId :: "PlayerResult option \<Rightarrow> string" where
  "PlayerResult_GetPlayerId x = (case x of Some m \<Rightarrow> pr_PlayerId m | None \<Rightarrow> [])"

definition PlayerResult_GetResult :: "PlayerResult option \<Rightarrow> MatchResult" where
  "PlayerResult_GetResult x = (case x of Some m \<Rightarrow> pr_Result m | None \<Rightarrow> MATCH_RESULT_UNSPECIFIED)"

definition PlayerResult_GetScore :: "PlayerResult option \<Rightarrow> i32" where
  "PlayerResult_GetScore x = (case x of Some m \<Rightarrow> pr_Score m | None \<Rightarrow> 0)"

definition PlayerResult_GetMmrDelta :: "PlayerResult option \<Rightarrow> i32" where
  "PlayerResult_GetMmrDelta x = (case x of Some m \<Rightarrow> pr_MmrDelta m | None \<Rightarrow> 0)"

lemmas getters =
  GetPlayerId_def GetDisplayName_def GetMmr_def
  GetAction_def GetPlayer_def GetClientTimestampMs_def
  CancelQueueAction_GetPlayerId_def GetReason_def AcceptMatchAction_GetPlayerId_def
  GetStatus_def GatewayResponse_GetMessage_def GetQueuePosition_def
  GatewayResponse_GetServerTimestampMs_def GetMatch_def MatchAssignment_GetSessionId_def
  GetPlayerIds_def MatchAssignment_GetCreatedAtMs_def QueueStatsResponse_GetTotalWaiting_def
  QueueStatsResponse_GetTotalMatched_def QueueStatsResponse_GetActiveSessions_def ForceMatchResponse_GetMatchesCreated_def
  SubmitResultRequest_GetSessionId_def SubmitResultRequest_GetPlayerId_def GetResult_def
  SubmitResultRequest_GetScore_def SubmitResultRequest_GetDurationS_def SubmitResultResponse_GetAccepted_def
  SubmitResultResponse_GetMessage_def SubmitResultResponse_GetNewMmr_def GetSessionRequest_GetSessionId_def
  SessionSummary_GetSessionId_def GetResults_def SessionSummary_GetStartedAtMs_def
  SessionSummary_GetEndedAtMs_def GetFinalized_def PlayerResult_GetPlayerId_def
  PlayerResult_GetResult_def PlayerResult_GetScore_def PlayerResult_GetMmrDelta_def

text \<open>Every getter answers nil as it answers a fresh message, so a reader cannot tell them apart.\<close>

lemma getters_nil:
  "GetPlayerId None = GetPlayerId (Some PlayerInfo_zero)"
  "GetDisplayName None = GetDisplayName (Some PlayerInfo_zero)"
  "GetMmr None = GetMmr (Some PlayerInfo_zero)"
  "GetAction None = GetAction (Some GatewayRequest_zero)"
  "GetPlayer None = GetPlayer (Some JoinQueueAction_zero)"
  "GetClientTimestampMs None = GetClientTimestampMs (Some HeartbeatAction_zero)"
  "CancelQueueAction_GetPlayerId None = CancelQueueAction_GetPlayerId (Some CancelQueueAction_zero)"
  "GetReason None = GetReason (Some CancelQueueAction_zero)"
  "AcceptMatchAction_GetPlayerId None = AcceptMatchAction_GetPlayerId (Some AcceptMatchAction_zero)"
  "GetStatus None = GetStatus (Some GatewayResponse_zero)"
  "GatewayResponse_GetMessage None = GatewayResponse_GetMessage (Some GatewayResponse_zero)"
  "GetQueuePosition None = GetQueuePosition (Some GatewayResponse_zero)"
  "GatewayResponse_GetServerTimestampMs None = GatewayResponse_GetServerTimestampMs (Some GatewayResponse_zero)"
  "GetMatch None = GetMatch (Some GatewayResponse_zero)"
  "MatchAssignment_GetSessionId None = MatchAssignment_GetSessionId (Some MatchAssignment_zero)"
  "GetPlayerIds None = GetPlayerIds (Some MatchAssignment_zero)"
  "MatchAssignment_GetCreatedAtMs None = MatchAssignment_GetCreatedAtMs (Some MatchAssignment_zero)"
  "QueueStatsResponse_GetTotalWaiting None = QueueStatsResponse_GetTotalWaiting (Some QueueStatsResponse_zero)"
  "QueueStatsResponse_GetTotalMatched None = QueueStatsResponse_GetTotalMatched (Some QueueStatsResponse_zero)"
  "QueueStatsResponse_GetActiveSessions None = QueueStatsResponse_GetActiveSessions (Some QueueStatsResponse_zero)"
  "ForceMatchResponse_GetMatchesCreated None = ForceMatchResponse_GetMatchesCreated (Some ForceMatchResponse_zero)"
  "SubmitResultRequest_GetSessionId None = SubmitResultRequest_GetSessionId (Some SubmitResultRequest_zero)"
  "SubmitResultRequest_GetPlayerId None = SubmitResultRequest_GetPlayerId (Some SubmitResultRequest_zero)"
  "GetResult None = GetResult (Some SubmitResultRequest_zero)"
  "SubmitResultRequest_GetScore None = SubmitResultRequest_GetScore (Some SubmitResultRequest_zero)"
  "SubmitResultRequest_GetDurationS None = SubmitResultRequest_GetDurationS (Some SubmitResultRequest_zero)"
  "SubmitResultResponse_GetAccepted None = SubmitResultResponse_GetAccepted (Some SubmitResultResponse_zero)"
  "SubmitResultResponse_GetMessage None = SubmitResultResponse_GetMessage (Some SubmitResultResponse_zero)"
  "SubmitResultResponse_GetNewMmr None = SubmitResultResponse_GetNewMmr (Some SubmitResultResponse_zero)"
  "GetSessionRequest_GetSessionId None = GetSessionRequest_GetSessionId (Some GetSessionRequest_zero)"
  "SessionSummary_GetSessionId None = SessionSummary_GetSessionId (Some SessionSummary_zero)"
  "GetResults None = GetResults (Some SessionSummary_zero)"
  "SessionSummary_GetStartedAtMs None = SessionSummary_GetStartedAtMs (Some SessionSummary_zero)"
  "SessionSummary_GetEndedAtMs None = SessionSummary_GetEndedAtMs (Some SessionSummary_zero)"
  "GetFinalized None = GetFinalized (Some SessionSummary_zero)"
  "PlayerResult_GetPlayerId None = PlayerResult_GetPlayerId (Some PlayerResult_zero)"
  "PlayerResult_GetResult None = PlayerResult_GetResult (Some PlayerResult_zero)"
  "PlayerResult_GetScore None = PlayerResult_GetScore (Some PlayerResult_zero)"
  "PlayerResult_GetMmrDelta None = PlayerResult_GetMmrDelta (Some PlayerResult_zero)"
  by (simp_all add: getters zero_messages)

lemma oneof_getters_nil:
  "GetJoinQueue None = GetJoinQueue (Some GatewayRequest_zero)"
  "GetHeartbeat None = GetHeartbeat (Some GatewayRequest_zero)"
  "GetCancelQueue None = GetCancelQueue (Some GatewayRequest_zero)"
  "GetAcceptMatch None = GetAcceptMatch (Some GatewayRequest_zero)"
  by (simp_all add: oneof_getters zero_messages)

end
