(* ===== verification/Nexus_Stubs.thy ===== *)
theory Nexus_Stubs
  imports Nexus_Interceptor Nexus_Tracker Nexus_Matchmaker Nexus_Messages
begin

text \<open>
  \<open>pkg/pb/nexus_grpc.pb.go\<close>: the method names, the service descriptors, the handlers through which the
  grpc library behind the server, the registration in \<open>main\<close>, the default implementations, and the
  client's stubs. The library itself (transport, routing, \<open>proto.Unmarshal\<close>) is a parameter: the decoder
  a handler is given, the interceptor, and the \<open>Invoke\<close> of a client connection.
\<close>

section \<open>Names\<close>

definition PlayerGatewayService_EnterMatchmaking_FullMethodName :: string where
  "PlayerGatewayService_EnterMatchmaking_FullMethodName = ''/nexus.PlayerGatewayService/EnterMatchmaking''"

definition MatchmakerService_GetQueueStats_FullMethodName :: string where
  "MatchmakerService_GetQueueStats_FullMethodName = ''/nexus.MatchmakerService/GetQueueStats''"

definition MatchmakerService_ForceMatch_FullMethodName :: string where
  "MatchmakerService_ForceMatch_FullMethodName = ''/nexus.MatchmakerService/ForceMatch''"

definition SessionTrackerService_SubmitResult_FullMethodName :: string where
  "SessionTrackerService_SubmitResult_FullMethodName = ''/nexus.SessionTrackerService/SubmitResult''"

definition SessionTrackerService_GetSession_FullMethodName :: string where
  "SessionTrackerService_GetSession_FullMethodName = ''/nexus.SessionTrackerService/GetSession''"

lemmas method_names = PlayerGatewayService_EnterMatchmaking_FullMethodName_def
  MatchmakerService_GetQueueStats_FullMethodName_def MatchmakerService_ForceMatch_FullMethodName_def
  SessionTrackerService_SubmitResult_FullMethodName_def SessionTrackerService_GetSession_FullMethodName_def

section \<open>Server interfaces\<close>

text \<open>
  What an implementation embeds: the default implementation by value, a nil pointer to it, or neither,
  as \<open>Unsafe...Server\<close> allows.
\<close>

datatype embedding = ByValue | NilPointer | NotEmbedded

text \<open>\<open>'t\<close> is the library's server stream.\<close>

record ('s, 't) PlayerGatewayServiceServer =
  gws_embeds :: embedding
  gws_EnterMatchmaking :: "'t \<Rightarrow> 's stream_handler"

record 's MatchmakerServiceServer =
  mms_embeds :: embedding
  mms_GetQueueStats :: "QueueStatsRequest \<Rightarrow> ('s, QueueStatsResponse) unary_handler"
  mms_ForceMatch :: "ForceMatchRequest \<Rightarrow> ('s, ForceMatchResponse) unary_handler"

record 's SessionTrackerServiceServer =
  sts_embeds :: embedding
  sts_SubmitResult :: "SubmitResultRequest \<Rightarrow> ('s, SubmitResultResponse) unary_handler"
  sts_GetSession :: "GetSessionRequest \<Rightarrow> ('s, SessionSummary) unary_handler"

definition UnimplementedPlayerGatewayServiceServer :: "('s, 't) PlayerGatewayServiceServer" where
  "UnimplementedPlayerGatewayServiceServer =
     \<lparr>gws_embeds = ByValue, gws_EnterMatchmaking = (\<lambda>_ st. (st, Ret (Some Unimplemented)))\<rparr>"

definition UnimplementedMatchmakerServiceServer :: "'s MatchmakerServiceServer" where
  "UnimplementedMatchmakerServiceServer =
     \<lparr>mms_embeds = ByValue, mms_GetQueueStats = (\<lambda>_ st. (st, Ret (reply_error Unimplemented))),
      mms_ForceMatch = (\<lambda>_ st. (st, Ret (reply_error Unimplemented)))\<rparr>"

definition UnimplementedSessionTrackerServiceServer :: "'s SessionTrackerServiceServer" where
  "UnimplementedSessionTrackerServiceServer =
     \<lparr>sts_embeds = ByValue, sts_SubmitResult = (\<lambda>_ st. (st, Ret (reply_error Unimplemented))),
      sts_GetSession = (\<lambda>_ st. (st, Ret (reply_error Unimplemented)))\<rparr>"

section \<open>Handlers\<close>

text \<open>
  Go's \<open>interface{}\<close> where the program puts something into it: the \<open>srv\<close> of a handler, and the response
  it returns. A type assertion on the wrong one panics.
\<close>

datatype ('s, 't) any_server =
    AnyGateway "('s, 't) PlayerGatewayServiceServer"
  | AnyMatchmaker "'s MatchmakerServiceServer"
  | AnyTracker "'s SessionTrackerServiceServer"

datatype any_response =
    AnyQueueStats QueueStatsResponse | AnyForceMatch ForceMatchResponse
  | AnySubmitResult SubmitResultResponse | AnySession SessionSummary

text \<open>
  \<open>dec(in)\<close> fills the fresh message of the handler from the wire, or fails: one function, here one
  component for every type it is called with.
\<close>

record decoder =
  dec_QueueStats :: "code + QueueStatsRequest"
  dec_ForceMatch :: "code + ForceMatchRequest"
  dec_SubmitResult :: "code + SubmitResultRequest"
  dec_GetSession :: "code + GetSessionRequest"

type_synonym 's interceptor = "string \<Rightarrow> ('s, any_response) unary_handler \<Rightarrow> ('s, any_response) unary_handler"

definition into_any :: "('r \<Rightarrow> any_response) \<Rightarrow> ('s, 'r) unary_handler \<Rightarrow> ('s, any_response) unary_handler" where
  "into_any wrap h st = (case h st of
       (st', Panic) \<Rightarrow> (st', Panic)
     | (st', Ret (resp, err)) \<Rightarrow> (st', Ret (map_option wrap resp, err)))"

definition MatchmakerService_GetQueueStats_Handler ::
  "('s, 't) any_server \<Rightarrow> decoder \<Rightarrow> 's interceptor option \<Rightarrow> ('s, any_response) unary_handler" where
  "MatchmakerService_GetQueueStats_Handler srv dec interceptor st = (case dec_QueueStats dec of
       Inl err \<Rightarrow> (st, Ret (reply_error err))
     | Inr req \<Rightarrow>
         (let call = (\<lambda>st. case srv of
                AnyMatchmaker m \<Rightarrow> into_any AnyQueueStats (mms_GetQueueStats m req) st
              | _ \<Rightarrow> (st, Panic))
          in case interceptor of
               None \<Rightarrow> call st
             | Some i \<Rightarrow> i MatchmakerService_GetQueueStats_FullMethodName call st))"

definition MatchmakerService_ForceMatch_Handler ::
  "('s, 't) any_server \<Rightarrow> decoder \<Rightarrow> 's interceptor option \<Rightarrow> ('s, any_response) unary_handler" where
  "MatchmakerService_ForceMatch_Handler srv dec interceptor st = (case dec_ForceMatch dec of
       Inl err \<Rightarrow> (st, Ret (reply_error err))
     | Inr req \<Rightarrow>
         (let call = (\<lambda>st. case srv of
                AnyMatchmaker m \<Rightarrow> into_any AnyForceMatch (mms_ForceMatch m req) st
              | _ \<Rightarrow> (st, Panic))
          in case interceptor of
               None \<Rightarrow> call st
             | Some i \<Rightarrow> i MatchmakerService_ForceMatch_FullMethodName call st))"

definition SessionTrackerService_SubmitResult_Handler ::
  "('s, 't) any_server \<Rightarrow> decoder \<Rightarrow> 's interceptor option \<Rightarrow> ('s, any_response) unary_handler" where
  "SessionTrackerService_SubmitResult_Handler srv dec interceptor st = (case dec_SubmitResult dec of
       Inl err \<Rightarrow> (st, Ret (reply_error err))
     | Inr req \<Rightarrow>
         (let call = (\<lambda>st. case srv of
                AnyTracker t \<Rightarrow> into_any AnySubmitResult (sts_SubmitResult t req) st
              | _ \<Rightarrow> (st, Panic))
          in case interceptor of
               None \<Rightarrow> call st
             | Some i \<Rightarrow> i SessionTrackerService_SubmitResult_FullMethodName call st))"

definition SessionTrackerService_GetSession_Handler ::
  "('s, 't) any_server \<Rightarrow> decoder \<Rightarrow> 's interceptor option \<Rightarrow> ('s, any_response) unary_handler" where
  "SessionTrackerService_GetSession_Handler srv dec interceptor st = (case dec_GetSession dec of
       Inl err \<Rightarrow> (st, Ret (reply_error err))
     | Inr req \<Rightarrow>
         (let call = (\<lambda>st. case srv of
                AnyTracker t \<Rightarrow> into_any AnySession (sts_GetSession t req) st
              | _ \<Rightarrow> (st, Panic))
          in case interceptor of
               None \<Rightarrow> call st
             | Some i \<Rightarrow> i SessionTrackerService_GetSession_FullMethodName call st))"

definition PlayerGatewayService_EnterMatchmaking_Handler :: "('s, 't) any_server \<Rightarrow> 't \<Rightarrow> 's stream_handler" where
  "PlayerGatewayService_EnterMatchmaking_Handler srv stream st = (case srv of
       AnyGateway g \<Rightarrow> gws_EnterMatchmaking g stream st
     | _ \<Rightarrow> (st, Panic))"

section \<open>Descriptors and registration\<close>

record ('s, 't) MethodDesc =
  MethodName :: string
  method_Handler :: "('s, 't) any_server \<Rightarrow> decoder \<Rightarrow> 's interceptor option \<Rightarrow> ('s, any_response) unary_handler"

record ('s, 't) StreamDesc =
  StreamName :: string
  stream_Handler :: "('s, 't) any_server \<Rightarrow> 't \<Rightarrow> 's stream_handler"
  ServerStreams :: bool
  ClientStreams :: bool

record ('s, 't) ServiceDesc =
  ServiceName :: string
  Methods :: "('s, 't) MethodDesc list"
  Streams :: "('s, 't) StreamDesc list"
  Metadata :: string

definition PlayerGatewayService_ServiceDesc :: "('s, 't) ServiceDesc" where
  "PlayerGatewayService_ServiceDesc =
     \<lparr>ServiceName = ''nexus.PlayerGatewayService'', Methods = [],
      Streams = [\<lparr>StreamName = ''EnterMatchmaking'', stream_Handler = PlayerGatewayService_EnterMatchmaking_Handler,
                  ServerStreams = True, ClientStreams = True\<rparr>],
      Metadata = ''nexus.proto''\<rparr>"

definition MatchmakerService_ServiceDesc :: "('s, 't) ServiceDesc" where
  "MatchmakerService_ServiceDesc =
     \<lparr>ServiceName = ''nexus.MatchmakerService'',
      Methods = [\<lparr>MethodName = ''GetQueueStats'', method_Handler = MatchmakerService_GetQueueStats_Handler\<rparr>,
                 \<lparr>MethodName = ''ForceMatch'', method_Handler = MatchmakerService_ForceMatch_Handler\<rparr>],
      Streams = [], Metadata = ''nexus.proto''\<rparr>"

definition SessionTrackerService_ServiceDesc :: "('s, 't) ServiceDesc" where
  "SessionTrackerService_ServiceDesc =
     \<lparr>ServiceName = ''nexus.SessionTrackerService'',
      Methods = [\<lparr>MethodName = ''SubmitResult'', method_Handler = SessionTrackerService_SubmitResult_Handler\<rparr>,
                 \<lparr>MethodName = ''GetSession'', method_Handler = SessionTrackerService_GetSession_Handler\<rparr>],
      Streams = [], Metadata = ''nexus.proto''\<rparr>"

lemmas service_descs = PlayerGatewayService_ServiceDesc_def MatchmakerService_ServiceDesc_def
  SessionTrackerService_ServiceDesc_def

text \<open>
  The calls of \<open>RegisterService\<close> a registrar has received. \<open>testEmbeddedByValue\<close> on a nil pointer panics,
  before anything is registered.
\<close>

type_synonym ('s, 't) registrar = "(('s, 't) ServiceDesc \<times> ('s, 't) any_server) list"

definition RegisterPlayerGatewayServiceServer ::
  "('s, 't) PlayerGatewayServiceServer \<Rightarrow> ('s, 't) registrar \<Rightarrow> ('s, 't) registrar outcome" where
  "RegisterPlayerGatewayServiceServer srv s =
     (if gws_embeds srv = NilPointer then Panic else Ret (s @ [(PlayerGatewayService_ServiceDesc, AnyGateway srv)]))"

definition RegisterMatchmakerServiceServer ::
  "'s MatchmakerServiceServer \<Rightarrow> ('s, 't) registrar \<Rightarrow> ('s, 't) registrar outcome" where
  "RegisterMatchmakerServiceServer srv s =
     (if mms_embeds srv = NilPointer then Panic else Ret (s @ [(MatchmakerService_ServiceDesc, AnyMatchmaker srv)]))"

definition RegisterSessionTrackerServiceServer ::
  "'s SessionTrackerServiceServer \<Rightarrow> ('s, 't) registrar \<Rightarrow> ('s, 't) registrar outcome" where
  "RegisterSessionTrackerServiceServer srv s =
     (if sts_embeds srv = NilPointer then Panic else Ret (s @ [(SessionTrackerService_ServiceDesc, AnyTracker srv)]))"

definition register_all ::
  "('s, 't) PlayerGatewayServiceServer \<Rightarrow> 's MatchmakerServiceServer \<Rightarrow> 's SessionTrackerServiceServer
    \<Rightarrow> ('s, 't) registrar outcome" where
  "register_all gatewaySrv matchmakerSrv trackerSrv =
     ret_bind (RegisterPlayerGatewayServiceServer gatewaySrv [])
       (\<lambda>s. ret_bind (RegisterMatchmakerServiceServer matchmakerSrv s) (RegisterSessionTrackerServiceServer trackerSrv))"

section \<open>Client stubs\<close>

text \<open>
  \<open>cc.Invoke(ctx, name, in, out)\<close> of the connection: it returns the error, and what \<open>out\<close> then holds. The
  stubs pass a fresh message and drop it on an error.
\<close>

type_synonym ('q, 'r) invoke = "string \<Rightarrow> 'q \<Rightarrow> 'r \<Rightarrow> 'r \<times> grpc_error"

definition stub_call :: "string \<Rightarrow> 'r \<Rightarrow> ('q, 'r) invoke \<Rightarrow> 'q \<Rightarrow> 'r reply" where
  "stub_call name out invoke req = (case invoke name req out of
       (out', Some err) \<Rightarrow> (None, Some err)
     | (out', None) \<Rightarrow> (Some out', None))"

definition client_GetQueueStats :: "(QueueStatsRequest, QueueStatsResponse) invoke \<Rightarrow> QueueStatsRequest \<Rightarrow> QueueStatsResponse reply" where
  "client_GetQueueStats = stub_call MatchmakerService_GetQueueStats_FullMethodName QueueStatsResponse_zero"

definition client_ForceMatch :: "(ForceMatchRequest, ForceMatchResponse) invoke \<Rightarrow> ForceMatchRequest \<Rightarrow> ForceMatchResponse reply" where
  "client_ForceMatch = stub_call MatchmakerService_ForceMatch_FullMethodName ForceMatchResponse_zero"

definition client_SubmitResult :: "(SubmitResultRequest, SubmitResultResponse) invoke \<Rightarrow> SubmitResultRequest \<Rightarrow> SubmitResultResponse reply" where
  "client_SubmitResult = stub_call SessionTrackerService_SubmitResult_FullMethodName SubmitResultResponse_zero"

definition client_GetSession :: "(GetSessionRequest, SessionSummary) invoke \<Rightarrow> GetSessionRequest \<Rightarrow> SessionSummary reply" where
  "client_GetSession = stub_call SessionTrackerService_GetSession_FullMethodName SessionSummary_zero"

text \<open>\<open>NewStream\<close> takes the descriptor of the stream and the name, and may fail; \<open>'c\<close> is the library's client stream.\<close>

definition client_EnterMatchmaking ::
  "(('s, 't) StreamDesc \<Rightarrow> string \<Rightarrow> 'c \<times> grpc_error) \<Rightarrow> 'c reply" where
  "client_EnterMatchmaking newStream =
     (case newStream (Streams PlayerGatewayService_ServiceDesc ! 0) PlayerGatewayService_EnterMatchmaking_FullMethodName of
        (stream, Some err) \<Rightarrow> (None, Some err)
      | (stream, None) \<Rightarrow> (Some stream, None))"

lemmas client_stubs = client_GetQueueStats_def client_ForceMatch_def client_SubmitResult_def client_GetSession_def

lemma stub_some: "stub_call name out invoke req \<noteq> (None, None)"
  by (simp add: stub_call_def split: prod.split option.split)

lemma stub_error: "snd (invoke name req out) = Some err \<Longrightarrow> stub_call name out invoke req = (None, Some err)"
  by (cases "invoke name req out") (simp add: stub_call_def)

section \<open>Routes\<close>

text \<open>
  What the library can find in the registrar: every unary method under \<open>/service/method\<close> with its
  handler and implementation, and every stream likewise.
\<close>

definition full_name :: "string \<Rightarrow> string \<Rightarrow> string" where
  "full_name service meth = ''/'' @ service @ ''/'' @ meth"

definition unary_routes ::
  "('s, 't) registrar \<Rightarrow> (string \<times> (decoder \<Rightarrow> 's interceptor option \<Rightarrow> ('s, any_response) unary_handler)) list" where
  "unary_routes reg = concat (map (\<lambda>(d, srv).
     map (\<lambda>m. (full_name (ServiceName d) (MethodName m), method_Handler m srv)) (Methods d)) reg)"

definition stream_routes :: "('s, 't) registrar \<Rightarrow> (string \<times> ('t \<Rightarrow> 's stream_handler)) list" where
  "stream_routes reg = concat (map (\<lambda>(d, srv).
     map (\<lambda>m. (full_name (ServiceName d) (StreamName m), stream_Handler m srv)) (Streams d)) reg)"

definition no_nil_embedding ::
  "('s, 't) PlayerGatewayServiceServer \<Rightarrow> 's MatchmakerServiceServer \<Rightarrow> 's SessionTrackerServiceServer \<Rightarrow> bool" where
  "no_nil_embedding g m t \<longleftrightarrow> gws_embeds g \<noteq> NilPointer \<and> mms_embeds m \<noteq> NilPointer \<and> sts_embeds t \<noteq> NilPointer"

lemma register_all_eq:
  "register_all g m t = (if no_nil_embedding g m t
     then Ret [(PlayerGatewayService_ServiceDesc, AnyGateway g), (MatchmakerService_ServiceDesc, AnyMatchmaker m),
               (SessionTrackerService_ServiceDesc, AnyTracker t)]
     else Panic)"
  by (auto simp: register_all_def RegisterPlayerGatewayServiceServer_def RegisterMatchmakerServiceServer_def
      RegisterSessionTrackerServiceServer_def no_nil_embedding_def)

lemma routes_eq:
  fixes g :: "('s, 't) PlayerGatewayServiceServer"
  assumes "register_all g m t = Ret reg"
  shows "unary_routes reg =
      [(MatchmakerService_GetQueueStats_FullMethodName, MatchmakerService_GetQueueStats_Handler (AnyMatchmaker m :: ('s, 't) any_server)),
       (MatchmakerService_ForceMatch_FullMethodName, MatchmakerService_ForceMatch_Handler (AnyMatchmaker m :: ('s, 't) any_server)),
       (SessionTrackerService_SubmitResult_FullMethodName, SessionTrackerService_SubmitResult_Handler (AnyTracker t :: ('s, 't) any_server)),
       (SessionTrackerService_GetSession_FullMethodName, SessionTrackerService_GetSession_Handler (AnyTracker t :: ('s, 't) any_server))]"
    and "stream_routes reg =
      [(PlayerGatewayService_EnterMatchmaking_FullMethodName, PlayerGatewayService_EnterMatchmaking_Handler (AnyGateway g))]"
  using assms
  by (auto simp: register_all_eq unary_routes_def stream_routes_def service_descs full_name_def method_names split: if_splits)

lemma names_distinct:
  "distinct [PlayerGatewayService_EnterMatchmaking_FullMethodName, MatchmakerService_GetQueueStats_FullMethodName,
     MatchmakerService_ForceMatch_FullMethodName, SessionTrackerService_SubmitResult_FullMethodName,
     SessionTrackerService_GetSession_FullMethodName]"
  unfolding method_names by simp

text \<open>How a method of an implementation is entered: behind the interceptor, if there is one.\<close>

definition behind :: "string \<Rightarrow> 's interceptor option \<Rightarrow> ('s, any_response) unary_handler \<Rightarrow> ('s, any_response) unary_handler" where
  "behind name interceptor call = (case interceptor of None \<Rightarrow> call | Some i \<Rightarrow> i name call)"

definition routed_to ::
  "('s, 't) registrar \<Rightarrow> string \<Rightarrow> (decoder \<Rightarrow> code + 'q) \<Rightarrow> ('r \<Rightarrow> any_response) \<Rightarrow> ('q \<Rightarrow> ('s, 'r) unary_handler) \<Rightarrow> bool" where
  "routed_to reg name get wrap meth \<longleftrightarrow> (\<exists>h. map_of (unary_routes reg) name = Some h
     \<and> (\<forall>dec i. h dec i = (case get dec of
          Inl err \<Rightarrow> (\<lambda>st. (st, Ret (None, Some err)))
        | Inr req \<Rightarrow> behind name i (into_any wrap (meth req)))))"

lemma routed_toI:
  assumes "map_of (unary_routes reg) name = Some h"
    and "\<And>dec i. h dec i = (case get dec of
          Inl err \<Rightarrow> (\<lambda>st. (st, Ret (None, Some err)))
        | Inr req \<Rightarrow> behind name i (into_any wrap (meth req)))"
  shows "routed_to reg name get wrap meth"
  unfolding routed_to_def using assms by blast

lemma handlers_enter:
  "MatchmakerService_GetQueueStats_Handler (AnyMatchmaker m) dec i = (case dec_QueueStats dec of
      Inl err \<Rightarrow> (\<lambda>st. (st, Ret (None, Some err)))
    | Inr req \<Rightarrow> behind MatchmakerService_GetQueueStats_FullMethodName i (into_any AnyQueueStats (mms_GetQueueStats m req)))"
  "MatchmakerService_ForceMatch_Handler (AnyMatchmaker m) dec i = (case dec_ForceMatch dec of
      Inl err \<Rightarrow> (\<lambda>st. (st, Ret (None, Some err)))
    | Inr req \<Rightarrow> behind MatchmakerService_ForceMatch_FullMethodName i (into_any AnyForceMatch (mms_ForceMatch m req)))"
  "SessionTrackerService_SubmitResult_Handler (AnyTracker t) dec i = (case dec_SubmitResult dec of
      Inl err \<Rightarrow> (\<lambda>st. (st, Ret (None, Some err)))
    | Inr req \<Rightarrow> behind SessionTrackerService_SubmitResult_FullMethodName i (into_any AnySubmitResult (sts_SubmitResult t req)))"
  "SessionTrackerService_GetSession_Handler (AnyTracker t) dec i = (case dec_GetSession dec of
      Inl err \<Rightarrow> (\<lambda>st. (st, Ret (None, Some err)))
    | Inr req \<Rightarrow> behind SessionTrackerService_GetSession_FullMethodName i (into_any AnySession (sts_GetSession t req)))"
  by (rule ext, simp add: MatchmakerService_GetQueueStats_Handler_def MatchmakerService_ForceMatch_Handler_def
      SessionTrackerService_SubmitResult_Handler_def SessionTrackerService_GetSession_Handler_def behind_def
      reply_error_def Let_def split: sum.split option.split)+

section \<open>The tracker behind its stubs\<close>

definition tracker_server :: "bool \<Rightarrow> gtime \<Rightarrow> string list \<Rightarrow> MatchmakerServer SessionTrackerServiceServer" where
  "tracker_server ctx_done now ks =
     \<lparr>sts_embeds = ByValue,
      sts_SubmitResult = (\<lambda>req st.
        let (ss, reply) = SubmitResult RecordResult ctx_done now req (srv_sessions (app st))
        in (st\<lparr>app := (app st)\<lparr>srv_sessions := ss\<rparr>\<rparr>, Ret reply)),
      sts_GetSession = (\<lambda>req st. (st, Ret (TrackerGetSession ks req (srv_sessions (app st)))))\<rparr>"

text \<open>
  What the library documents of a unary call that reaches the server: the request is decoded as it was
  sent, the handler found under the name runs behind the interceptor chain, and the client gets the
  response on success and the error otherwise.
\<close>

definition carries_submit ::
  "('s, 't) registrar \<Rightarrow> decoder \<Rightarrow> (SubmitResultRequest, SubmitResultResponse) invoke \<Rightarrow> string \<Rightarrow> SubmitResultRequest
    \<Rightarrow> 's server \<Rightarrow> 's server \<Rightarrow> bool" where
  "carries_submit reg dec invoke name req st st' \<longleftrightarrow> dec_SubmitResult dec = Inr req
     \<and> (\<forall>h. map_of (unary_routes reg) name = Some h \<longrightarrow>
         (case h dec (Some unary_chain) st of
            (s, Ret (Some (AnySubmitResult resp), None)) \<Rightarrow> st' = s \<and> (\<forall>out. invoke name req out = (resp, None))
          | (s, Ret (_, Some err)) \<Rightarrow> st' = s \<and> (\<forall>out. snd (invoke name req out) = Some err)
          | _ \<Rightarrow> True))"

lemma SubmitResult_reply:
  obtains (ok) ss resp where "SubmitResult RecordResult ctx_done now req ss0 = (ss, Some resp, None)"
  | (err) ss e where "SubmitResult RecordResult ctx_done now req ss0 = (ss, None, Some e)"
proof -
  obtain ss resp err where r: "SubmitResult RecordResult ctx_done now req ss0 = (ss, resp, err)"
    by (metis prod.exhaust)
  then have "resp = None \<longleftrightarrow> err \<noteq> None"
    by (auto simp: SubmitResult_def reply_ok_def reply_error_def split: if_splits prod.splits sum.splits)
  with r show thesis by (cases resp; cases err) (auto intro: ok err)
qed

section \<open>Properties\<close>

text \<open>C38: the generated names, descriptors and handlers fit together. Registration succeeds unless a nil
  pointer is embedded; afterwards exactly five methods can be routed, under five different names, which
  are the ones the client's stubs call; each runs the method of that name of the implementation that
  was registered, behind an interceptor that is told that name; and a request that cannot be decoded is
  answered before any interceptor runs.\<close>

theorem routes_correct:
  fixes g :: "('s, 't) PlayerGatewayServiceServer"
  assumes "no_nil_embedding g m t"
  shows "\<exists>reg. register_all g m t = Ret reg
    \<and> distinct (map fst (unary_routes reg) @ map fst (stream_routes reg))
    \<and> length (unary_routes reg) = 4 \<and> length (stream_routes reg) = 1
    \<and> routed_to reg MatchmakerService_GetQueueStats_FullMethodName dec_QueueStats AnyQueueStats (mms_GetQueueStats m)
    \<and> routed_to reg MatchmakerService_ForceMatch_FullMethodName dec_ForceMatch AnyForceMatch (mms_ForceMatch m)
    \<and> routed_to reg SessionTrackerService_SubmitResult_FullMethodName dec_SubmitResult AnySubmitResult (sts_SubmitResult t)
    \<and> routed_to reg SessionTrackerService_GetSession_FullMethodName dec_GetSession AnySession (sts_GetSession t)
    \<and> map_of (stream_routes reg) PlayerGatewayService_EnterMatchmaking_FullMethodName = Some (gws_EnterMatchmaking g)"
proof -
  obtain reg where reg: "register_all g m t = Ret reg" using assms by (simp add: register_all_eq)
  note routes = routes_eq [OF reg] and names = names_distinct
  have "distinct (map fst (unary_routes reg) @ map fst (stream_routes reg))"
    using names unfolding routes by auto
  moreover have "routed_to reg MatchmakerService_GetQueueStats_FullMethodName dec_QueueStats AnyQueueStats (mms_GetQueueStats m)"
    "routed_to reg MatchmakerService_ForceMatch_FullMethodName dec_ForceMatch AnyForceMatch (mms_ForceMatch m)"
    "routed_to reg SessionTrackerService_SubmitResult_FullMethodName dec_SubmitResult AnySubmitResult (sts_SubmitResult t)"
    "routed_to reg SessionTrackerService_GetSession_FullMethodName dec_GetSession AnySession (sts_GetSession t)"
    by (rule routed_toI [OF _ handlers_enter(1)] routed_toI [OF _ handlers_enter(2)] routed_toI [OF _ handlers_enter(3)]
        routed_toI [OF _ handlers_enter(4)]; use names routes in auto)+
  moreover have "map_of (stream_routes reg) PlayerGatewayService_EnterMatchmaking_FullMethodName = Some (gws_EnterMatchmaking g)"
    unfolding routes by (simp add: PlayerGatewayService_EnterMatchmaking_Handler_def fun_eq_iff)
  ultimately show ?thesis using reg routes by (intro exI [of _ reg]) simp
qed

text \<open>C37: submitting a result over the wire is the endpoint itself. Where the library carries the call,
  the stub returns exactly what \<open>SubmitResult\<close> replies and the store is what it leaves, with one line in
  the log, under the method's name and with its code; and no stub ever returns neither a response nor an
  error, which is what the simulated client relies on.\<close>

theorem submit_over_wire:
  fixes g :: "(MatchmakerServer, 't) PlayerGatewayServiceServer"
  assumes "register_all g m (tracker_server ctx_done now ks) = Ret reg"
    and "carries_submit reg dec invoke SessionTrackerService_SubmitResult_FullMethodName req st st'"
  shows "client_SubmitResult invoke req = snd (SubmitResult RecordResult ctx_done now req (srv_sessions (app st)))
    \<and> app st' = (app st)\<lparr>srv_sessions := fst (SubmitResult RecordResult ctx_done now req (srv_sessions (app st)))\<rparr>
    \<and> (\<exists>level. log_lines st' = log_lines st @ [UnaryCompleted level SessionTrackerService_SubmitResult_FullMethodName
          (status_Code (snd (client_SubmitResult invoke req)))])
    \<and> (\<forall>invoke' req'. client_SubmitResult invoke' req' \<noteq> (None, None))"
proof -
  let ?name = SessionTrackerService_SubmitResult_FullMethodName and ?t = "tracker_server ctx_done now ks"
  let ?h = "SessionTrackerService_SubmitResult_Handler (AnyTracker ?t :: (MatchmakerServer, 't) any_server) dec (Some unary_chain)"
  have route: "map_of (unary_routes reg) ?name = Some (SessionTrackerService_SubmitResult_Handler (AnyTracker ?t :: (MatchmakerServer, 't) any_server))"
    using names_distinct unfolding routes_eq [OF assms(1)] by auto
  have dec: "dec_SubmitResult dec = Inr req" using assms(2) by (simp add: carries_submit_def)
  have none: "\<forall>invoke' req'. client_SubmitResult invoke' req' \<noteq> (None, None)"
    by (simp add: client_SubmitResult_def stub_some)
  have run: "?h st = unary_chain ?name (into_any AnySubmitResult (sts_SubmitResult ?t req)) st"
    by (simp add: SessionTrackerService_SubmitResult_Handler_def dec)
  show ?thesis
  proof (cases rule: SubmitResult_reply [of ctx_done now req "srv_sessions (app st)"])
    case (ok ss resp)
    let ?st = "slog (UnaryCompleted LevelInfo ?name OK) (st\<lparr>app := (app st)\<lparr>srv_sessions := ss\<rparr>\<rparr>)"
    have "?h st = (?st, Ret (Some (AnySubmitResult resp), None))"
      unfolding run by (simp add: interceptor_defs into_any_def tracker_server_def ok status_Code_def)
    then have "st' = ?st" "\<forall>out. invoke ?name req out = (resp, None)"
      using assms(2) route by (simp_all add: carries_submit_def)
    then show ?thesis using none ok
      by (simp add: client_SubmitResult_def stub_call_def slog_def status_Code_def)
  next
    case (err ss e)
    let ?st = "slog (UnaryCompleted (if e = OK then LevelInfo else LevelWarn) ?name e) (st\<lparr>app := (app st)\<lparr>srv_sessions := ss\<rparr>\<rparr>)"
    have "?h st = (?st, Ret (None, Some e))"
      unfolding run by (simp add: interceptor_defs into_any_def tracker_server_def err status_Code_def)
    then have "st' = ?st" "\<forall>out. snd (invoke ?name req out) = Some e"
      using assms(2) route by (simp_all add: carries_submit_def)
    moreover from this have "client_SubmitResult invoke req = (None, Some e)"
      by (simp add: client_SubmitResult_def stub_error)
    ultimately show ?thesis using none err by (auto simp: slog_def status_Code_def)
  qed
qed


text \<open>A server with default implementations of the other two services, and an unknown session.\<close>

definition new_server :: "MatchmakerServer server" where
  "new_server = \<lparr>log_lines = [], sem_heap = no_chans, app = NewMatchmakerServer NewPool NewSessionStore\<rparr>"

theorem routes_correct_witness:
  "\<exists>reg h. register_all UnimplementedPlayerGatewayServiceServer UnimplementedMatchmakerServiceServer
       (tracker_server False 0 []) = Ret (reg :: (MatchmakerServer, unit) registrar)
     \<and> map_of (unary_routes reg) MatchmakerService_ForceMatch_FullMethodName = Some h"
proof -
  let ?g = "UnimplementedPlayerGatewayServiceServer :: (MatchmakerServer, unit) PlayerGatewayServiceServer"
  have "no_nil_embedding ?g UnimplementedMatchmakerServiceServer (tracker_server False 0 [])"
    by (simp add: no_nil_embedding_def UnimplementedPlayerGatewayServiceServer_def
        UnimplementedMatchmakerServiceServer_def tracker_server_def)
  from routes_correct [OF this] show ?thesis unfolding routed_to_def by blast
qed

theorem submit_over_wire_witness:
  "\<exists>invoke. client_SubmitResult invoke \<lparr>sr_SessionId = ''s'', sr_PlayerId = ''p'', sr_Result = MATCH_RESULT_WIN,
      sr_Score = 1, sr_DurationS = 2\<rparr> = (None, Some NotFound)"
proof -
  let ?req = "\<lparr>sr_SessionId = ''s'', sr_PlayerId = ''p'', sr_Result = MATCH_RESULT_WIN, sr_Score = 1, sr_DurationS = 2\<rparr>"
  let ?g = "UnimplementedPlayerGatewayServiceServer :: (MatchmakerServer, unit) PlayerGatewayServiceServer"
  let ?m = "UnimplementedMatchmakerServiceServer" and ?t = "tracker_server False 0 []"
  let ?dec = "\<lparr>dec_QueueStats = Inl Internal, dec_ForceMatch = Inl Internal, dec_SubmitResult = Inr ?req, dec_GetSession = Inl Internal\<rparr>"
  let ?invoke = "\<lambda>name req out. (out, Some NotFound)"
  have "no_nil_embedding ?g ?m ?t"
    by (simp add: no_nil_embedding_def UnimplementedPlayerGatewayServiceServer_def
        UnimplementedMatchmakerServiceServer_def tracker_server_def)
  then obtain reg where reg: "register_all ?g ?m ?t = Ret reg" by (simp add: register_all_eq)
  have sub: "SubmitResult RecordResult False 0 ?req NewSessionStore = (NewSessionStore, None, Some NotFound)"
    by (simp add: SubmitResult_def RecordResult_def NewSessionStore_def reply_error_def
        MATCH_RESULT_WIN_def MATCH_RESULT_UNSPECIFIED_def)
  have route: "map_of (unary_routes reg) SessionTrackerService_SubmitResult_FullMethodName
      = Some (SessionTrackerService_SubmitResult_Handler (AnyTracker ?t :: (MatchmakerServer, unit) any_server))"
    using names_distinct unfolding routes_eq [OF reg] by auto
  let ?h = "SessionTrackerService_SubmitResult_Handler (AnyTracker ?t :: (MatchmakerServer, unit) any_server)"
  obtain s where run: "?h ?dec (Some unary_chain) new_server = (s, Ret (None, Some NotFound))"
    by (simp add: handlers_enter behind_def interceptor_defs into_any_def tracker_server_def
        new_server_def NewMatchmakerServer_def sub Let_def)
  have "carries_submit reg ?dec ?invoke SessionTrackerService_SubmitResult_FullMethodName ?req new_server s"
    unfolding carries_submit_def route by (simp add: run)
  from submit_over_wire [OF reg this] have "client_SubmitResult ?invoke ?req = (None, Some NotFound)"
    by (simp add: new_server_def NewMatchmakerServer_def sub)
  then show ?thesis by blast
qed

end
