(* ===== verification/Spec2Isabelle.thy ===== *)
theory Spec2Isabelle
  imports Nexus_Service Nexus_Capacity Nexus_EndToEnd Nexus_Bots Nexus_Main Nexus_Snapshot Nexus_Timing Nexus_Lobby Nexus_Locks
    Nexus_StoreLock Nexus_Stubs
begin

text \<open>
  Nexus-Match is a matchmaking server in Go: players join over a bidirectional gRPC stream, a worker
  drafts ten of similar rating, a ready check asks all of them to accept, a session is opened, and
  its players submit results over unary RPCs. This library models the Go code by hand-written
  definitions, function by function, and proves what makes each part correct, alone and together.

  \<^bold>\<open>Theories and sources\<close>

  \<^item> \<open>Nexus_Prelude\<close>: integers, instants, panics as values, gRPC codes, slices with a capacity,
    \<open>sort.Search\<close>, iteration over Go maps, transition systems; the interfaces \<open>go_sort\<close> (what
    \<open>sort.Slice\<close> promises), \<open>inductive_invariant\<close>, \<open>forward_simulation\<close> and \<open>player_queue\<close>.
  \<^item> \<open>Nexus_Float64\<close>: \<open>float64\<close> as rationals rounded to 53 bits, for the score of \<open>ExtractMatch\<close>.
  \<^item> \<open>Go_Channels\<close>: buffered channels as cells of a heap; a send on or close of a closed one panics.
  \<^item> \<open>Nexus_Pool\<close>, \<open>Nexus_Extract\<close>: \<open>internal/state/pool.go\<close>.
  \<^item> \<open>Nexus_Session\<close>: \<open>internal/state/session.go\<close>.
  \<^item> \<open>Nexus_Pb\<close>: messages, enums and getters of \<open>pkg/pb/nexus.pb.go\<close>; \<open>Nexus_Messages\<close>: its zero values,
    \<open>Reset\<close> and the remaining getters.
  \<^item> \<open>Nexus_Tracker\<close>: \<open>internal/services/tracker.go\<close>; the interface \<open>result_registry\<close>.
    \<open>Nexus_Snapshot\<close>: its \<open>GetSession\<close>, which reads the live session without the lock, beside
    \<open>RecordResult\<close>, write by write.
  \<^item> \<open>Nexus_Interceptor\<close>: \<open>internal/interceptor/interceptor.go\<close> and the chains of \<open>cmd/server/main.go\<close>;
    \<open>Nexus_Main\<close>: its \<open>main\<close> with the shutdown goroutine, signals and exit codes, around the worker of
    \<open>Nexus_Worker\<close>; \<open>Nexus_Capacity\<close>: the server behind the stream limit.
  \<^item> \<open>Nexus_Matchmaker\<close>: \<open>tick\<close>, the worker and the endpoints of \<open>internal/services/matchmaker.go\<close>;
    \<open>Nexus_ReadyCheck\<close>: its \<open>readyCheckCoordinator\<close>; \<open>Nexus_Worker\<close>: \<open>StartWorker\<close>, \<open>StopWorker\<close> and the
    wait group.
  \<^item> \<open>Nexus_Gateway\<close>: \<open>internal/services/gateway.go\<close>. \<open>Nexus_Timing\<close>: its timeout and the
    coordinator's, on a clock.
  \<^item> \<open>Nexus_Client\<close>: \<open>client/main.go\<close>, its goroutines one after the other; \<open>Nexus_Bots\<close>: the same
    goroutines interleaved; \<open>Nexus_EndToEnd\<close>: a client against the server.
  \<^item> \<open>Nexus_System\<close>: all of the server's goroutines as one machine (\<open>sys_step\<close>) and its invariant
    \<open>sys_inv\<close>; \<open>Nexus_System_Streams\<close>, \<open>Nexus_System_Rooms\<close>: the invariant under each step;
    \<open>Nexus_System_Verdict\<close>: a second one, about verdicts that are not read yet.
  \<^item> \<open>Nexus_Composition\<close>: consequences for reachable states, and \<open>tick\<close> as a run of the machine;
    \<open>Nexus_Progress\<close>: every ready check and every stream can be brought to its end;
    \<open>Nexus_Playthrough\<close>: a complete match as a run; \<open>Nexus_Ghost\<close>: a player left in the pool;
    \<open>Nexus_Service\<close>: the specification of the whole server, and that it is implemented.
  \<^item> \<open>Go_Mutex\<close>: \<open>sync.RWMutex\<close> around an object, the interface \<open>guarded_object\<close> of a body that the lock
    makes atomic, and \<open>bounded_section\<close> of one that gives the lock back; \<open>Nexus_Locks\<close>: the methods of
    \<open>pool.go\<close> under \<open>p.mu\<close>, one step per write; \<open>Nexus_StoreLock\<close>: those of \<open>session.go\<close> under \<open>ss.mu\<close>.
  \<^item> \<open>Nexus_Stubs\<close>: \<open>pkg/pb/nexus_grpc.pb.go\<close> and the registration in \<open>main\<close>.
  \<^item> \<open>Nexus_Lobby\<close>: a coarser view of the pool, with ticks that run without interruption.
  \<^item> this theory: the properties of the whole server.

  \<^bold>\<open>How the parts interact\<close>

  The pool is shared by all streams and the worker; its methods hold one mutex, so each is one
  function on the state (\<open>Nexus_Locks\<close> shows that this is what the lock gives). A stream (\<open>EnterMatchmaking\<close>) enqueues its player and waits on the player's
  channel. \<open>tick\<close> extracts ten players and sends each a \<open>MatchEvent\<close> with its own response and result
  channel, and launches a coordinator. The stream answers with one response; the coordinator gathers
  them, creates the session or gives up, publishes its verdict on every result channel, and in the
  second case puts the players who accepted back. The tracker records results in the session store.
  The interceptors stand before every handler: a stream that finds no slot never reaches the gateway.
  \<open>main\<close> starts the worker and serves; a signal makes the shutdown goroutine stop the worker and wait
  for the RPCs. A client joins, accepts, is told its session and submits to the tracker.

  \<^bold>\<open>State\<close>

  Go values are records with the fields of the structs. A pointer to a struct that is never written
  after it is built (\<open>QueuedPlayer\<close>) or only written under the lock of its owner (\<open>Session\<close>) is
  copied by value; everything shared and mutable is a channel, which is a number into a heap. The
  goroutines of a ready check and of a stream are step relations (\<open>co_step\<close>, \<open>gw_step\<close>): one step is
  the code between two points where another goroutine can run. Each also has a machine of its own, in
  which the others may do anything they are entitled to (\<open>env_step\<close>, \<open>gate_step\<close>). The machine of the
  server, \<open>sys_step\<close>, runs any number of streams, ready checks and ticks over one pool, one store and
  one heap; \<open>tick\<close> is cut at the extraction, at every send and at the launch (\<open>open_room\<close>,
  \<open>notify_next\<close>, \<open>launch_next\<close>). In a reachable state each room and each stream is in a reachable
  state of its own machine (\<open>room_view\<close>, \<open>stream_view\<close>), so what is proved there holds in the server.
  A log of the responses sent (\<open>sy_log\<close>) and a list of the players whose notification failed
  (\<open>sy_missed\<close>) are history: no step reads them. A map is a partial function, and a loop over it takes
  the order of its keys as an argument, a list that \<open>covers\<close> the map.

  \<^bold>\<open>What is proved\<close>

  \<^item> Pool: the double index is consistent, sorted and free of duplicates (\<open>pool_inv\<close>), and every
    operation keeps it; the in-place slice helpers equal their textbook versions; \<open>Enqueue\<close> and
    \<open>Dequeue\<close> on every branch; an extracted match is ten different players of neighbouring brackets,
    the first window of least score, exactly removed; when a match must be found and when it is not.
  \<^item> Sessions and tracker: the invariant of every reachable store, \<open>RecordResult\<close> and \<open>SubmitResult\<close> on
    every branch, and that a match can be completed.
  \<^item> Matchmaker: \<open>tick\<close> terminates and does exactly what its rooms say; \<open>ForceMatch\<close> counts them.
  \<^item> Ready check: a session exists exactly when all accepted; no panic, no wait on own channels, a
    bound on the steps in any interleaving; who is put back.
  \<^item> Gateway: the protocol of responses (\<open>proto_run\<close>), the codes, the cleanup on every way out.
  \<^item> Snapshot: what a \<open>GetSession\<close> beside a \<open>RecordResult\<close> can rely on, and what it cannot.
  \<^item> Timing: with gateways that are less than two seconds late no room fails by the coordinator's own
    deadline; with two seconds it can.
  \<^item> Worker and process: the wait group counts the worker and its coordinators, and \<open>StopWorker\<close> waits
    for them; with which code the process exits, in which states, and that it can always be left.
  \<^item> Interceptors: no panic gets out, every call is logged; in the server behind the limit at most
    500 handlers run, a slot is free exactly below it, and can always become free.
  \<^item> Client: against a server that keeps the protocol it does not crash and is counted once; how its
    goroutines interleave does not matter for the totals; against the server of \<open>Nexus_System\<close> what it
    submits is accepted for the session it was told.
  \<^item> Specification (\<open>service_step\<close>): eight rules over waiting tickets, matches and sessions. Every step of
    the server is one of them or changes nothing there (\<open>service_of\<close>), so what is proved of the
    specification holds of the server.
  \<^item> Locks: the methods of the pool and of the session store, cut at every write and called from any
    number of goroutines, are linearizable; their invariants hold whenever no writer is inside; nobody
    waits for a lock in vain. The operation takes effect at a statement named by \<open>pool_fate\<close> and
    \<open>store_fate\<close>; \<open>pool_settle\<close> and \<open>store_settle\<close> read the atomic object off the half-written one.
  \<^item> Stubs: names, descriptors, handlers and registration fit together, and a submission that passes
    through stub, handler and interceptors is the endpoint itself.
  \<^item> Server: below, for every interleaving from the empty server. The invariant behind it says that no
    two rooms share a player they may put back, a channel or an id; that an event in a player's channel
    is the player's slot of a room; that a slot is answered at most once and by its own stream; and that
    a published verdict stays in its channel until that stream has read it.

  Some theorems state behaviour that is hardly meant: matches blocked behind the fullest bracket,
  acceptances lost on their way, a \<open>Dequeue\<close> of somebody else's entry, an acceptance that counts for a
  later check, and a player who stays in the pool without a stream.

  \<^bold>\<open>Parameters, bounds and what is left out\<close>

  Parameters of the model: the clock, UUIDs (a new one is one that no room has), random numbers, the
  growth of slices (\<open>grow\<close>), the order of maps, the sorter (every one that keeps \<open>go_sort\<close>;
  \<open>insertionSort\<close>, which the library runs on short slices, is the instance), and whether a \<open>Send\<close>
  succeeds. No fuel is used: \<open>tick\<close> is a \<open>partial_function\<close> proved to return. Exponents of \<open>float64\<close>
  are not bounded and products are not fused with sums; the scores stay far from overflow. Timers may
  fire at any time, so no property speaks of elapsed time, except in \<open>Nexus_Timing\<close>, where goroutines are
  taken to be faster than the clock. Not modelled: the protobuf wire format and
  runtime, the gRPC transport (what it is documented to carry is a hypothesis, \<open>carries_submit\<close>),
  keepalive, logging except the lines of the interceptors, and the memory model beyond atomic steps.
  The machine of a lock lets a reader in while a writer waits, which Go does not; that only adds runs. In \<open>Nexus_Main\<close> the documented
  behaviour of the libraries is used: \<open>Serve\<close> returns nil after \<open>GracefulStop\<close> and an error otherwise,
  \<open>GracefulStop\<close> waits for all RPCs, a signal is dropped when the channel is full; whether \<open>Serve\<close> waits
  for \<open>GracefulStop\<close> to end, which has changed between versions, is the parameter \<open>waits\<close>. In
  \<open>Nexus_Snapshot\<close> a loop over a map visits every entry that is there from its beginning once, may visit
  one that comes, and ends the process when it meets a concurrent write, as the Go runtime does.
\<close>

section \<open>Properties\<close>

text \<open>C8: whatever streams, coordinators, ticks and submissions do to each other, what the matchmaker relies on
  holds: the pool is well-formed, every queued player has a rating in \<open>[0, 10000]\<close> and an open, empty
  channel. So a tick returns without a panic from every state, and leaves at most 189 players waiting.\<close>

theorem system_safe:
  assumes "match_sort srt" "runs grow srt s"
    and "\<forall>m. covers (te_keys (env m)) (brackets (sy_pool s))" "srv_pool srv = sy_pool s" "srv_bools srv = sy_bools s"
  shows "pool_inv (sy_pool s) \<and> (\<forall>q \<in> queued (sy_pool s). valid_mmr q \<and> idle (heap_of s) (MatchCh q))
    \<and> (\<exists>srv'. tick srt env n srv = Some (Ret srv') \<and> Size (srv_pool srv') \<le> 189)"
proof -
  have inv: "sys_inv grow s" by (rule runs_inv [OF assms(1,2)])
  note b = base_facts [OF sys_facts(1) [OF inv]]
  have valid: "\<forall>q \<in> queued (sy_pool s). valid_mmr q"
    using b(4) stream_facts(2) [OF sys_facts(6) [OF inv]] by (auto simp: members_def ran_def)
  have "\<exists>srv'. tick srt env n srv = Some (Ret srv') \<and> Size (srv_pool srv') \<le> 189"
    using tick_drains [OF assms(1), of srv env n] b(1,2) assms(3-5) valid by metis
  then show ?thesis using b(1) valid by (simp add: ready_pool_def)
qed

theorem system_safe_witness:
  "\<exists>s srv env srv'. runs demo_grow insertionSort s \<and> srv_pool srv = sy_pool s \<and> card (queued (sy_pool s)) = 10
     \<and> tick insertionSort env 0 srv = Some (Ret srv') \<and> Size (srv_pool srv') \<le> 189"
proof -
  obtain s where s: "runs demo_grow insertionSort s" "gathered demo_id (\<lambda>_. 1000) 10 s" by (rule demo_gathered)
  obtain ks p qs where x: "covers ks (brackets (sy_pool s))" "set qs = queued (sy_pool s)" "length qs = 10" "distinct (map PlayerID qs)"
    using gathered_extract [OF match_insertion.match_sort_axioms s demo_ids(1), of 2] demo_mmr(1) by metis
  let ?srv = "(NewMatchmakerServer (sy_pool s) (sy_sessions s))\<lparr>srv_bools := sy_bools s\<rparr>"
  have "card (queued (sy_pool s)) = 10" using x distinct_card [of qs] by (simp add: distinct_map)
  moreover have "\<exists>srv'. tick insertionSort (\<lambda>_. \<lparr>te_keys = ks, te_extract = 0, te_now = 0, te_uuid = []\<rparr>) 0 ?srv = Some (Ret srv')
      \<and> Size (srv_pool srv') \<le> 189"
    using system_safe [OF match_insertion.match_sort_axioms s(1), of "\<lambda>_. \<lparr>te_keys = ks, te_extract = 0, te_now = 0, te_uuid = []\<rparr>" ?srv 0]
      x(1) by (simp add: NewMatchmakerServer_def)
  moreover have "srv_pool ?srv = sy_pool s" by (simp add: NewMatchmakerServer_def)
  ultimately show ?thesis using s(1) by blast
qed

text \<open>C2: no goroutine of the server panics, and no event is lost: a send to a player or of a verdict never
  hits a closed channel, \<open>Dequeue\<close> never closes a channel twice, no \<open>MatchEvent\<close> is dropped (the warning
  branch of \<open>tick\<close> is dead), no response channel is answered twice, and the guarded send of an answer
  always finds room, so no answer is dropped either.\<close>

theorem system_never_panics:
  assumes "match_sort srt" "runs grow srt s"
  shows "(\<forall>k rp. sy_rooms s k = Some rp \<longrightarrow> notify_next rp (heap_of s) \<noteq> Some Panic
       \<and> publish (rp_co rp) (sy_bools s) \<noteq> Some Panic)
    \<and> (\<forall>n st. sy_streams s n = Some st \<longrightarrow> on_cancel now ok st (sy_pool s) \<noteq> Some Panic
       \<and> deferred_dequeue st (sy_pool s) \<noteq> Some Panic
       \<and> check_accepted st (sy_bools s) \<noteq> Some Panic \<and> check_refused why now ok st (sy_bools s) \<noteq> Some Panic)
    \<and> sy_missed s = [] \<and> distinct (map (fst \<circ> snd) (sy_log s))
    \<and> (\<forall>n st evt. sy_streams s n = Some st \<and> gw_at st = Checking evt \<longrightarrow> idle (sy_bools s) (ResponseCh evt))"
proof -
  have inv: "sys_inv grow s" by (rule runs_inv [OF assms])
  note b = base_facts [OF sys_facts(1) [OF inv]]
  have room: "notify_next rp (heap_of s) \<noteq> Some Panic \<and> publish (rp_co rp) (sy_bools s) \<noteq> Some Panic"
    if k: "sy_rooms s k = Some rp" for k rp
  proof
    show "notify_next rp (heap_of s) \<noteq> Some Panic"
    proof (cases "rp_told rp < length (rm_players (rp_room rp))")
      case True
      obtain H where "chan_try_send (MatchCh (rp_player rp (rp_told rp))) (rp_event rp (rp_told rp)) (heap_of s) = Ret (True, H)"
        using notify_turn [OF inv k True] by metis
      with True show ?thesis by (simp add: notify_next_def)
    qed (simp add: notify_next_def)
    note r = room_view_reachable [OF sys_facts(4) [OF inv k]]
    show "publish (rp_co rp) (sy_bools s) \<noteq> Some Panic"
      using publish_no_panic [OF r] by (simp add: room_view_def)
  qed
  have open_resp: "idle (sy_bools s) (ResponseCh evt)" if n: "sy_streams s n = Some st" "gw_at st = Checking evt" for n st evt
  proof -
    obtain rp i where i: "serves s (gw_qp st) rp i" "evt = rp_event rp i" "\<not> answered s (rp_resp rp i)"
      using stream_checking [OF sys_facts(6) [OF inv n(1)] n(2)] by metis
    obtain k where "room_inv grow s rp" "i < 10" using serves_room [OF inv i(1)] by metis
    from response_room [OF this i(3)] i(2) show ?thesis by simp
  qed
  have stream: "on_cancel now ok st (sy_pool s) \<noteq> Some Panic \<and> deferred_dequeue st (sy_pool s) \<noteq> Some Panic
      \<and> check_accepted st (sy_bools s) \<noteq> Some Panic \<and> check_refused why now ok st (sy_bools s) \<noteq> Some Panic"
    if n: "sy_streams s n = Some st" for n st
  proof (intro conjI)
    obtain p c where "Dequeue (PlayerID (gw_qp st)) (sy_pool s) = (p, Ret c)"
      using pool_queue.leave_total [OF b(8)] by metis
    then show "on_cancel now ok st (sy_pool s) \<noteq> Some Panic" "deferred_dequeue st (sy_pool s) \<noteq> Some Panic"
      by (auto simp: on_cancel_def deferred_dequeue_def split: list.splits gw_pc.splits)
    have send: "\<exists>B. chan_try_send (ResponseCh evt) v (sy_bools s) = Ret (True, B)" if "gw_at st = Checking evt" for evt v
      using try_send_idle [OF open_resp [OF n that]] by metis
    show "check_accepted st (sy_bools s) \<noteq> Some Panic"
      using send [where v = True] by (cases "gw_at st") (fastforce simp: check_accepted_def split: list.splits)+
    show "check_refused why now ok st (sy_bools s) \<noteq> Some Panic"
    proof (cases "\<exists>evt. gw_at st = Checking evt")
      case True
      then obtain evt B where "gw_at st = Checking evt" "chan_try_send (ResponseCh evt) False (sy_bools s) = Ret (True, B)"
        using send by metis
      then show ?thesis by (simp add: check_refused_def)
    qed (auto simp: check_refused_def split: gw_pc.splits)
  qed
  have "distinct (map (fst \<circ> snd) (sy_log s))" using sys_facts(3) [OF inv] by (simp add: log_inv_def)
  then show ?thesis using room stream open_resp b(5) by blast
qed

theorem system_never_panics_witness:
  "\<exists>s rp. runs demo_grow insertionSort s \<and> sy_rooms s 0 = Some rp \<and> notify_next rp (heap_of s) \<noteq> Some Panic \<and> sy_missed s = []"
proof -
  obtain s rp who where s: "runs demo_grow insertionSort s" "sy_rooms s 0 = Some rp" by (rule demo_decided)
  from system_never_panics [OF match_insertion.match_sort_axioms s(1)] s show ?thesis by blast
qed

text \<open>C1: a session in the store is the work of one launched room of ten different players, and each of them
  said yes: on the response channel of its slot there was exactly one answer ever, \<open>true\<close>, and it came
  from the stream that belongs to that very player.\<close>

theorem session_needs_ten:
  assumes "match_sort srt" "runs grow srt s" "GetSession sid (sy_sessions s) = Some t"
  shows "\<exists>k rp. sy_rooms s k = Some rp \<and> rm_session (rp_room rp) = sid \<and> rp_launched rp
    \<and> PlayerIDs t = map PlayerID (rm_players (rp_room rp)) \<and> length (PlayerIDs t) = 10 \<and> distinct (PlayerIDs t)
    \<and> (\<forall>i < 10. \<exists>n st. sy_streams s n = Some st \<and> gw_qp st = rp_player rp i \<and> (n, rp_resp rp i, True) \<in> set (sy_log s)
          \<and> (\<forall>m v. (m, rp_resp rp i, v) \<in> set (sy_log s) \<longrightarrow> m = n \<and> v))"
proof -
  have inv: "sys_inv grow s" by (rule runs_inv [OF assms(1,2)])
  obtain k rp where k: "sy_rooms s k = Some rp" and sid: "rm_session (rp_room rp) = sid" and c: "confirmed (rp_co rp)"
    and ids: "PlayerIDs t = map PlayerID (rm_players (rp_room rp))"
    and ans: "\<And>i. i < 10 \<Longrightarrow> (rp_resp rp i, True) \<in> snd ` set (sy_log s)"
    using session_room [OF inv assms(3)] by metis
  note r = sys_facts(4) [OF inv k]
  have "co_at (rp_co rp) \<noteq> Gathering" using c by (simp add: confirmed_def)
  then have launched: "rp_launched rp"
    using room_proc [OF r] unfolding proc_ok_def launch_def by (metis Coordinator.select_convs(8))
  have d: "distinct (map (fst \<circ> snd) (sy_log s))" using sys_facts(3) [OF inv] by (simp add: log_inv_def)
  have who: "\<exists>n st. sy_streams s n = Some st \<and> gw_qp st = rp_player rp i \<and> (n, rp_resp rp i, True) \<in> set (sy_log s)
      \<and> (\<forall>m v. (m, rp_resp rp i, v) \<in> set (sy_log s) \<longrightarrow> m = n \<and> v)" if i: "i < 10" for i
  proof -
    obtain n where n: "(n, rp_resp rp i, True) \<in> set (sy_log s)" using ans [OF i] by force
    obtain st x j where st: "sy_streams s n = Some st" and sv: "serves s (gw_qp st) x j" and e: "rp_resp rp i = rp_resp x j"
      by (rule log_entry [OF sys_facts(3) [OF inv] n])
    have told: "rp_told rp = 10" using room_proc [OF r] launched by (simp add: proc_ok_def)
    then have "serves s (rp_player rp i) rp i" using k i by (auto simp: serves_def ran_def)
    have "gw_qp st = rp_player rp i" using same_slot [OF inv \<open>serves s (rp_player rp i) rp i\<close> sv e] by metis
    moreover have "m = n \<and> v" if "(m, rp_resp rp i, v) \<in> set (sy_log s)" for m v
    proof -
      have "(m, rp_resp rp i, v) = (n, rp_resp rp i, True)"
        by (rule inj_onD [of "fst \<circ> snd" "set (sy_log s)"]) (use d that n in \<open>simp_all add: distinct_map\<close>)
      then show ?thesis by simp
    qed
    ultimately show ?thesis using st n by blast
  qed
  have "length (PlayerIDs t) = 10" "distinct (PlayerIDs t)"
    using room_proc [OF r] by (simp_all add: ids proc_ok_def)
  then show ?thesis using k sid ids launched who by blast
qed

theorem session_needs_ten_witness:
  "\<exists>s t. runs demo_grow insertionSort s \<and> GetSession ''s'' (sy_sessions s) = Some t \<and> length (PlayerIDs t) = 10"
proof -
  obtain s t where s: "runs demo_grow insertionSort s" "GetSession ''s'' (sy_sessions s) = Some t" by (rule demo_session)
  from session_needs_ten [OF match_insertion.match_sort_axioms s] s show ?thesis by blast
qed

text \<open>C4: a client that is sent a match is one of its ten different players; if the response is IN_GAME, the
  session exists in the store and lists exactly the players of the response; and any two responses for
  the same session id, to whichever clients, carry the same match.\<close>

theorem clients_agree:
  assumes "match_sort srt" "runs grow srt s" "sy_streams s n = Some st" "resp \<in> set (gw_sent st)" "gr_Match resp = Some a"
  shows "length (ma_PlayerIds a) = 10 \<and> distinct (ma_PlayerIds a) \<and> PlayerID (gw_qp st) \<in> set (ma_PlayerIds a)
    \<and> (gr_Status resp = QUEUE_STATUS_IN_GAME \<longrightarrow>
         (\<exists>t. GetSession (ma_SessionId a) (sy_sessions s) = Some t \<and> PlayerIDs t = ma_PlayerIds a))
    \<and> (\<forall>m st' resp' b. sy_streams s m = Some st' \<and> resp' \<in> set (gw_sent st') \<and> gr_Match resp' = Some b
         \<and> ma_SessionId b = ma_SessionId a \<longrightarrow> b = a)"
proof -
  have inv: "sys_inv grow s" by (rule runs_inv [OF assms(1,2)])
  have slot: "\<exists>k rp i. sy_rooms s k = Some rp \<and> i < 10 \<and> gw_qp st = rp_player rp i \<and> a = assignment (rp_event rp i)
      \<and> (gr_Status resp = QUEUE_STATUS_IN_GAME \<longrightarrow> confirmed (rp_co rp))"
    if st: "sy_streams s n = Some st" "resp \<in> set (gw_sent st)" "gr_Match resp = Some a" for n st resp a
  proof -
    obtain rp i where *: "serves s (gw_qp st) rp i" "a = assignment (rp_event rp i)"
      "gr_Status resp = QUEUE_STATUS_IN_GAME \<longrightarrow> confirmed (rp_co rp)"
      using stream_assigned [OF sys_facts(6) [OF inv st(1)] st(2,3)] by metis
    then show ?thesis using serves_room [OF inv *(1)] by metis
  qed
  obtain k rp i where k: "sy_rooms s k = Some rp" and i: "i < 10" "gw_qp st = rp_player rp i"
    and a: "a = assignment (rp_event rp i)" and c: "gr_Status resp = QUEUE_STATUS_IN_GAME \<longrightarrow> confirmed (rp_co rp)"
    using slot [OF assms(3-5)] by metis
  note r = sys_facts(4) [OF inv k]
  have ids: "ma_PlayerIds a = map PlayerID (rm_players (rp_room rp))" "ma_SessionId a = rm_session (rp_room rp)"
    by (simp_all add: a assignment_def)
  have "length (ma_PlayerIds a) = 10" "distinct (ma_PlayerIds a)"
    using room_proc [OF r] by (simp_all add: ids proc_ok_def)
  moreover have "PlayerID (gw_qp st) \<in> set (ma_PlayerIds a)"
    using i room_shape(2) [OF r] by (simp add: ids rp_player_def)
  moreover have "\<exists>t. GetSession (ma_SessionId a) (sy_sessions s) = Some t \<and> PlayerIDs t = ma_PlayerIds a"
    if "gr_Status resp = QUEUE_STATUS_IN_GAME"
    using confirmed_session [OF inv k] c that unfolding ids by metis
  moreover have "b = a" if o: "sy_streams s m = Some st'" "resp' \<in> set (gw_sent st')" "gr_Match resp' = Some b"
    "ma_SessionId b = ma_SessionId a" for m st' resp' b
  proof -
    obtain k' rp' j where k': "sy_rooms s k' = Some rp'" "b = assignment (rp_event rp' j)"
      using slot [OF o(1-3)] by metis
    then have "rm_session (rp_room rp') = rm_session (rp_room rp)" using o(4) ids(2) by (simp add: assignment_def)
    then have "rp' = rp" using sys_facts(5) [OF inv k k'(1)] k k'(1) by (cases "k' = k") (auto simp: apart_def)
    then show ?thesis using k'(2) a by (simp add: assignment_def rp_event_def room_event_def)
  qed
  ultimately show ?thesis by blast
qed

theorem clients_agree_witness:
  "\<exists>s st resp a. runs demo_grow insertionSort s \<and> st \<in> ran (sy_streams s) \<and> resp \<in> set (gw_sent st)
     \<and> gr_Match resp = Some a \<and> gr_Status resp = QUEUE_STATUS_IN_GAME \<and> length (ma_PlayerIds a) = 10
     \<and> GetSession (ma_SessionId a) (sy_sessions s) \<noteq> None"
proof -
  obtain s0 rp who where s0: "runs demo_grow insertionSort s0" "sy_rooms s0 0 = Some rp"
    and fin: "co_at (rp_co rp) = Finished" "co_allAccepted (rp_co rp)" "\<And>i. i < 10 \<Longrightarrow> slot_after who s0 rp i"
    using demo_decided by metis
  obtain s t where s: "runs demo_grow insertionSort s" and played: "\<And>i. i < 10 \<Longrightarrow> slot_played who s rp i"
    using room_plays [OF match_insertion.match_sort_axioms s0 fin] by metis
  obtain st where st: "sy_streams s (who 0) = Some st" "game_response 0 (rp_event rp 0) \<in> set (gw_sent st)"
    using played [of 0] unfolding slot_played_def by auto
  have g: "gr_Match (game_response 0 (rp_event rp 0)) = Some (assignment (rp_event rp 0))"
    "gr_Status (game_response 0 (rp_event rp 0)) = QUEUE_STATUS_IN_GAME"
    by (simp_all add: game_response_def)
  have "st \<in> ran (sy_streams s)" using st(1) by (rule ranI)
  with clients_agree [OF match_insertion.match_sort_axioms s st g(1)] g st(2) s show ?thesis by (metis option.distinct(1))
qed

text \<open>C3: a stream that waits for a verdict waits for a room that lists its player, its result channel never
  reads as closed, and once the room has published, the verdict is there to be read: every waiting
  stream gets the room's own verdict, goes to IN_GAME or back to the queue, and tells its client which.\<close>

theorem verdict_reaches_all:
  assumes "match_sort srt" "runs grow srt s" "sy_streams s n = Some st" "gw_at st = Awaiting evt"
  shows "\<exists>k rp. sy_rooms s k = Some rp \<and> evt_SessionID evt = rm_session (rp_room rp)
    \<and> gw_qp st \<in> set (rm_players (rp_room rp))
    \<and> fst (chan_recv (ResultCh evt) (sy_bools s)) \<noteq> Closed
    \<and> (co_at (rp_co rp) = Finished \<or> (\<exists>qs. co_at (rp_co rp) = Requeueing qs) \<longrightarrow>
         (\<exists>st' B. on_verdict now True st (sy_bools s) = Some (st', B)
            \<and> gw_at st' = (if co_allAccepted (rp_co rp) then Returning None else Selecting)
            \<and> map gr_Status (gw_sent st') = map gr_Status (gw_sent st)
                @ [if co_allAccepted (rp_co rp) then QUEUE_STATUS_IN_GAME else QUEUE_STATUS_WAITING]))"
proof -
  have inv: "sys_inv grow s" and ver: "verdict_inv s" by (rule runs_inv [OF assms(1,2)])+
  obtain rp i where sv: "serves s (gw_qp st) rp i" and evt: "evt = rp_event rp i"
    using stream_awaiting [OF sys_facts(6) [OF inv assms(3)] assms(4)] by metis
  obtain k where k: "sy_rooms s k = Some rp" and i: "i < 10" "gw_qp st = rp_player rp i"
    using serves_room [OF inv sv] by metis
  have "pending s (ResultCh evt)" by (rule pendingI(3) [OF assms(3)]) (simp add: minds_def assms(4))
  then have u: "unread (sy_bools s) (ResultCh evt)" using ver by (simp add: verdict_inv_def)
  have "fst (chan_recv (ResultCh evt) (sy_bools s)) \<noteq> Closed"
    using u by (auto simp: unread_def chan_recv_def split: list.splits)
  moreover have "\<exists>st' B. on_verdict now True st (sy_bools s) = Some (st', B)
       \<and> gw_at st' = (if co_allAccepted (rp_co rp) then Returning None else Selecting)
       \<and> map gr_Status (gw_sent st') = map gr_Status (gw_sent st)
                @ [if co_allAccepted (rp_co rp) then QUEUE_STATUS_IN_GAME else QUEUE_STATUS_WAITING]"
    if fin: "co_at (rp_co rp) = Finished \<or> (\<exists>qs. co_at (rp_co rp) = Requeueing qs)"
  proof -
    obtain B where recv: "chan_recv (ResultCh evt) (sy_bools s) = (Value (co_allAccepted (rp_co rp)), B)"
      using verdict_ready [OF inv ver assms(3) assms(4) [unfolded evt] k i(1) fin] evt by metis
    show ?thesis
      using recv assms(4)
      by (cases "co_allAccepted (rp_co rp)")
        (simp_all add: on_verdict_def pushed_def game_response_def requeued_response_def)
  qed
  moreover have "gw_qp st \<in> set (rm_players (rp_room rp))"
    using i room_shape(2) [OF sys_facts(4) [OF inv k]] by (simp add: rp_player_def)
  ultimately show ?thesis using k evt by (intro exI [of _ k] exI [of _ rp]) simp
qed

theorem verdict_reaches_all_witness:
  "\<exists>s st evt st' B. runs demo_grow insertionSort s \<and> st \<in> ran (sy_streams s) \<and> gw_at st = Awaiting evt
     \<and> on_verdict 0 True st (sy_bools s) = Some (st', B)"
proof -
  obtain s rp who where s: "runs demo_grow insertionSort s" "sy_rooms s 0 = Some rp"
    and fin: "co_at (rp_co rp) = Finished" "\<And>i. i < 10 \<Longrightarrow> slot_after who s rp i"
    using demo_decided by metis
  obtain st where st: "sy_streams s (who 0) = Some st" "gw_at st = Awaiting (rp_event rp 0)"
    using fin(2) [of 0] unfolding slot_after_def by auto
  obtain k x where x: "sy_rooms s k = Some x" "evt_SessionID (rp_event rp 0) = rm_session (rp_room x)"
    and v: "co_at (rp_co x) = Finished \<Longrightarrow> \<exists>st' B. on_verdict 0 True st (sy_bools s) = Some (st', B)"
    using verdict_reaches_all [OF match_insertion.match_sort_axioms s(1) st, of 0] by blast
  have "x = rp"
    using sys_facts(5) [OF runs_inv(1) [OF match_insertion.match_sort_axioms s(1)] x(1) s(2)] x s(2)
    by (cases "k = 0") (auto simp: apart_def)
  moreover have "st \<in> ran (sy_streams s)" using st(1) by (rule ranI)
  ultimately show ?thesis using v fin(1) s(1) st(2) by blast
qed



text \<open>C15: a match is possible from the empty server, for any ten players with different ids, valid ratings and
  one common bracket, and any session id: some interleaving ends with a session of exactly these ten
  under that id, and each of their streams has sent IN_GAME with it and left without an error.\<close>

theorem match_possible:
  fixes pid :: "nat \<Rightarrow> string"
  assumes "match_sort srt" "inj_on pid {..<10}" "\<forall>i < 10. bracketKey (m i) = bk"
    and "\<forall>i < 10. pid i \<noteq> [] \<and> 0 \<le> sint (m i) \<and> sint (m i) \<le> MaxMMR"
  shows "\<exists>s t. runs grow srt s \<and> GetSession sid (sy_sessions s) = Some t \<and> set (PlayerIDs t) = pid ` {..<10}
    \<and> (\<forall>i < 10. \<exists>n st resp. sy_streams s n = Some st \<and> PlayerID (gw_qp st) = pid i \<and> gw_at st = Returning None
         \<and> resp \<in> set (gw_sent st) \<and> gr_Status resp = QUEUE_STATUS_IN_GAME
         \<and> map_option ma_SessionId (gr_Match resp) = Some sid)"
proof -
  obtain s0 rp who where s0: "runs grow srt s0" "sy_rooms s0 0 = Some rp" and room: "rm_session (rp_room rp) = sid"
    "set (map PlayerID (rm_players (rp_room rp))) = pid ` {..<10}" "length (rm_players (rp_room rp)) = 10"
    and dec: "co_at (rp_co rp) = Finished" "co_allAccepted (rp_co rp)" "\<And>i. i < 10 \<Longrightarrow> slot_after who s0 rp i"
    using match_decided [OF assms(1-4), where sid = sid and grow = grow] by metis
  obtain s t where s: "runs grow srt s" "GetSession sid (sy_sessions s) = Some t"
    and t: "PlayerIDs t = map PlayerID (rm_players (rp_room rp))" and played: "\<And>i. i < 10 \<Longrightarrow> slot_played who s rp i"
    using room_plays [OF assms(1) s0 dec] room(1) by metis
  have heard: "\<exists>n st resp. sy_streams s n = Some st \<and> PlayerID (gw_qp st) = pid i \<and> gw_at st = Returning None
      \<and> resp \<in> set (gw_sent st) \<and> gr_Status resp = QUEUE_STATUS_IN_GAME \<and> map_option ma_SessionId (gr_Match resp) = Some sid"
    if i: "i < 10" for i
  proof -
    have "pid i \<in> set (map PlayerID (rm_players (rp_room rp)))" using room(2) i by simp
    then obtain j where j: "j < 10" "PlayerID (rp_player rp j) = pid i"
      using room(3) by (auto simp: in_set_conv_nth rp_player_def)
    obtain st where st: "sy_streams s (who j) = Some st" "gw_qp st = rp_player rp j" "gw_at st = Returning None"
      "game_response 0 (rp_event rp j) \<in> set (gw_sent st)" using played [OF j(1)] unfolding slot_played_def by blast
    moreover have "map_option ma_SessionId (gr_Match (game_response 0 (rp_event rp j))) = Some sid"
      by (simp add: game_response_def assignment_def room(1))
    moreover have "gr_Status (game_response 0 (rp_event rp j)) = QUEUE_STATUS_IN_GAME" by (simp add: game_response_def)
    ultimately show ?thesis using j(2) by metis
  qed
  show ?thesis
    by (intro exI [of _ s] exI [of _ t]) (use s t room(2) heard in simp)
qed

theorem match_possible_witness:
  "\<exists>s t. runs demo_grow insertionSort s \<and> GetSession ''s'' (sy_sessions s) = Some t \<and> set (PlayerIDs t) = demo_id ` {..<10}"
  using match_possible [OF match_insertion.match_sort_axioms, of demo_id "\<lambda>_. 1000" 2 demo_grow "''s''"] demo_ids demo_mmr by blast



text \<open>C17: every reachable state is well typed: each stream and each queued player has a \<open>MatchCh\<close> of capacity
  one in the heap; each room has ten known players and twenty different channels that exist, and the
  indexes of its fan-in goroutines stay in range; an event in a player's channel is that player's slot of
  an existing room; and every response has a documented status, with a match exactly for READY_CHECK and
  IN_GAME and a queue position only while waiting.\<close>

theorem state_typed:
  assumes "match_sort srt" "runs grow srt s"
  shows "(\<forall>n st. sy_streams s n = Some st \<longrightarrow> (\<exists>ch. cells (heap_of s) (MatchCh (gw_qp st)) = Some ch \<and> ch_cap ch = 1)
       \<and> (\<forall>resp \<in> set (gw_sent st). response_typed resp))
    \<and> queued (sy_pool s) \<subseteq> gw_qp ` ran (sy_streams s)
    \<and> (\<forall>k rp. sy_rooms s k = Some rp \<longrightarrow> length (rm_players (rp_room rp)) = 10
       \<and> set (rm_players (rp_room rp)) \<subseteq> gw_qp ` ran (sy_streams s)
       \<and> length (room_chans (rp_room rp)) = 20 \<and> distinct (room_chans (rp_room rp))
       \<and> (\<forall>c \<in> set (room_chans (rp_room rp)). cells (sy_bools s) c \<noteq> None)
       \<and> set (co_listening (rp_co rp)) \<union> fst ` set (co_fanIn (rp_co rp)) \<subseteq> {..<10}
       \<and> length (co_accepted (rp_co rp)) = 10)
    \<and> (\<forall>c ch evt. cells (heap_of s) c = Some ch \<and> evt \<in> set (ch_buf ch) \<longrightarrow>
         (\<exists>k rp i. sy_rooms s k = Some rp \<and> i < 10 \<and> c = MatchCh (rp_player rp i) \<and> evt = rp_event rp i))"
proof (intro conjI allI impI ballI)
  have inv: "sys_inv grow s" by (rule runs_inv [OF assms])
  note b = base_facts [OF sys_facts(1) [OF inv]]
  {
    fix n st
    assume st: "sy_streams s n = Some st"
    note i = stream_facts [OF sys_facts(6) [OF inv st]]
    show "\<exists>ch. cells (heap_of s) (MatchCh (gw_qp st)) = Some ch \<and> ch_cap ch = 1"
      using i(3) b(9) by (auto simp: one_slot_def)
    show "response_typed resp" if "resp \<in> set (gw_sent st)" for resp
      using typed_reachable [OF i(1)] that by (simp add: stream_view_def)
  }
  show "queued (sy_pool s) \<subseteq> gw_qp ` ran (sy_streams s)" using b(4) by (simp add: members_def)
  {
    fix k rp
    assume "sy_rooms s k = Some rp"
    then have r: "room_inv grow s rp" by (rule sys_facts(4) [OF inv])
    note sh = room_shape [OF r]
    have chk: "responses_ok (rp_room rp) (room_view rp s)" "results_ok (rp_room rp) (rp_co rp) (sy_bools s)" "index_ok (rp_co rp)"
      using room_check [OF r] by (simp_all add: check_inv_def room_view_def)
    show "length (rm_players (rp_room rp)) = 10" by (rule sh)
    show "set (rm_players (rp_room rp)) \<subseteq> gw_qp ` ran (sy_streams s)" using r by (simp add: room_inv_def members_def)
    show "length (room_chans (rp_room rp)) = 20" "distinct (room_chans (rp_room rp))"
      "length (co_accepted (rp_co rp)) = 10"
      using sh by (simp_all add: room_ok_def)
    show "set (co_listening (rp_co rp)) \<union> fst ` set (co_fanIn (rp_co rp)) \<subseteq> {..<10}"
      using chk(3) sh(2) by (simp add: index_ok_def)
    show "cells (sy_bools s) c \<noteq> None" if c: "c \<in> set (room_chans (rp_room rp))" for c
    proof (cases "c \<in> set (rm_responses (rp_room rp))")
      case True
      then obtain i where "i < 10" "c = rp_resp rp i" using sh(3) by (auto simp: in_set_conv_nth)
      then show ?thesis using chk(1) sh(2) by (auto simp: responses_ok_def room_view_def)
    next
      case False
      then have "c \<in> set (rm_results (rp_room rp))" using c by simp
      then show ?thesis using chk(2) unfolding results_ok_def
        by (auto simp: idle_def published_def split: co_pc.splits)
    qed
  }
  fix c ch evt
  assume "cells (heap_of s) c = Some ch \<and> evt \<in> set (ch_buf ch)"
  then have "event_ok s c evt" using sys_facts(2) [OF inv] by (simp add: events_inv_def)
  then obtain rp i where "serves s (rp_player rp i) rp i" "evt = rp_event rp i" "c = MatchCh (rp_player rp i)"
    by (auto simp: event_ok_def)
  moreover from this(1) obtain k where "sy_rooms s k = Some rp" "i < 10" using serves_room [OF inv] by blast
  ultimately show "\<exists>k rp i. sy_rooms s k = Some rp \<and> i < 10 \<and> c = MatchCh (rp_player rp i) \<and> evt = rp_event rp i"
    by blast
qed

theorem state_typed_witness:
  "\<exists>s rp. runs demo_grow insertionSort s \<and> sy_rooms s 0 = Some rp \<and> length (room_chans (rp_room rp)) = 20"
proof -
  obtain s rp who where s: "runs demo_grow insertionSort s" "sy_rooms s 0 = Some rp" by (rule demo_decided)
  have "length (room_chans (rp_room rp)) = 20"
    by (rule state_typed [OF match_insertion.match_sort_axioms s(1), THEN conjunct2, THEN conjunct2, THEN conjunct1,
          rule_format, OF s(2), THEN conjunct2, THEN conjunct2, THEN conjunct1])
  with s show ?thesis by blast
qed



end
